(* ===== verification/Prelude.thy ===== *)
theory Prelude
  imports Main "HOL-Library.Word"
begin

text \<open>
  What every component shares: the machine integers of the Rust source at their width, the
  integer operations of the Rust standard library the source calls, the result type with the
  source's error enum (\<open>src/src/platform/mod.rs\<close>), bytes in memory, and the generic facts on
  words and lists that the component theories use through the collections \<open>word_nat\<close> (reading
  words as natural numbers) and \<open>rust_int\<close> (the definitions of the integer operations).

  Arithmetic follows the release profile of the crate (\<open>Cargo.toml\<close> sets no profile):
  \<open>+\<close> and \<open>-\<close> wrap at the width of their type.  \<open>usize\<close> is 64 bits wide.
\<close>

section \<open>Machine integers\<close>

type_synonym u8 = "8 word"
type_synonym u16 = "16 word"
type_synonym u32 = "32 word"
type_synonym u64 = "64 word"
type_synonym usize = "64 word"
type_synonym i64 = "64 word"

named_theorems word_nat
named_theorems rust_int

lemma unat_add_no_overflow [word_nat]:
  fixes a b :: "'l::len word"
  assumes "unat a + unat b < 2 ^ LENGTH('l)"
  shows "unat (a + b) = unat a + unat b"
  using assms by (simp add: unat_add_lem)

lemma unat_sub_no_underflow [word_nat]:
  fixes a b :: "'l::len word"
  assumes "unat b \<le> unat a"
  shows "unat (a - b) = unat a - unat b"
  using assms by (simp add: unat_sub word_le_nat_alt)

lemma unat_u64_less: "unat (a :: u64) < 18446744073709551616"
  using unsigned_less [of a, where ?'a = nat] by simp

lemma unat_u32_less: "unat (a :: u32) < 4294967296"
  using unsigned_less [of a, where ?'a = nat] by simp

lemma unat_u16_less: "unat (a :: u16) < 65536"
  using unsigned_less [of a, where ?'a = nat] by simp

lemma unat_u32_to_u64 [simp]: "unat (ucast (a :: u32) :: u64) = unat a"
proof -
  have "unat a < 2 ^ 64" by (rule order_less_trans [OF unat_u32_less]) simp
  then show ?thesis by (simp add: unsigned_ucast_eq take_bit_nat_eq_self)
qed

lemma ucast_u32_u64_inverse [simp]: "(ucast (ucast (a :: u32) :: u64) :: u32) = a"
  by (simp add: ucast_up_ucast_id is_up)

lemma ucast_u32_eq_0 [simp]: "(ucast (a :: u32) :: u64) = 0 \<longleftrightarrow> a = 0"
  by (metis ucast_0 ucast_u32_u64_inverse)

text \<open>A sum that stays below some value of the type does not wrap.\<close>

lemma unat_add_bounded [word_nat]:
  fixes a b c :: "'l::len word"
  assumes "unat a + unat b \<le> unat c"
  shows "unat (a + b) = unat a + unat b"
proof -
  have "unat c < 2 ^ LENGTH('l)" by (rule unsigned_less)
  with assms show ?thesis by (intro unat_add_no_overflow) (rule le_less_trans)
qed

lemma unat_max: "unat (max a b) = max (unat a) (unat b)" for a b :: "'l::len word"
  by (simp add: max_def word_le_nat_alt)

lemma max_1_neq_0: "max x 1 \<noteq> 0" for x :: "'l::len word"
proof
  assume "max x 1 = 0"
  then have "1 \<le> (0 :: 'l word)" by (metis max.cobounded2)
  then show False by simp
qed

lemma word_neq_0_pos: "a \<noteq> 0 \<longleftrightarrow> 0 < unat a" for a :: "'l::len word"
  by (simp add: unat_gt_0)

text \<open>The distance from \<open>tail\<close> to \<open>head\<close> on the ring counters, which wrap.\<close>

lemma unat_dist_Suc:
  fixes h t :: "'l::len word"
  assumes "h \<noteq> t"
  shows "unat (h - (t + 1)) + 1 = unat (h - t)"
proof -
  from assms have "h - t \<noteq> 0" by simp
  then have "unat (h - t - 1) = unat (h - t) - 1" and "0 < unat (h - t)"
    by (auto simp: unat_minus_one unat_gt_0)
  moreover have "h - (t + 1) = h - t - 1" by (simp add: algebra_simps)
  ultimately have "unat (h - (t + 1)) = unat (h - t) - 1" and "0 < unat (h - t)"
    by (simp_all only:)
  then show ?thesis by (simp only:)
qed

subsection \<open>Integer operations of the standard library\<close>

definition saturating_sub :: "'l::len word \<Rightarrow> 'l word \<Rightarrow> 'l word" where
  [rust_int]: "saturating_sub a b = (if a < b then 0 else a - b)"

definition saturating_add :: "'l::len word \<Rightarrow> 'l word \<Rightarrow> 'l word" where
  [rust_int]: "saturating_add a b = (if unat a + unat b < 2 ^ LENGTH('l) then a + b else - 1)"

definition checked_add :: "'l::len word \<Rightarrow> 'l word \<Rightarrow> 'l word option" where
  [rust_int]: "checked_add a b = (if unat a + unat b < 2 ^ LENGTH('l) then Some (a + b) else None)"

lemma unat_saturating_sub: "unat (saturating_sub a b) = unat a - unat b"
  by (auto simp: saturating_sub_def word_less_nat_alt unat_sub_no_underflow)

lemma unat_saturating_add:
  "unat (saturating_add a b) = min (unat a + unat b) (2 ^ LENGTH('l) - 1)"
  for a b :: "'l::len word"
  by (auto simp: saturating_add_def unat_add_no_overflow min_def unsigned_minus_1_eq_mask mask_eq_exp_minus_1)

lemma checked_add_Some:
  "checked_add a b = Some c \<longleftrightarrow> unat a + unat b < 2 ^ LENGTH('l) \<and> c = a + b"
  for a b :: "'l::len word"
  by (auto simp: checked_add_def)

lemma checked_add_None:
  "checked_add a b = None \<longleftrightarrow> 2 ^ LENGTH('l) \<le> unat a + unat b"
  for a b :: "'l::len word"
  by (auto simp: checked_add_def)

section \<open>Rounding up to a multiple\<close>

definition align_up_nat :: "nat \<Rightarrow> nat \<Rightarrow> nat" where
  "align_up_nat v a = (if v mod a = 0 then v else v + (a - v mod a))"

lemma align_up_nat_ge: "v \<le> align_up_nat v a"
  by (simp add: align_up_nat_def)

lemma align_up_nat_less: "0 < a \<Longrightarrow> align_up_nat v a < v + a"
  by (auto simp: align_up_nat_def mod_less_divisor)

lemma align_up_nat_dvd: "0 < a \<Longrightarrow> a dvd align_up_nat v a"
proof -
  assume "0 < a"
  then have "v mod a < a" by simp
  then have "v + (a - v mod a) = (v div a) * a + a"
    using div_mult_mod_eq [of v a] by linarith
  then show ?thesis by (auto simp: align_up_nat_def)
qed

lemma align_up_nat_least:
  assumes "0 < a" "v \<le> w" "a dvd w"
  shows "align_up_nat v a \<le> w"
proof (rule ccontr)
  let ?u = "align_up_nat v a"
  assume "\<not> ?u \<le> w"
  then have "w < ?u" by simp
  from align_up_nat_dvd [OF assms(1), of v] assms(3) have "a dvd ?u - w" by (rule dvd_diff_nat)
  with \<open>w < ?u\<close> have "a \<le> ?u - w" by (auto intro: dvd_imp_le)
  with \<open>w < ?u\<close> align_up_nat_less [OF assms(1), of v] assms(2) show False by linarith
qed

section \<open>Vectors\<close>

text \<open>\<open>Vec::remove\<close> and \<open>Vec::insert\<close> at an index in range.\<close>

definition vec_remove :: "nat \<Rightarrow> 'a list \<Rightarrow> 'a list" where
  "vec_remove i xs = take i xs @ drop (Suc i) xs"

definition vec_insert :: "nat \<Rightarrow> 'a \<Rightarrow> 'a list \<Rightarrow> 'a list" where
  "vec_insert i x xs = take i xs @ x # drop i xs"

lemma vec_remove_append [simp]: "vec_remove (length xs) (xs @ y # ys) = xs @ ys"
  by (simp add: vec_remove_def)

lemma vec_insert_append [simp]: "vec_insert (length xs) y (xs @ ys) = xs @ y # ys"
  by (simp add: vec_insert_def)

section \<open>Errors and results\<close>

text \<open>
  \<open>ShmError\<close> of \<open>src/src/platform/mod.rs\<close>.  The payload of \<open>Io\<close> is the operating system's
  error number.  A result of the model has a third case, \<open>Panic\<close>: the thread stops at an index
  out of range or a remainder by zero.
\<close>

datatype shm_error =
    Io int
  | InvalidConfig string
  | InvalidBackendSpec string
  | UnsupportedBackend string
  | Protocol string
  | Exhausted
  | NoConsumer
  | RingFull
  | RingEmpty

datatype 'a res = Ok 'a | Err shm_error | Panic

primrec is_ok :: "'a res \<Rightarrow> bool" where
  "is_ok (Ok x) = True"
| "is_ok (Err e) = False"
| "is_ok Panic = False"

primrec res_bind :: "'a res \<Rightarrow> ('a \<Rightarrow> 'b res) \<Rightarrow> 'b res" where
  "res_bind (Ok x) f = f x"
| "res_bind (Err e) f = Err e"
| "res_bind Panic f = Panic"

lemma res_bind_Ok: "res_bind r f = Ok y \<longleftrightarrow> (\<exists>x. r = Ok x \<and> f x = Ok y)"
  by (cases r) auto

lemma res_bind_Err:
  "res_bind r f = Err e \<longleftrightarrow> r = Err e \<or> (\<exists>x. r = Ok x \<and> f x = Err e)"
  by (cases r) auto

section \<open>Bytes in memory\<close>

text \<open>
  A memory is a function from addresses (offsets from a base pointer) to bytes;
  \<open>write_bytes\<close> and \<open>read_bytes\<close> are \<open>std::ptr::copy\<close> into it and out of it.
\<close>

definition write_bytes :: "nat \<Rightarrow> u8 list \<Rightarrow> (nat \<Rightarrow> u8) \<Rightarrow> nat \<Rightarrow> u8" where
  "write_bytes off bs m = (\<lambda>i. if off \<le> i \<and> i < off + length bs then bs ! (i - off) else m i)"

definition read_bytes :: "nat \<Rightarrow> nat \<Rightarrow> (nat \<Rightarrow> u8) \<Rightarrow> u8 list" where
  "read_bytes off n m = map m [off..<off + n]"

lemma read_write_bytes [simp]: "read_bytes off (length bs) (write_bytes off bs m) = bs"
  by (rule nth_equalityI) (auto simp: read_bytes_def write_bytes_def)

lemma read_write_bytes_disjoint:
  assumes "{off..<off + n} \<inter> {off'..<off' + length bs} = {}"
  shows "read_bytes off n (write_bytes off' bs m) = read_bytes off n m"
  using assms by (force simp: read_bytes_def write_bytes_def)

lemma length_read_bytes [simp]: "length (read_bytes off n m) = n"
  by (simp add: read_bytes_def)

lemma write_bytes_outside: "i < off \<or> off + length bs \<le> i \<Longrightarrow> write_bytes off bs m i = m i"
  by (auto simp: write_bytes_def)

end
