(* ===== verification/Allocator.thy ===== *)
theory Allocator
  imports Prelude "HOL-Library.AList"
begin

text \<open>
  The producer's first-fit free-list allocator, \<open>src/src/allocator.rs\<close>: its state, \<open>alloc\<close>,
  \<open>free_by_id\<close>, \<open>used_bytes\<close> and the coalescing insert, then its invariant \<open>alloc_wf\<close> (free and
  used ranges are in bounds and disjoint), the conservation of the arena (\<open>alloc_complete\<close>),
  the functional specification of first fit, and the interfaces \<open>lease_provider\<close> and \<open>counting_provider\<close> through which
  the transport reasons about its leases, interpreted here on the code's own definitions.
\<close>

section \<open>The model\<close>

record allocation =
  al_buffer_id :: u32
  al_offset :: u64
  al_len :: u32

type_synonym range = "u64 \<times> u64"

text \<open>
  The \<open>BTreeMap\<close> of used blocks is an association list with distinct keys; the source only
  looks keys up, inserts, removes and sums the values, and none of these sees an order.
\<close>

record free_list_allocator =
  fl_free :: "range list"
  fl_used :: "(u32 \<times> range) list"
  fl_next_id :: u32

definition new_allocator :: "u64 \<Rightarrow> free_list_allocator" where
  "new_allocator total_size = \<lparr>fl_free = [(0, total_size)], fl_used = [], fl_next_id = 1\<rparr>"

definition align_up :: "u64 \<Rightarrow> u64 \<Rightarrow> u64" where
  "align_up v align =
     (if align \<le> 1 then v
      else let rem = v mod align in if rem = 0 then v else v + (align - rem))"

function alloc_loop ::
    "free_list_allocator \<Rightarrow> u64 \<Rightarrow> u64 \<Rightarrow> nat \<Rightarrow> (free_list_allocator \<times> allocation) option" where
  "alloc_loop a sz align idx =
     (if idx < length (fl_free a) then
        let start = fst (fl_free a ! idx);
            len = snd (fl_free a ! idx);
            aligned_start = align_up start align;
            end' = start + len
        in if aligned_start + sz \<le> end' then
             let left_len = saturating_sub aligned_start start;
                 right_start = aligned_start + sz;
                 right_len = saturating_sub end' right_start;
                 free1 = vec_remove idx (fl_free a);
                 free2 = (if right_len > 0 then vec_insert idx (right_start, right_len) free1 else free1);
                 free3 = (if left_len > 0 then vec_insert idx (start, left_len) free2 else free2);
                 buffer_id = fl_next_id a
             in Some (a\<lparr>fl_free := free3,
                        fl_next_id := max (buffer_id + 1) 1,
                        fl_used := AList.update buffer_id (aligned_start, sz) (fl_used a)\<rparr>,
                      \<lparr>al_buffer_id = buffer_id, al_offset = aligned_start, al_len = ucast sz\<rparr>)
           else alloc_loop a sz align (idx + 1)
      else None)"
  by pat_completeness auto
termination
  by (relation "measure (\<lambda>(a, sz, align, idx). length (fl_free a) - idx)") auto

declare alloc_loop.simps [simp del]

definition alloc :: "free_list_allocator \<Rightarrow> u32 \<Rightarrow> u64 \<Rightarrow> (free_list_allocator \<times> allocation) option" where
  "alloc a sz align = alloc_loop a (ucast sz) (max align 1) 0"

text \<open>One round of the merging loop of \<open>insert_and_coalesce\<close>.\<close>

definition merge_step :: "range list \<Rightarrow> range \<Rightarrow> range list" where
  "merge_step merged r =
     (case r of (s, l) \<Rightarrow>
        if merged \<noteq> [] then
          let last_s = fst (last merged);
              last_l = snd (last merged);
              last_end = last_s + last_l
          in if s \<le> last_end
             then butlast merged @ [(last_s, max (s + l) last_end - last_s)]
             else merged @ [(s, l)]
        else merged @ [(s, l)])"

definition insert_and_coalesce :: "u64 \<Rightarrow> u64 \<Rightarrow> free_list_allocator \<Rightarrow> free_list_allocator" where
  "insert_and_coalesce start len a =
     a\<lparr>fl_free := foldl merge_step [] (sort_key fst (fl_free a @ [(start, len)]))\<rparr>"

definition free_by_id :: "free_list_allocator \<Rightarrow> u32 \<Rightarrow> free_list_allocator \<times> bool" where
  "free_by_id a buffer_id =
     (case map_of (fl_used a) buffer_id of
        Some (start, len) \<Rightarrow>
          (insert_and_coalesce start len (a\<lparr>fl_used := AList.delete buffer_id (fl_used a)\<rparr>), True)
      | None \<Rightarrow> (a, False))"

definition used_bytes :: "free_list_allocator \<Rightarrow> u64" where
  "used_bytes a = sum_list (map (\<lambda>(_, (_, len)). len) (fl_used a))"

section \<open>Ranges as sets of bytes\<close>

definition range_bytes :: "range \<Rightarrow> nat set" where
  "range_bytes r = {unat (fst r)..<unat (fst r) + unat (snd r)}"

definition all_bytes :: "range list \<Rightarrow> nat set" where
  "all_bytes rs = (\<Union>r\<in>set rs. range_bytes r)"

definition disjoint_ranges :: "range \<Rightarrow> range \<Rightarrow> bool" where
  "disjoint_ranges r r' \<longleftrightarrow> snd r = 0 \<or> snd r' = 0 \<or>
     unat (fst r) + unat (snd r) \<le> unat (fst r') \<or> unat (fst r') + unat (snd r') \<le> unat (fst r)"

definition in_bounds :: "u64 \<Rightarrow> range \<Rightarrow> bool" where
  "in_bounds tot r \<longleftrightarrow> unat (fst r) + unat (snd r) \<le> unat tot"

definition ends_before :: "range \<Rightarrow> range \<Rightarrow> bool" where
  "ends_before r r' \<longleftrightarrow> unat (fst r) + unat (snd r) \<le> unat (fst r')"

definition gap_between :: "range \<Rightarrow> range \<Rightarrow> bool" where
  "gap_between r r' \<longleftrightarrow> unat (fst r) + unat (snd r) < unat (fst r')"

lemmas range_defs = range_bytes_def in_bounds_def ends_before_def gap_between_def

lemma disjoint_ranges_bytes: "disjoint_ranges r r' \<longleftrightarrow> range_bytes r \<inter> range_bytes r' = {}"
  by (auto simp: disjoint_ranges_def range_bytes_def ivl_disj_int word_neq_0_pos
        unat_eq_zero [symmetric] simp del: unat_eq_zero)

lemma all_bytes_simps [simp]:
  "all_bytes [] = {}"
  "all_bytes (r # rs) = range_bytes r \<union> all_bytes rs"
  "all_bytes (rs @ ss) = all_bytes rs \<union> all_bytes ss"
  by (auto simp: all_bytes_def)

lemma finite_range_bytes [simp]: "finite (range_bytes r)"
  by (simp add: range_bytes_def)

lemma finite_all_bytes [simp]: "finite (all_bytes rs)"
  by (simp add: all_bytes_def)

lemma card_range_bytes [simp]: "card (range_bytes r) = unat (snd r)"
  by (simp add: range_bytes_def)

section \<open>Alignment\<close>

lemma unat_align_up:
  assumes "unat v + unat a \<le> 2 ^ 64" and "0 < unat a"
  shows "unat (align_up v a) = align_up_nat (unat v) (unat a)"
proof (cases "a \<le> 1")
  case True
  with assms(2) have "unat a = 1"
    by (simp add: word_le_nat_alt)
  with True show ?thesis by (simp add: align_up_def align_up_nat_def)
next
  case False
  have m: "unat (v mod a) = unat v mod unat a" by (rule unat_mod_distrib)
  have lt: "unat v mod unat a < unat a" using assms(2) by simp
  have s: "unat (a - v mod a) = unat a - unat v mod unat a"
    using lt by (simp add: unat_sub_no_underflow m)
  show ?thesis
  proof (cases "unat v mod unat a = 0")
    case True
    then have "v mod a = 0" using m by (simp add: unat_eq_0)
    with True False show ?thesis by (simp add: align_up_def align_up_nat_def)
  next
    case nz: False
    then have "v mod a \<noteq> 0" using m by (metis unat_0)
    moreover have "unat v + unat (a - v mod a) < 2 ^ 64"
      using nz lt assms(1) by (simp add: s)
    ultimately show ?thesis
      using False nz by (simp add: align_up_def align_up_nat_def Let_def unat_add_no_overflow s)
  qed
qed

section \<open>Coalescing\<close>

text \<open>The merging loop with its accumulator split off: \<open>coalesce c rs\<close> still extends \<open>c\<close>.\<close>

fun coalesce :: "range \<Rightarrow> range list \<Rightarrow> range list" where
  "coalesce c [] = [c]"
| "coalesce (ls, ll) ((s, l) # rs) =
     (if s \<le> ls + ll then coalesce (ls, max (s + l) (ls + ll) - ls) rs
      else (ls, ll) # coalesce (s, l) rs)"

lemma foldl_merge_step: "foldl merge_step (pre @ [c]) rs = pre @ coalesce c rs"
proof (induction c rs arbitrary: pre rule: coalesce.induct)
  case (2 ls ll s l rs)
  show ?case
  proof (cases "s \<le> ls + ll")
    case True
    then show ?thesis using 2(1) [OF True, of pre] by (simp add: merge_step_def Let_def)
  next
    case False
    then show ?thesis using 2(2) [OF False, of "pre @ [(ls, ll)]"]
      by (simp add: merge_step_def Let_def)
  qed
qed simp

lemma merge_loop_coalesce: "foldl merge_step [] (c # rs) = coalesce c rs"
proof -
  have "merge_step [] c = [] @ [c]" by (simp add: merge_step_def split: prod.split)
  then have "foldl merge_step [] (c # rs) = foldl merge_step ([] @ [c]) rs" by (simp only: foldl_Cons)
  also have "\<dots> = [] @ coalesce c rs" by (rule foldl_merge_step)
  finally show ?thesis by (simp only: append_Nil)
qed

lemma merged_range:
  assumes "in_bounds tot (ls, ll)" "in_bounds tot (s, l)" "ls \<le> s" "s \<le> ls + ll"
  defines "m \<equiv> (ls, max (s + l) (ls + ll) - ls)"
  shows "in_bounds tot m" and "range_bytes m = range_bytes (ls, ll) \<union> range_bytes (s, l)"
proof -
  have b: "unat ls + unat ll \<le> unat tot" "unat s + unat l \<le> unat tot"
    using assms(1,2) by (auto simp: in_bounds_def)
  then have e: "unat (ls + ll) = unat ls + unat ll" "unat (s + l) = unat s + unat l"
    by (simp_all only: unat_add_bounded)
  have le: "unat ls \<le> unat s" "unat s \<le> unat ls + unat ll"
    using assms(3,4) e by (auto simp: word_le_nat_alt)
  have d: "unat (max (s + l) (ls + ll) - ls) = max (unat s + unat l) (unat ls + unat ll) - unat ls"
    using le by (subst unat_sub_no_underflow) (auto simp: unat_max e)
  show "in_bounds tot m" using b le by (auto simp: in_bounds_def m_def d)
  show "range_bytes m = range_bytes (ls, ll) \<union> range_bytes (s, l)"
    using le by (auto simp: range_bytes_def m_def d)
qed

definition coalesced :: "u64 \<Rightarrow> u64 \<Rightarrow> nat set \<Rightarrow> range list \<Rightarrow> bool" where
  "coalesced tot lo B rs \<longleftrightarrow> (\<forall>r\<in>set rs. in_bounds tot r) \<and> all_bytes rs = B \<and>
     (\<forall>r\<in>set rs. lo \<le> fst r) \<and> sorted_wrt gap_between rs"

lemma coalesced_Cons:
  assumes "coalesced tot (fst c) B rs" "in_bounds tot d" "gap_between d c" "fst d \<le> fst c"
  shows "coalesced tot (fst d) (range_bytes d \<union> B) (d # rs)"
proof -
  have "gap_between d r \<and> fst d \<le> fst r" if "r \<in> set rs" for r
  proof -
    from assms(1) that have "fst c \<le> fst r" by (simp add: coalesced_def)
    with assms(3,4) show ?thesis by (auto simp: gap_between_def word_le_nat_alt)
  qed
  with assms(1,2) show ?thesis by (simp add: coalesced_def)
qed

lemma coalesce_coalesced:
  assumes "sorted (map fst (c # rs))" "\<forall>r\<in>set (c # rs). in_bounds tot r"
  shows "coalesced tot (fst c) (all_bytes (c # rs)) (coalesce c rs)"
  using assms
proof (induction c rs rule: coalesce.induct)
  case (1 c)
  then show ?case by (simp add: coalesced_def)
next
  case (2 ls ll s l rs)
  show ?case
  proof (cases "s \<le> ls + ll")
    case True
    let ?m = "(ls, max (s + l) (ls + ll) - ls)"
    from 2(3,4) have ls: "in_bounds tot (ls, ll)" "in_bounds tot (s, l)" "ls \<le> s" by auto
    note m = merged_range [OF ls True]
    have "sorted (map fst (?m # rs))" using 2(3) by auto
    moreover have "\<forall>r\<in>set (?m # rs). in_bounds tot r" using m(1) 2(4) by simp
    ultimately have "coalesced tot (fst ?m) (all_bytes (?m # rs)) (coalesce ?m rs)"
      by (rule 2(1) [OF True])
    moreover have "all_bytes (?m # rs) = all_bytes ((ls, ll) # (s, l) # rs)"
      by (simp only: all_bytes_simps m(2) Un_assoc)
    ultimately show ?thesis using True by (simp only: coalesce.simps if_True fst_conv)
  next
    case False
    from 2(3,4) have "coalesced tot (fst (s, l)) (all_bytes ((s, l) # rs)) (coalesce (s, l) rs)"
      by (intro 2(2) [OF False]) auto
    moreover have "in_bounds tot (ls, ll)" using 2(4) by simp
    moreover have "unat ls + unat ll \<le> unat tot" using 2(4) by (simp add: in_bounds_def)
    then have "unat (ls + ll) = unat ls + unat ll" by (rule unat_add_bounded)
    with False have "gap_between (ls, ll) (s, l)"
      by (simp only: gap_between_def word_le_nat_alt not_le fst_conv snd_conv)
    moreover have "fst (ls, ll) \<le> fst (s, l)" using 2(3) by simp
    ultimately have "coalesced tot (fst (ls, ll)) (range_bytes (ls, ll) \<union> all_bytes ((s, l) # rs))
      ((ls, ll) # coalesce (s, l) rs)"
      by (rule coalesced_Cons)
    with False show ?thesis by (simp only: coalesce.simps if_False all_bytes_simps)
  qed
qed

lemma insert_and_coalesce_spec:
  assumes "\<forall>r\<in>set (fl_free a). in_bounds tot r" "in_bounds tot (s, l)"
  defines "f \<equiv> fl_free (insert_and_coalesce s l a)"
  shows "\<forall>r\<in>set f. in_bounds tot r" and "sorted_wrt gap_between f"
    and "all_bytes f = all_bytes (fl_free a) \<union> range_bytes (s, l)"
proof -
  let ?xs = "sort_key fst (fl_free a @ [(s, l)])"
  have "length ?xs \<noteq> 0" by simp
  then obtain c rs where xs: "?xs = c # rs" by (cases ?xs) (simp_all only: list.size simp_thms)
  have srt: "sorted (map fst (c # rs))" by (metis xs sorted_sort_key)
  have set: "set (c # rs) = insert (s, l) (set (fl_free a))" 
    unfolding xs [symmetric] by simp
  then have bnd: "\<forall>r\<in>set (c # rs). in_bounds tot r" using assms(1,2) by auto
  have "f = foldl merge_step [] ?xs" by (simp add: f_def insert_and_coalesce_def)
  then have f: "f = coalesce c rs" by (simp only: xs merge_loop_coalesce)
  note * = coalesce_coalesced [OF srt bnd, folded f, unfolded coalesced_def]
  show "\<forall>r\<in>set f. in_bounds tot r" and "sorted_wrt gap_between f" using * by auto
  have "all_bytes f = all_bytes (c # rs)" using * by simp
  also have "\<dots> = all_bytes (fl_free a) \<union> range_bytes (s, l)" unfolding all_bytes_def set by auto
  finally show "all_bytes f = all_bytes (fl_free a) \<union> range_bytes (s, l)" .
qed

lemma insert_and_coalesce_frame [simp]:
  "fl_used (insert_and_coalesce s l a) = fl_used a"
  "fl_next_id (insert_and_coalesce s l a) = fl_next_id a"
  by (simp_all add: insert_and_coalesce_def)

section \<open>First fit\<close>

definition fits :: "u64 \<Rightarrow> u64 \<Rightarrow> range \<Rightarrow> bool" where
  "fits sz align r \<longleftrightarrow> align_up (fst r) align + sz \<le> fst r + snd r"

text \<open>What is left of a free range when a block is cut out of it.\<close>

definition pieces :: "u64 \<Rightarrow> u64 \<Rightarrow> range \<Rightarrow> range list" where
  "pieces sz align r =
     (let off = align_up (fst r) align;
          left_len = saturating_sub off (fst r);
          right_len = saturating_sub (fst r + snd r) (off + sz)
      in (if left_len > 0 then [(fst r, left_len)] else []) @
         (if right_len > 0 then [(off + sz, right_len)] else []))"

text \<open>The search of \<open>alloc\<close> as a function of the free list alone.\<close>

fun carve :: "u64 \<Rightarrow> u64 \<Rightarrow> range list \<Rightarrow> (u64 \<times> range list) option" where
  "carve sz align [] = None"
| "carve sz align (r # rs) =
     (if fits sz align r then Some (align_up (fst r) align, pieces sz align r @ rs)
      else map_option (\<lambda>(off, f). (off, r # f)) (carve sz align rs))"

definition take_block ::
    "free_list_allocator \<Rightarrow> u64 \<Rightarrow> u64 \<Rightarrow> range list \<Rightarrow> free_list_allocator \<times> allocation" where
  "take_block a sz off f =
     (a\<lparr>fl_free := f, fl_next_id := max (fl_next_id a + 1) 1,
        fl_used := AList.update (fl_next_id a) (off, sz) (fl_used a)\<rparr>,
      \<lparr>al_buffer_id = fl_next_id a, al_offset = off, al_len = ucast sz\<rparr>)"

lemma alloc_loop_carve:
  assumes "fl_free a = pre @ post"
  shows "alloc_loop a sz align (length pre) =
    map_option (\<lambda>(off, f). take_block a sz off (pre @ f)) (carve sz align post)"
  using assms
proof (induction post arbitrary: pre)
  case Nil
  then show ?case by (simp add: alloc_loop.simps)
next
  case (Cons r post)
  show ?case
  proof (cases "fits sz align r")
    case True
    then show ?thesis using Cons.prems
      by (simp add: alloc_loop.simps [of a sz align "length pre"] Let_def fits_def pieces_def take_block_def)
  next
    case False
    have "fl_free a = (pre @ [r]) @ post" using Cons.prems by simp
    from Cons.IH [OF this] show ?thesis using Cons.prems False
      by (subst alloc_loop.simps)
        (simp add: Let_def fits_def option.map_comp comp_def case_prod_beta)
  qed
qed

lemma alloc_carve:
  "alloc a sz align =
     map_option (\<lambda>(off, f). take_block a (ucast sz) off f) (carve (ucast sz) (max align 1) (fl_free a))"
  using alloc_loop_carve [of a "[]" "fl_free a"] by (simp add: alloc_def)

lemma carve_None: "carve sz align rs = None \<longleftrightarrow> (\<forall>r\<in>set rs. \<not> fits sz align r)"
  by (induction rs) auto

lemma carve_SomeE:
  assumes "carve sz align rs = Some (off, f)"
  obtains pre r post where "rs = pre @ r # post" "\<forall>q\<in>set pre. \<not> fits sz align q"
    "fits sz align r" "off = align_up (fst r) align" "f = pre @ pieces sz align r @ post"
  using assms
proof (induction rs arbitrary: f thesis)
  case Nil
  then show ?case by simp
next
  case (Cons q rs)
  show ?case
  proof (cases "fits sz align q")
    case True
    with Cons.prems(2) show ?thesis by (intro Cons.prems(1) [of "[]" q rs]) auto
  next
    case False
    with Cons.prems(2) obtain f' where f': "carve sz align rs = Some (off, f')" "f = q # f'" by auto
    show ?thesis
    proof (rule Cons.IH [OF _ f'(1)])
      fix pre r post
      assume "rs = pre @ r # post" "\<forall>q\<in>set pre. \<not> fits sz align q" "fits sz align r"
        "off = align_up (fst r) align" "f' = pre @ pieces sz align r @ post"
      with False f'(2) show ?thesis by (intro Cons.prems(1) [of "q # pre" r post]) auto
    qed
  qed
qed

text \<open>
  The additions of \<open>alloc\<close> do not wrap when the arena leaves room for one alignment and one
  32-bit size at the top of the address space.
\<close>

definition roomy :: "u64 \<Rightarrow> u64 \<Rightarrow> bool" where
  "roomy tot align \<longleftrightarrow> unat tot + unat align + 2 ^ 32 \<le> 2 ^ 64"

lemma unat_max_1 [simp]: "unat (max align 1) = max (unat align) 1" for align :: u64
  by (simp add: unat_max)

definition cuttable :: "u64 \<Rightarrow> u64 \<Rightarrow> u64 \<Rightarrow> range \<Rightarrow> bool" where
  "cuttable tot align sz r \<longleftrightarrow>
     roomy tot align \<and> 0 < unat align \<and> unat sz < 2 ^ 32 \<and> in_bounds tot r"

lemma cuttable_unat:
  assumes "cuttable tot align sz r"
  shows "unat (align_up (fst r) align) = align_up_nat (unat (fst r)) (unat align)"
    and "unat (align_up (fst r) align + sz) = align_up_nat (unat (fst r)) (unat align) + unat sz"
    and "unat (fst r + snd r) = unat (fst r) + unat (snd r)"
proof -
  show 1: "unat (align_up (fst r) align) = align_up_nat (unat (fst r)) (unat align)"
    using assms by (intro unat_align_up) (auto simp: cuttable_def roomy_def in_bounds_def)
  have "align_up_nat (unat (fst r)) (unat align) + unat sz < 2 ^ 64"
    using assms align_up_nat_less [of "unat align" "unat (fst r)"]
    by (simp add: cuttable_def roomy_def in_bounds_def)
  then show "unat (align_up (fst r) align + sz) = align_up_nat (unat (fst r)) (unat align) + unat sz"
    by (simp add: 1 unat_add_no_overflow)
  show "unat (fst r + snd r) = unat (fst r) + unat (snd r)"
    using assms unat_add_bounded [of "fst r" "snd r" tot] by (simp add: cuttable_def in_bounds_def)
qed

lemma fits_iff:
  assumes "cuttable tot align sz r"
  shows "fits sz align r \<longleftrightarrow>
    align_up_nat (unat (fst r)) (unat align) + unat sz \<le> unat (fst r) + unat (snd r)"
  by (simp only: fits_def word_le_nat_alt cuttable_unat [OF assms])

text \<open>A cut divides its range into the block and the pieces.\<close>

lemma pieces_spec:
  assumes "cuttable tot align sz r" "fits sz align r"
  defines "off \<equiv> align_up (fst r) align"
  shows "range_bytes (off, sz) \<subseteq> range_bytes r"
    and "all_bytes (pieces sz align r) = range_bytes r - range_bytes (off, sz)"
    and "sorted_wrt ends_before (pieces sz align r)"
    and "\<forall>p\<in>set (pieces sz align r). unat (fst r) \<le> unat (fst p) \<and>
           unat (fst p) + unat (snd p) \<le> unat (fst r) + unat (snd r)"
proof -
  note u = cuttable_unat [OF assms(1), folded off_def]
  have f: "unat off + unat sz \<le> unat (fst r) + unat (snd r)"
    using assms(2) fits_iff [OF assms(1)] by (simp add: u)
  have ge: "unat (fst r) \<le> unat off" by (simp add: u align_up_nat_ge)
  have end': "unat (off + sz) = unat off + unat sz" by (simp add: u)
  have left: "unat (saturating_sub off (fst r)) = unat off - unat (fst r)"
    and right: "unat (saturating_sub (fst r + snd r) (off + sz)) =
      unat (fst r) + unat (snd r) - (unat off + unat sz)"
    by (simp_all add: unat_saturating_sub u(3) end')
  note defs = pieces_def Let_def off_def [symmetric] range_defs word_neq_0_pos word_less_nat_alt left right
  show "range_bytes (off, sz) \<subseteq> range_bytes r" using ge f by (auto simp: range_bytes_def)
  show "all_bytes (pieces sz align r) = range_bytes r - range_bytes (off, sz)"
    using ge f by (auto simp: defs end')
  show "sorted_wrt ends_before (pieces sz align r)" using ge f by (auto simp: defs end')
  show "\<forall>p\<in>set (pieces sz align r). unat (fst r) \<le> unat (fst p) \<and>
      unat (fst p) + unat (snd p) \<le> unat (fst r) + unat (snd r)"
    using ge f by (auto simp: defs end')
qed

section \<open>The invariant\<close>

definition used_disjoint :: "(u32 \<times> range) list \<Rightarrow> bool" where
  "used_disjoint us \<longleftrightarrow>
     (\<forall>u\<in>set us. \<forall>v\<in>set us. fst u \<noteq> fst v \<longrightarrow> disjoint_ranges (snd u) (snd v))"

definition alloc_wf :: "u64 \<Rightarrow> free_list_allocator \<Rightarrow> bool" where
  "alloc_wf tot a \<longleftrightarrow>
     (\<forall>r\<in>set (fl_free a). in_bounds tot r) \<and> sorted_wrt ends_before (fl_free a) \<and>
     (\<forall>u\<in>set (fl_used a). in_bounds tot (snd u)) \<and> distinct (map fst (fl_used a)) \<and>
     used_disjoint (fl_used a) \<and>
     (\<forall>r\<in>set (fl_free a). \<forall>u\<in>set (fl_used a). disjoint_ranges r (snd u)) \<and>
     fl_next_id a \<noteq> 0"

text \<open>The map of live blocks: what the rest of the transport may rely on.\<close>

abbreviation live :: "free_list_allocator \<Rightarrow> u32 \<Rightarrow> range option" where
  "live a \<equiv> map_of (fl_used a)"

abbreviation free_bytes :: "free_list_allocator \<Rightarrow> nat set" where
  "free_bytes a \<equiv> all_bytes (fl_free a)"

abbreviation taken_bytes :: "free_list_allocator \<Rightarrow> nat set" where
  "taken_bytes a \<equiv> all_bytes (map snd (fl_used a))"

lemma free_used_disjoint_bytes:
  "(\<forall>r\<in>set (fl_free a). \<forall>u\<in>set (fl_used a). disjoint_ranges r (snd u)) \<longleftrightarrow>
     free_bytes a \<inter> taken_bytes a = {}"
  by (simp add: disjoint_ranges_bytes all_bytes_def) blast

lemma alloc_wf_new: "alloc_wf tot (new_allocator tot)"
  by (simp add: alloc_wf_def new_allocator_def in_bounds_def used_disjoint_def)

lemma alloc_wf_disjoint: "alloc_wf tot a \<Longrightarrow> free_bytes a \<inter> taken_bytes a = {}"
  by (simp add: alloc_wf_def free_used_disjoint_bytes)

lemma alloc_wf_live_bounds: "alloc_wf tot a \<Longrightarrow> live a i = Some r \<Longrightarrow> in_bounds tot r"
  by (fastforce simp: alloc_wf_def dest: map_of_SomeD)

lemma alloc_wf_live_disjoint:
  "alloc_wf tot a \<Longrightarrow> live a i = Some r \<Longrightarrow> live a j = Some r' \<Longrightarrow> i \<noteq> j \<Longrightarrow> disjoint_ranges r r'"
  by (fastforce simp: alloc_wf_def used_disjoint_def dest!: map_of_SomeD)

lemma set_update_subset: "set (AList.update k v al) \<subseteq> insert (k, v) {x \<in> set al. fst x \<noteq> k}"
  if "distinct (map fst al)"
  using that by (induction al) (auto, metis fst_conv image_eqI)

lemma set_delete: "set (AList.delete k al) = {x \<in> set al. fst x \<noteq> k}"
  by (auto simp: AList.delete_eq)

lemma ends_before_cut:
  assumes "sorted_wrt ends_before (pre @ r # post)" "sorted_wrt ends_before ps"
    "\<forall>p\<in>set ps. unat (fst r) \<le> unat (fst p) \<and> unat (fst p) + unat (snd p) \<le> unat (fst r) + unat (snd r)"
  shows "sorted_wrt ends_before (pre @ ps @ post)"
  using assms by (fastforce simp: sorted_wrt_append ends_before_def)

lemma free_bytes_cut:
  assumes "sorted_wrt ends_before (pre @ r # post)" "B \<subseteq> range_bytes r"
  shows "all_bytes (pre @ post) \<inter> B = {}"
proof -
  have "range_bytes q \<inter> range_bytes r = {}" if "q \<in> set (pre @ post)" for q
    using assms(1) that by (fastforce simp: sorted_wrt_append range_defs)
  with assms(2) show ?thesis unfolding all_bytes_def by blast
qed

lemma live_subset_taken: "live a i = Some r \<Longrightarrow> range_bytes r \<subseteq> taken_bytes a"
  by (drule map_of_SomeD) (force simp: all_bytes_def)

text \<open>Everything the callers of \<open>alloc\<close> need, from one analysis of the search.\<close>

lemma alloc_Some:
  assumes wf: "alloc_wf tot a" and room: "roomy tot (max align 1)"
    and al: "alloc a sz align = Some (a', x)"
  defines "block \<equiv> (al_offset x, ucast sz :: u64)"
  shows "al_buffer_id x = fl_next_id a" and "al_len x = sz"
    and "max (unat align) 1 dvd unat (al_offset x)"
    and "in_bounds tot block" and "range_bytes block \<subseteq> free_bytes a"
    and "free_bytes a' = free_bytes a - range_bytes block"
    and "fl_used a' = AList.update (fl_next_id a) block (fl_used a)"
    and "fl_next_id a' = max (fl_next_id a + 1) 1"
    and "alloc_wf tot a'"
proof -
  let ?sz = "ucast sz :: u64" and ?al = "max align 1"
  from al obtain off f where c: "carve ?sz ?al (fl_free a) = Some (off, f)"
    and x: "(a', x) = take_block a ?sz off f"
    by (auto simp: alloc_carve)
  from c obtain pre r post where cut: "fl_free a = pre @ r # post" "fits ?sz ?al r"
    "off = align_up (fst r) ?al" "f = pre @ pieces ?sz ?al r @ post"
    by (elim carve_SomeE) blast
  have k: "cuttable tot ?al ?sz r"
    using wf room unat_u32_less [of sz] by (simp add: cuttable_def alloc_wf_def cut(1))
  note ps = pieces_spec [OF k cut(2), folded cut(3)]
  have srt: "sorted_wrt ends_before (pre @ r # post)" using wf by (simp add: alloc_wf_def cut(1))
  show ids: "al_buffer_id x = fl_next_id a" "al_len x = sz" "fl_next_id a' = max (fl_next_id a + 1) 1"
    using x by (simp_all add: take_block_def)
  have block: "block = (off, ?sz)" using x by (simp add: take_block_def block_def)
  have f: "fl_free a' = f" using x by (simp add: take_block_def)
  show used: "fl_used a' = AList.update (fl_next_id a) block (fl_used a)"
    using x by (simp add: take_block_def block)
  have "unat off = align_up_nat (unat (fst r)) (max (unat align) 1)"
    using cuttable_unat(1) [OF k] by (simp add: cut(3))
  then show "max (unat align) 1 dvd unat (al_offset x)"
    using x by (simp add: take_block_def align_up_nat_dvd)
  have sub: "range_bytes block \<subseteq> range_bytes r" using ps(1) by (simp add: block)
  then show sub': "range_bytes block \<subseteq> free_bytes a" by (auto simp: cut(1))
  have "unat off + unat ?sz \<le> unat (fst r) + unat (snd r)"
    using cut(2) fits_iff [OF k] cuttable_unat(1) [OF k] by (simp add: cut(3))
  then show inb: "in_bounds tot block"
    using k by (simp add: cuttable_def in_bounds_def block)
  show fb: "free_bytes a' = free_bytes a - range_bytes block"
    using free_bytes_cut [OF srt sub] ps(2) by (auto simp: f cut(1,4) block)
  show "alloc_wf tot a'" unfolding alloc_wf_def
  proof (intro conjI)
    show "\<forall>r\<in>set (fl_free a'). in_bounds tot r"
    proof
      fix q assume "q \<in> set (fl_free a')"
      then consider "q \<in> set (fl_free a)" | "q \<in> set (pieces ?sz ?al r)" by (auto simp: f cut(1,4))
      then show "in_bounds tot q"
      proof cases
        case 1
        with wf show ?thesis by (simp add: alloc_wf_def)
      next
        case 2
        with ps(4) have "unat (fst q) + unat (snd q) \<le> unat (fst r) + unat (snd r)" by blast
        with k show ?thesis by (simp add: cuttable_def in_bounds_def)
      qed
    qed
    show "sorted_wrt ends_before (fl_free a')"
      unfolding f cut(4) by (rule ends_before_cut [OF srt ps(3,4)])
    have d: "distinct (map fst (fl_used a))" using wf by (simp add: alloc_wf_def)
    note us = set_update_subset [OF d, of "fl_next_id a" block, folded used]
    show "distinct (map fst (fl_used a'))" unfolding used by (rule distinct_update [OF d])
    show "\<forall>u\<in>set (fl_used a'). in_bounds tot (snd u)"
    proof
      fix u assume "u \<in> set (fl_used a')"
      with us have "u = (fl_next_id a, block) \<or> u \<in> set (fl_used a)" by blast
      with inb wf show "in_bounds tot (snd u)" by (auto simp: alloc_wf_def)
    qed
    have bu: "disjoint_ranges block (snd u)" "disjoint_ranges (snd u) block" if "u \<in> set (fl_used a)" for u
      using that sub' alloc_wf_disjoint [OF wf] by (auto simp: disjoint_ranges_bytes all_bytes_def)
    show "used_disjoint (fl_used a')"
      unfolding used_disjoint_def
    proof (intro ballI impI)
      fix u v assume uv: "u \<in> set (fl_used a')" "v \<in> set (fl_used a')" "fst u \<noteq> fst v"
      from wf have old: "used_disjoint (fl_used a)" by (simp add: alloc_wf_def)
      from uv us consider "u = (fl_next_id a, block)" "v \<in> set (fl_used a)"
        | "v = (fl_next_id a, block)" "u \<in> set (fl_used a)"
        | "u \<in> set (fl_used a)" "v \<in> set (fl_used a)" by auto
      then show "disjoint_ranges (snd u) (snd v)"
        by cases (use bu old uv(3) in \<open>auto simp: used_disjoint_def\<close>)
    qed
    have "set (map snd (fl_used a')) \<subseteq> insert block (set (map snd (fl_used a)))" using us by auto
    then have "taken_bytes a' \<subseteq> range_bytes block \<union> taken_bytes a"
      unfolding all_bytes_def by blast
    then show "\<forall>r\<in>set (fl_free a'). \<forall>u\<in>set (fl_used a'). disjoint_ranges r (snd u)"
      using fb alloc_wf_disjoint [OF wf] unfolding free_used_disjoint_bytes by blast
    show "fl_next_id a' \<noteq> 0" by (simp only: ids max_1_neq_0 not_False_eq_True)
  qed
qed

subsection \<open>Freeing\<close>

lemma gap_ends_before: "sorted_wrt gap_between rs \<Longrightarrow> sorted_wrt ends_before rs"
  by (erule sorted_wrt_mono_rel [rotated]) (simp add: gap_between_def ends_before_def)

lemma map_of_delete [simp]: "map_of (AList.delete k al) = (map_of al)(k := None)"
  by (rule ext) (simp add: delete_conv')

lemma live_alloc [simp]:
  "map_of (AList.update k v al) = (map_of al)(k \<mapsto> v)"
  by (simp add: update_conv')

lemma free_by_id_None: "live a i = None \<Longrightarrow> free_by_id a i = (a, False)"
  by (simp add: free_by_id_def)

lemma taken_delete:
  assumes wf: "alloc_wf tot a" and i: "live a i = Some r"
  shows "all_bytes (map snd (AList.delete i (fl_used a))) = taken_bytes a - range_bytes r"
proof -
  have d: "distinct (map fst (fl_used a))" and dj: "used_disjoint (fl_used a)"
    using wf by (simp_all add: alloc_wf_def)
  have ir: "(i, r) \<in> set (fl_used a)" by (rule map_of_SomeD [OF i])
  have off: "range_bytes (snd u) \<inter> range_bytes r = {}" if "u \<in> set (fl_used a)" "fst u \<noteq> i" for u
    using dj ir that by (fastforce simp: used_disjoint_def disjoint_ranges_bytes)
  have same: "snd u = r" if "u \<in> set (fl_used a)" "fst u = i" for u
    using d i that by (metis map_of_eq_Some_iff option.inject prod.collapse)
  have "all_bytes (map snd (AList.delete i (fl_used a))) =
      (\<Union>u\<in>{x \<in> set (fl_used a). fst x \<noteq> i}. range_bytes (snd u))"
    by (simp add: all_bytes_def set_delete)
  also have "\<dots> = (\<Union>u\<in>set (fl_used a). range_bytes (snd u)) - range_bytes r"
    using off same by blast
  finally show ?thesis by (simp add: all_bytes_def)
qed

lemma free_by_id_Some:
  assumes wf: "alloc_wf tot a" and i: "live a i = Some r" and f: "free_by_id a i = (a', b)"
  shows "b" and "fl_used a' = AList.delete i (fl_used a)"
    and "free_bytes a' = free_bytes a \<union> range_bytes r"
    and "sorted_wrt gap_between (fl_free a')"
    and "fl_next_id a' = fl_next_id a"
    and "alloc_wf tot a'"
proof -
  let ?a = "a\<lparr>fl_used := AList.delete i (fl_used a)\<rparr>"
  from f i show "b" by (cases r) (simp add: free_by_id_def)
  from f i have a': "a' = insert_and_coalesce (fst r) (snd r) ?a"
    by (cases r) (simp add: free_by_id_def)
  show used: "fl_used a' = AList.delete i (fl_used a)" and nid: "fl_next_id a' = fl_next_id a"
    by (simp_all add: a')
  have free: "\<forall>q\<in>set (fl_free ?a). in_bounds tot q" using wf by (simp add: alloc_wf_def)
  have "in_bounds tot (fst r, snd r)" using alloc_wf_live_bounds [OF wf i] by simp
  note spec = insert_and_coalesce_spec [OF free this, folded a']
  show fb: "free_bytes a' = free_bytes a \<union> range_bytes r" using spec(3) by simp
  show gaps: "sorted_wrt gap_between (fl_free a')" by (rule spec(2))
  have "free_bytes a' \<inter> taken_bytes a' = {}"
    using alloc_wf_disjoint [OF wf] taken_delete [OF wf i] by (auto simp: fb used)
  moreover have "distinct (map fst (fl_used a'))" "used_disjoint (fl_used a')"
    "\<forall>u\<in>set (fl_used a'). in_bounds tot (snd u)"
    using wf by (auto simp: used alloc_wf_def used_disjoint_def set_delete distinct_delete)
  ultimately show "alloc_wf tot a'"
    using spec(1) gap_ends_before [OF gaps] wf
    by (simp add: alloc_wf_def free_used_disjoint_bytes nid)
qed

lemma free_by_id_live:
  "live (fst (free_by_id a i)) = (live a)(i := None)"
  by (cases "live a i") (auto simp: free_by_id_def)

lemma free_by_id_next: "fl_next_id (fst (free_by_id a i)) = fl_next_id a"
  by (auto simp: free_by_id_def split: option.split)

lemma alloc_wf_free: "alloc_wf tot a \<Longrightarrow> alloc_wf tot (fst (free_by_id a i))"
proof (cases "live a i")
  case (Some r)
  assume "alloc_wf tot a"
  from free_by_id_Some(6) [OF this Some surjective_pairing] show ?thesis .
qed (simp add: free_by_id_None)

subsection \<open>Accounting\<close>

lemma card_used:
  assumes "distinct (map fst us)" "used_disjoint us"
  shows "card (all_bytes (map snd us)) = (\<Sum>u\<leftarrow>us. unat (snd (snd u)))"
  using assms
proof (induction us)
  case (Cons u us)
  have "range_bytes (snd u) \<inter> range_bytes (snd v) = {}" if "v \<in> set us" for v
  proof -
    have "fst u \<noteq> fst v" using Cons.prems(1) that by (auto simp: image_iff)
    then show ?thesis using Cons.prems(2) that
      by (auto simp: used_disjoint_def disjoint_ranges_bytes)
  qed
  then have "range_bytes (snd u) \<inter> all_bytes (map snd us) = {}" by (auto simp: all_bytes_def)
  moreover have "used_disjoint us" using Cons.prems(2) by (simp add: used_disjoint_def)
  ultimately show ?case using Cons by (simp add: card_Un_disjoint)
qed simp

lemma card_free:
  assumes "sorted_wrt ends_before rs"
  shows "card (all_bytes rs) = (\<Sum>r\<leftarrow>rs. unat (snd r))"
  using assms
proof (induction rs)
  case (Cons r rs)
  then have "range_bytes r \<inter> range_bytes q = {}" if "q \<in> set rs" for q
    using that by (fastforce simp: range_defs)
  then have "range_bytes r \<inter> all_bytes rs = {}" by (auto simp: all_bytes_def)
  with Cons show ?case by (simp add: card_Un_disjoint)
qed simp

lemma unat_sum_list_bounded:
  fixes c :: "'l::len word" and xs :: "'l word list"
  shows "(\<Sum>x\<leftarrow>xs. unat x) \<le> unat c \<Longrightarrow> unat (sum_list xs) = (\<Sum>x\<leftarrow>xs. unat x)"
proof (induction xs)
  case (Cons x xs)
  then have IH: "unat (sum_list xs) = (\<Sum>x\<leftarrow>xs. unat x)" by simp
  with Cons.prems have "unat x + unat (sum_list xs) \<le> unat c" by (simp only: sum_list.Cons list.map)
  then have "unat (x + sum_list xs) = unat x + unat (sum_list xs)" by (rule unat_add_bounded)
  with IH show ?case by (simp only: sum_list.Cons list.map)
qed simp

lemma all_bytes_subset: "\<forall>r\<in>set rs. in_bounds tot r \<Longrightarrow> all_bytes rs \<subseteq> {..<unat tot}"
  by (force simp: all_bytes_def range_bytes_def in_bounds_def)

lemma unat_used_bytes:
  assumes "alloc_wf tot a"
  shows "unat (used_bytes a) = card (taken_bytes a)"
proof -
  have "taken_bytes a \<subseteq> {..<unat tot}"
    using assms by (intro all_bytes_subset) (auto simp: alloc_wf_def)
  then have "card (taken_bytes a) \<le> unat tot" using card_mono [of "{..<unat tot}"] by simp
  moreover have c: "card (taken_bytes a) = (\<Sum>l\<leftarrow>map (\<lambda>u. snd (snd u)) (fl_used a). unat l)"
    using assms by (simp add: card_used alloc_wf_def comp_def)
  ultimately have "unat (sum_list (map (\<lambda>u. snd (snd u)) (fl_used a))) = card (taken_bytes a)"
    by (metis unat_sum_list_bounded)
  moreover have "(\<lambda>(_, (_, len)). len) = (\<lambda>u :: u32 \<times> range. snd (snd u))" by auto
  ultimately show ?thesis by (simp only: used_bytes_def)
qed

definition alloc_complete :: "u64 \<Rightarrow> free_list_allocator \<Rightarrow> bool" where
  "alloc_complete tot a \<longleftrightarrow> free_bytes a \<union> taken_bytes a = {..<unat tot}"

lemma alloc_complete_new: "alloc_complete tot (new_allocator tot)"
  by (auto simp: alloc_complete_def new_allocator_def range_bytes_def)

lemma alloc_complete_free:
  assumes "alloc_wf tot a" "alloc_complete tot a"
  shows "alloc_complete tot (fst (free_by_id a i))"
proof (cases "live a i")
  case (Some r)
  obtain a' b where f: "free_by_id a i = (a', b)" by force
  have "range_bytes r \<subseteq> taken_bytes a" by (rule live_subset_taken [OF Some])
  then show ?thesis
    using assms(2) free_by_id_Some(2,3) [OF assms(1) Some f] taken_delete [OF assms(1) Some]
    by (auto simp: alloc_complete_def f)
qed (use assms in \<open>simp add: free_by_id_None\<close>)

lemma taken_update_fresh:
  "k \<notin> fst ` set us \<Longrightarrow> all_bytes (map snd (AList.update k r us)) = all_bytes (map snd us) \<union> range_bytes r"
  by (induction us) auto

lemma alloc_complete_alloc:
  assumes "alloc_wf tot a" "roomy tot (max align 1)" "alloc a sz align = Some (a', x)"
    "alloc_complete tot a" "live a (fl_next_id a) = None"
  shows "alloc_complete tot a'"
proof -
  note s = alloc_Some [OF assms(1-3)]
  have "fl_next_id a \<notin> fst ` set (fl_used a)" using assms(5) by (simp add: map_of_eq_None_iff)
  then have "taken_bytes a' = taken_bytes a \<union> range_bytes (al_offset x, ucast sz)"
    using s(7) by (metis taken_update_fresh)
  with s(5,6) assms(4) show ?thesis by (auto simp: alloc_complete_def)
qed

lemma complete_accounting:
  assumes "alloc_wf tot a" "alloc_complete tot a"
  shows "unat (used_bytes a) + (\<Sum>r\<leftarrow>fl_free a. unat (snd r)) = unat tot"
proof -
  have "card (free_bytes a \<union> taken_bytes a) = card (free_bytes a) + card (taken_bytes a)"
    using alloc_wf_disjoint [OF assms(1)] by (simp add: card_Un_disjoint)
  moreover have "sorted_wrt ends_before (fl_free a)" using assms(1) by (simp add: alloc_wf_def)
  ultimately show ?thesis using assms
    by (simp add: alloc_complete_def unat_used_bytes card_free)
qed

section \<open>The interface to the transport\<close>

text \<open>
  What the writer relies on: each operation keeps the provider's own invariant, an acquired
  block is in bounds and disjoint from every lease that is live, and the map of leases changes
  at the acquired or released id only.
\<close>

definition sound_leases :: "u64 \<Rightarrow> (u32 \<Rightarrow> range option) \<Rightarrow> bool" where
  "sound_leases tot m \<longleftrightarrow>
     (\<forall>i r. m i = Some r \<longrightarrow> in_bounds tot r) \<and>
     (\<forall>i j r r'. m i = Some r \<longrightarrow> m j = Some r' \<longrightarrow> i \<noteq> j \<longrightarrow> disjoint_ranges r r')"

datatype lease_op = Acquire u32 u64 | Release u32

primrec op_roomy :: "u64 \<Rightarrow> lease_op \<Rightarrow> bool" where
  "op_roomy tot (Acquire sz align) = roomy tot (max align 1)"
| "op_roomy tot (Release i) = True"

fun lease_step ::
    "('s \<Rightarrow> u32 \<Rightarrow> u64 \<Rightarrow> ('s \<times> allocation) option) \<Rightarrow> ('s \<Rightarrow> u32 \<Rightarrow> 's \<times> bool) \<Rightarrow>
     's \<Rightarrow> lease_op \<Rightarrow> 's" where
  "lease_step acq rel s (Acquire sz align) = (case acq s sz align of None \<Rightarrow> s | Some (s', x) \<Rightarrow> s')"
| "lease_step acq rel s (Release i) = fst (rel s i)"

primrec lease_run ::
    "('s \<Rightarrow> u32 \<Rightarrow> u64 \<Rightarrow> ('s \<times> allocation) option) \<Rightarrow> ('s \<Rightarrow> u32 \<Rightarrow> 's \<times> bool) \<Rightarrow>
     's \<Rightarrow> lease_op list \<Rightarrow> 's" where
  "lease_run acq rel s [] = s"
| "lease_run acq rel s (x # xs) = lease_run acq rel (lease_step acq rel s x) xs"

locale lease_provider =
  fixes acquire :: "'s \<Rightarrow> u32 \<Rightarrow> u64 \<Rightarrow> ('s \<times> allocation) option"
    and release :: "'s \<Rightarrow> u32 \<Rightarrow> 's \<times> bool"
    and leases :: "'s \<Rightarrow> u32 \<Rightarrow> range option"
    and inv :: "u64 \<Rightarrow> 's \<Rightarrow> bool"
  assumes acquire_inv:
      "\<lbrakk>inv tot s; roomy tot (max align 1); acquire s sz align = Some (s', x)\<rbrakk> \<Longrightarrow> inv tot s'"
    and acquire_leases:
      "\<lbrakk>inv tot s; roomy tot (max align 1); acquire s sz align = Some (s', x)\<rbrakk> \<Longrightarrow>
       leases s' = (leases s)(al_buffer_id x \<mapsto> (al_offset x, ucast sz))"
    and acquire_bounds:
      "\<lbrakk>inv tot s; roomy tot (max align 1); acquire s sz align = Some (s', x)\<rbrakk> \<Longrightarrow>
       in_bounds tot (al_offset x, ucast sz)"
    and acquire_disjoint:
      "\<lbrakk>inv tot s; roomy tot (max align 1); acquire s sz align = Some (s', x); leases s j = Some r\<rbrakk> \<Longrightarrow>
       disjoint_ranges (al_offset x, ucast sz) r"
    and release_inv: "inv tot s \<Longrightarrow> inv tot (fst (release s i))"
    and release_leases: "leases (fst (release s i)) = (leases s)(i := None)"
begin

lemma acquire_sound:
  assumes "inv tot s" "roomy tot (max align 1)" "acquire s sz align = Some (s', x)"
    "sound_leases tot (leases s)"
  shows "sound_leases tot (leases s')"
proof -
  have sym: "disjoint_ranges r r' \<Longrightarrow> disjoint_ranges r' r" for r r'
    by (auto simp: disjoint_ranges_def)
  show ?thesis
    using assms(4) acquire_bounds [OF assms(1-3)] acquire_disjoint [OF assms(1-3)]
    by (auto simp: acquire_leases [OF assms(1-3)] sound_leases_def intro: sym)
qed

lemma release_sound:
  "sound_leases tot (leases s) \<Longrightarrow> sound_leases tot (leases (fst (release s i)))"
  by (auto simp: release_leases sound_leases_def)

lemma step_sound:
  assumes "inv tot s" "sound_leases tot (leases s)" "op_roomy tot x"
  shows "inv tot (lease_step acquire release s x) \<and>
    sound_leases tot (leases (lease_step acquire release s x))"
  using assms
  by (cases x)
    (auto split: option.split intro: acquire_inv acquire_sound release_inv release_sound)

lemma run_sound:
  assumes "inv tot s" "sound_leases tot (leases s)" "\<forall>x\<in>set xs. op_roomy tot x"
  shows "inv tot (lease_run acquire release s xs) \<and>
    sound_leases tot (leases (lease_run acquire release s xs))"
  using assms
proof (induction xs arbitrary: s)
  case (Cons x xs)
  then show ?case using step_sound [of tot s x] by simp
qed simp

end

text \<open>
  A provider that numbers its leases and keeps account of the whole arena, as long as the
  next number is not that of a live lease.
\<close>

locale counting_provider = lease_provider acquire release leases inv
  for acquire :: "'s \<Rightarrow> u32 \<Rightarrow> u64 \<Rightarrow> ('s \<times> allocation) option"
    and release :: "'s \<Rightarrow> u32 \<Rightarrow> 's \<times> bool"
    and leases :: "'s \<Rightarrow> u32 \<Rightarrow> range option"
    and inv :: "u64 \<Rightarrow> 's \<Rightarrow> bool" +
  fixes next_id :: "'s \<Rightarrow> u32"
    and complete :: "u64 \<Rightarrow> 's \<Rightarrow> bool"
  assumes acquire_id:
      "\<lbrakk>inv tot s; roomy tot (max align 1); acquire s sz align = Some (s', x)\<rbrakk> \<Longrightarrow>
       al_buffer_id x = next_id s \<and> next_id s' = max (next_id s + 1) 1"
    and release_id: "next_id (fst (release s i)) = next_id s"
    and acquire_complete:
      "\<lbrakk>inv tot s; roomy tot (max align 1); acquire s sz align = Some (s', x); complete tot s;
        leases s (next_id s) = None\<rbrakk> \<Longrightarrow> complete tot s'"
    and release_complete: "inv tot s \<Longrightarrow> complete tot s \<Longrightarrow> complete tot (fst (release s i))"
begin

lemma run_complete:
  assumes "inv tot s" "complete tot s" "\<forall>x\<in>set xs. op_roomy tot x"
    "\<forall>i r. leases s i = Some r \<longrightarrow> unat i < unat (next_id s)"
    "unat (next_id s) + length xs < 2 ^ 32"
  shows "inv tot (lease_run acquire release s xs) \<and> complete tot (lease_run acquire release s xs)"
  using assms
proof (induction xs arbitrary: s)
  case (Cons x xs)
  let ?t = "lease_step acquire release s x"
  have "inv tot ?t \<and> complete tot ?t \<and> (\<forall>i r. leases ?t i = Some r \<longrightarrow> unat i < unat (next_id ?t)) \<and>
    unat (next_id ?t) \<le> unat (next_id s) + 1"
  proof (cases x)
    case (Release i)
    then show ?thesis using Cons.prems
      by (auto simp: release_leases release_id release_inv release_complete)
  next
    case (Acquire sz align)
    show ?thesis
    proof (cases "acquire s sz align")
      case None
      then show ?thesis using Cons.prems Acquire by simp
    next
      case (Some y)
      obtain s' z where y: "acquire s sz align = Some (s', z)" using Some by (cases y) auto
      have room: "roomy tot (max align 1)" using Cons.prems(3) Acquire by simp
      note y = Cons.prems(1) room y
      have fresh: "leases s (next_id s) = None" using Cons.prems(4) by (cases "leases s (next_id s)") auto
      have "unat (next_id s + 1) = unat (next_id s) + 1"
        using Cons.prems(5) by (simp add: unat_add_no_overflow)
      then have n: "unat (next_id s') = unat (next_id s) + 1"
        using acquire_id [OF y] by (simp add: unat_max)
      show ?thesis
        using Cons.prems(4) acquire_inv [OF y] acquire_complete [OF y Cons.prems(2) fresh] n
          acquire_id [OF y] y(3) Acquire
        by (force simp: acquire_leases [OF y])
    qed
  qed
  then show ?case using Cons.prems Cons.IH [of ?t] by simp
qed simp

end

interpretation fl: counting_provider alloc free_by_id live alloc_wf fl_next_id alloc_complete
proof unfold_locales
  fix tot s sz align s' x j r
  assume a: "alloc_wf tot s" "roomy tot (max align 1)" "alloc s sz align = Some (s', x)"
  show "alloc_wf tot s'" "in_bounds tot (al_offset x, ucast sz)"
    by (rule alloc_Some(9) [OF a], rule alloc_Some(4) [OF a])
  show "live s' = (live s)(al_buffer_id x \<mapsto> (al_offset x, ucast sz))"
    "al_buffer_id x = fl_next_id s \<and> fl_next_id s' = max (fl_next_id s + 1) 1"
    by (simp_all add: alloc_Some [OF a])
  show "alloc_complete tot s'" if "alloc_complete tot s" "live s (fl_next_id s) = None"
    by (rule alloc_complete_alloc [OF a that])
  show "disjoint_ranges (al_offset x, ucast sz) r" if "live s j = Some r"
    using alloc_Some(5) [OF a] live_subset_taken [OF that] alloc_wf_disjoint [OF a(1)]
    by (auto simp: disjoint_ranges_bytes)
qed (simp_all add: alloc_wf_free free_by_id_live alloc_complete_free free_by_id_next)

section \<open>Properties\<close>

lemma sound_new: "sound_leases tot (live (new_allocator tot))"
  by (simp add: sound_leases_def new_allocator_def)

text \<open>
  C20: whatever sequence of allocations and frees the producer makes from a new allocator, every
  live block lies inside the arena and no two live blocks share a byte.
\<close>

theorem alloc_runs_sound:
  assumes "\<forall>x\<in>set ops. op_roomy tot x"
  shows "sound_leases tot (live (lease_run alloc free_by_id (new_allocator tot) ops))"
  using fl.run_sound [OF alloc_wf_new sound_new assms] by simp

theorem alloc_runs_sound_witness:
  "sound_leases 1024 (live (lease_run alloc free_by_id (new_allocator 1024)
     [Acquire 100 64, Acquire 200 64, Release 1, Acquire 64 1, Release 7]))"
  by (rule alloc_runs_sound) (simp add: roomy_def unat_max)

text \<open>
  In any run of fewer than \<open>2 ^ 32 - 1\<close> operations no byte of the arena is lost: what
  \<open>used_bytes\<close> reports (the value stored in \<open>arena_used_bytes\<close>) and the lengths of the free
  ranges add up to the arena.
\<close>

lemma alloc_runs_accounting:
  assumes "\<forall>x\<in>set ops. op_roomy tot x" and "length ops < 2 ^ 32 - 1"
  shows "unat (used_bytes (lease_run alloc free_by_id (new_allocator tot) ops)) +
    (\<Sum>r\<leftarrow>fl_free (lease_run alloc free_by_id (new_allocator tot) ops). unat (snd r)) = unat tot"
proof -
  have "fl_next_id (new_allocator tot) = 1" "\<forall>i r. live (new_allocator tot) i = Some r \<longrightarrow> unat i < 1"
    by (simp_all add: new_allocator_def)
  then show ?thesis
    using fl.run_complete [OF alloc_wf_new alloc_complete_new assms(1)] assms(2)
    by (simp add: complete_accounting)
qed

text \<open>The places where a block may go: aligned, inside one free range.\<close>

definition candidate :: "free_list_allocator \<Rightarrow> u32 \<Rightarrow> u64 \<Rightarrow> nat \<Rightarrow> bool" where
  "candidate a sz align p \<longleftrightarrow> max (unat align) 1 dvd p \<and>
     (\<exists>r\<in>set (fl_free a). unat (fst r) \<le> p \<and> p + unat sz \<le> unat (fst r) + unat (snd r))"

lemma fits_candidate:
  fixes sz :: u32
  assumes "cuttable tot (max align 1) (ucast sz) r"
  shows "fits (ucast sz) (max align 1) r \<longleftrightarrow>
    (\<exists>p. max (unat align) 1 dvd p \<and> unat (fst r) \<le> p \<and> p + unat sz \<le> unat (fst r) + unat (snd r))"
    (is "?L \<longleftrightarrow> (\<exists>p. ?P p)")
proof
  let ?p = "align_up_nat (unat (fst r)) (max (unat align) 1)"
  assume ?L
  then have "?P ?p" using fits_iff [OF assms] by (simp add: align_up_nat_ge align_up_nat_dvd)
  then show "\<exists>p. ?P p" by blast
next
  assume "\<exists>p. ?P p"
  then obtain p where "?P p" by blast
  then have "align_up_nat (unat (fst r)) (max (unat align) 1) \<le> p"
    by (intro align_up_nat_least) auto
  with \<open>?P p\<close> show ?L using fits_iff [OF assms] by simp
qed

lemma alloc_search:
  assumes wf: "alloc_wf tot a" and room: "roomy tot (max align 1)"
  shows "case alloc a sz align of
      None \<Rightarrow> \<forall>p. \<not> candidate a sz align p
    | Some (a', x) \<Rightarrow> candidate a sz align (unat (al_offset x)) \<and>
        (\<forall>p. candidate a sz align p \<longrightarrow> unat (al_offset x) \<le> p)"
proof -
  have k: "cuttable tot (max align 1) (ucast sz) r" if "r \<in> set (fl_free a)" for r
    using that wf room unat_u32_less [of sz] by (simp add: cuttable_def alloc_wf_def)
  show ?thesis
  proof (cases "carve (ucast sz) (max align 1) (fl_free a)")
    case None
    then have "\<forall>r\<in>set (fl_free a). \<not> fits (ucast sz) (max align 1) r" by (simp add: carve_None)
    then have "\<not> candidate a sz align p" for p
      using fits_candidate [OF k] unfolding candidate_def by blast
    with None show ?thesis by (simp add: alloc_carve)
  next
    case (Some y)
    obtain off f where "y = (off, f)" by force
    with Some have c: "carve (ucast sz) (max align 1) (fl_free a) = Some (off, f)" by simp
    from c obtain pre r post where cut: "fl_free a = pre @ r # post"
      "\<forall>q\<in>set pre. \<not> fits (ucast sz) (max align 1) q" "fits (ucast sz) (max align 1) r"
      "off = align_up (fst r) (max align 1)"
      by (elim carve_SomeE) blast
    have r: "r \<in> set (fl_free a)" by (simp add: cut(1))
    have off: "unat off = align_up_nat (unat (fst r)) (max (unat align) 1)"
      using cuttable_unat(1) [OF k [OF r]] by (simp add: cut(4))
    have "candidate a sz align (unat off)"
      using fits_iff [OF k [OF r]] cut(3) r
      by (auto simp: candidate_def off align_up_nat_dvd intro!: bexI [of _ r] align_up_nat_ge)
    moreover have "unat off \<le> p" if p: "candidate a sz align p" for p
    proof -
      from p obtain q where q: "q \<in> set (fl_free a)" "max (unat align) 1 dvd p" "unat (fst q) \<le> p"
        "p + unat sz \<le> unat (fst q) + unat (snd q)" by (auto simp: candidate_def)
      then have "fits (ucast sz) (max align 1) q" using fits_candidate [OF k [OF q(1)]] by blast
      with q(1) cut(1,2) have "q = r \<or> q \<in> set post" by auto
      then have "unat (fst r) \<le> unat (fst q)"
        using wf by (auto simp: alloc_wf_def cut(1) sorted_wrt_append ends_before_def)
      with q(3) show ?thesis unfolding off by (intro align_up_nat_least) (use q(2) in auto)
    qed
    ultimately show ?thesis using c by (simp add: alloc_carve take_block_def)
  qed
qed

lemma alloc_None_candidate:
  "\<lbrakk>alloc_wf tot a; roomy tot (max align 1); alloc a sz align = None\<rbrakk> \<Longrightarrow> \<not> candidate a sz align p"
  using alloc_search [of tot a align sz] by simp

lemma alloc_lowest:
  "\<lbrakk>alloc_wf tot a; roomy tot (max align 1); alloc a sz align = Some (a', x); candidate a sz align p\<rbrakk> \<Longrightarrow>
   unat (al_offset x) \<le> p"
  using alloc_search [of tot a align sz] by simp

text \<open>
  C21: \<open>alloc\<close> is first fit. It fails exactly when no free range holds an aligned block of the
  size, and otherwise the block is the lowest such place.
\<close>

theorem alloc_first_fit:
  assumes wf: "alloc_wf tot a" and room: "roomy tot (max align 1)"
  shows "case alloc a sz align of
      None \<Rightarrow> \<forall>p. \<not> candidate a sz align p
    | Some (a', x) \<Rightarrow> candidate a sz align (unat (al_offset x)) \<and>
        (\<forall>p. candidate a sz align p \<longrightarrow> unat (al_offset x) \<le> p)"
  by (rule alloc_search [OF assms])

theorem alloc_first_fit_witness:
  "case alloc (new_allocator 256) 100 64 of
      None \<Rightarrow> \<forall>p. \<not> candidate (new_allocator 256) 100 64 p
    | Some (a', x) \<Rightarrow> candidate (new_allocator 256) 100 64 (unat (al_offset x)) \<and>
        (\<forall>p. candidate (new_allocator 256) 100 64 p \<longrightarrow> unat (al_offset x) \<le> p)"
  by (rule alloc_first_fit [OF alloc_wf_new]) (simp add: roomy_def unat_max)

text \<open>
  C22: \<open>free_by_id\<close> gives the block of a live id back exactly once: its bytes become free and no
  others do, the other leases are untouched, the free list is left sorted with a gap between
  neighbours (fully coalesced), and a second free of the id changes nothing.
\<close>

theorem free_by_id_coalesces:
  assumes "alloc_wf tot a" and "live a i = Some r"
  defines "a' \<equiv> fst (free_by_id a i)"
  shows "snd (free_by_id a i) \<and> live a' = (live a)(i := None) \<and>
    free_bytes a' = free_bytes a \<union> range_bytes r \<and> sorted_wrt gap_between (fl_free a') \<and>
    free_by_id a' i = (a', False)"
proof -
  note s = free_by_id_Some [OF assms(1,2) surjective_pairing, folded a'_def]
  have "live a' = (live a)(i := None)" by (simp add: a'_def free_by_id_live)
  with s(1,3,4) show ?thesis by (simp add: free_by_id_None)
qed

theorem free_by_id_coalesces_witness:
  defines "a \<equiv> \<lparr>fl_free = [(100, 28)], fl_used = [(1, (0, 64)), (2, (64, 36))], fl_next_id = 3\<rparr>"
  shows "snd (free_by_id a 2) \<and> live (fst (free_by_id a 2)) = (live a)(2 := None) \<and>
    free_bytes (fst (free_by_id a 2)) = free_bytes a \<union> range_bytes (64, 36) \<and>
    sorted_wrt gap_between (fl_free (fst (free_by_id a 2))) \<and>
    free_by_id (fst (free_by_id a 2)) 2 = (fst (free_by_id a 2), False)"
proof -
  have "alloc_wf 128 a" "live a 2 = Some (64, 36)"
    by (simp_all add: a_def alloc_wf_def in_bounds_def used_disjoint_def disjoint_ranges_def)
  then show ?thesis by (rule free_by_id_coalesces)
qed

lemma gaps_cover_single:
  assumes "sorted_wrt gap_between rs" "all_bytes rs = {..<n}" "0 < n" "\<forall>r\<in>set rs. unat (fst r) + unat (snd r) \<le> n"
  shows "\<exists>l. rs = [(0, l)] \<and> unat l = n"
proof -
  from assms(2,3) have "0 \<in> all_bytes rs" by blast
  then obtain q where q: "q \<in> set rs" "0 \<in> range_bytes q" by (auto simp: all_bytes_def)
  then obtain r rest where rs: "rs = r # rest" by (cases rs) auto
  have "q = r" using q assms(1) by (auto simp: rs range_defs)
  with q(2) have r0: "unat (fst r) = 0" and rl: "0 < unat (snd r)" by (auto simp: range_bytes_def)
  have "rest = []"
  proof (rule ccontr)
    assume "rest \<noteq> []"
    then obtain p where p: "p \<in> set rest" by (cases rest) auto
    let ?e = "unat (snd r)"
    have gap: "?e < unat (fst s)" if "s \<in> set rest" for s
      using assms(1) that r0 by (simp add: rs gap_between_def)
    from gap [OF p] p assms(4) have "?e < n" by (fastforce simp: rs)
    then have "?e \<in> all_bytes rs" using assms(2) by simp
    then obtain s where "s \<in> set rs" "?e \<in> range_bytes s" by (auto simp: all_bytes_def)
    with gap show False by (auto simp: rs range_bytes_def r0 dest: gap)
  qed
  then have rs1: "rs = [r]" by (simp add: rs)
  have "{..<unat (snd r)} = {..<n}"
    using assms(2) r0 by (simp add: rs1 range_bytes_def atLeast0LessThan)
  moreover have "fst r = 0" using r0 by (simp add: unat_eq_0)
  ultimately show ?thesis using rs1 by (cases r) auto
qed

lemma restores_arena:
  assumes "alloc_wf tot a" "alloc_complete tot a" "fl_used a = [(i, r)]" "0 < tot" "unat sz \<le> unat tot"
    "roomy tot (max align 1)"
  defines "a' \<equiv> fst (free_by_id a i)"
  shows "fl_free a' = [(0, tot)]" and "fl_used a' = []"
    and "\<exists>a'' x. alloc a' sz align = Some (a'', x) \<and> al_offset x = 0 \<and> al_len x = sz"
proof -
  have i: "live a i = Some r" by (simp add: assms(3))
  note s = free_by_id_Some [OF assms(1) i surjective_pairing, folded a'_def]
  show "fl_used a' = []" using s(2) by (simp add: assms(3))
  have "free_bytes a' = {..<unat tot}"
    using s(3) assms(2) by (simp add: alloc_complete_def assms(3))
  moreover have "\<forall>q\<in>set (fl_free a'). unat (fst q) + unat (snd q) \<le> unat tot"
    using s(6) by (simp add: alloc_wf_def in_bounds_def)
  moreover have "0 < unat tot" using assms(4) by (simp add: word_less_nat_alt)
  ultimately obtain l where l: "fl_free a' = [(0, l)]" "unat l = unat tot"
    using gaps_cover_single [OF s(4)] by blast
  then show free: "fl_free a' = [(0, tot)]" by (simp add: word_unat_eq_iff)
  have c: "candidate a' sz align 0" using assms(5) by (simp add: candidate_def free)
  show "\<exists>a'' x. alloc a' sz align = Some (a'', x) \<and> al_offset x = 0 \<and> al_len x = sz"
  proof (cases "alloc a' sz align")
    case None
    then show ?thesis using alloc_None_candidate [OF s(6) assms(6) None] c by blast
  next
    case (Some y)
    obtain a'' x where y: "alloc a' sz align = Some (a'', x)" using Some by (cases y) auto
    have "unat (al_offset x) \<le> 0" using alloc_lowest [OF s(6) assms(6) y c] .
    then show ?thesis using y alloc_Some(2) [OF s(6) assms(6) y] by (auto simp: unat_eq_0)
  qed
qed

text \<open>
  When the last live block is freed the allocator is back to one free range over the whole
  arena, so any block up to the arena's size can be allocated at offset 0 again.
\<close>

lemma free_last_restores_arena:
  assumes "alloc_wf tot a" "alloc_complete tot a" "fl_used a = [(i, r)]" "0 < tot" "unat sz \<le> unat tot"
    "roomy tot (max align 1)"
  shows "fl_free (fst (free_by_id a i)) = [(0, tot)] \<and> fl_used (fst (free_by_id a i)) = [] \<and>
    (\<exists>a'' x. alloc (fst (free_by_id a i)) sz align = Some (a'', x) \<and> al_offset x = 0 \<and> al_len x = sz)"
  using restores_arena [OF assms] by blast

text \<open>
  The 32-bit id counter wraps without looking at the live ids. An allocation that is handed
  the id of a block still in use overwrites that block's entry: its bytes are then neither free
  nor accounted for, and no \<open>free_by_id\<close> can ever return them.
\<close>

lemma alloc_id_reuse_loses_block:
  assumes "alloc_wf tot a" "roomy tot (max align 1)" "alloc a sz align = Some (a', x)"
    and "live a (fl_next_id a) = Some r"
  shows "range_bytes r \<inter> (free_bytes a' \<union> taken_bytes a') = {} \<and>
    (\<forall>i. range_bytes r \<inter> free_bytes (fst (free_by_id a' i)) = {})"
proof -
  note s = alloc_Some [OF assms(1-3)]
  let ?b = "(al_offset x, ucast sz :: u64)"
  have d: "distinct (map fst (fl_used a))" and dj: "used_disjoint (fl_used a)"
    using assms(1) by (simp_all add: alloc_wf_def)
  have r: "(fl_next_id a, r) \<in> set (fl_used a)" by (rule map_of_SomeD [OF assms(4)])
  have r_taken: "range_bytes r \<subseteq> taken_bytes a" by (rule live_subset_taken [OF assms(4)])
  have free: "range_bytes r \<inter> free_bytes a = {}" using r_taken alloc_wf_disjoint [OF assms(1)] by blast
  have others: "range_bytes (snd u) \<inter> range_bytes r = {}" if "u \<in> set (fl_used a)" "fst u \<noteq> fl_next_id a" for u
    using dj r that by (fastforce simp: used_disjoint_def disjoint_ranges_bytes)
  have "range_bytes (snd u) \<inter> range_bytes r = {}" if u: "u \<in> set (fl_used a')" for u
  proof -
    have "u = (fl_next_id a, ?b) \<or> u \<in> set (fl_used a) \<and> fst u \<noteq> fl_next_id a"
      using set_update_subset [OF d, of "fl_next_id a" ?b] u by (auto simp: s(7))
    then show ?thesis
    proof
      assume "u = (fl_next_id a, ?b)"
      then show ?thesis using s(5) free by auto
    qed (use others in blast)
  qed
  then have taken: "range_bytes r \<inter> taken_bytes a' = {}" by (auto simp: all_bytes_def)
  have "range_bytes r \<inter> free_bytes (fst (free_by_id a' i)) = {}" for i
  proof (cases "live a' i")
    case None
    then show ?thesis using free s(6) by (auto simp: free_by_id_None)
  next
    case (Some q)
    show ?thesis
      using free_by_id_Some(3) [OF s(9) Some surjective_pairing] live_subset_taken [OF Some] taken free s(6)
      by auto
  qed
  with taken free s(6) show ?thesis by auto
qed

text \<open>
  \<open>align_up\<close> returns the least multiple of the alignment that is not below its argument,
  for every alignment and not just powers of two, as long as the sum fits into 64 bits.
\<close>

lemma align_up_least_multiple:
  assumes "0 < align" "unat v + unat align \<le> 2 ^ 64"
  shows "unat align dvd unat (align_up v align) \<and> v \<le> align_up v align \<and>
    (\<forall>w. unat align dvd w \<and> unat v \<le> w \<longrightarrow> unat (align_up v align) \<le> w)"
proof -
  have "0 < unat align" using assms(1) by (simp add: word_less_nat_alt)
  then show ?thesis using unat_align_up [OF assms(2)]
    by (simp add: align_up_nat_dvd word_le_nat_alt align_up_nat_ge align_up_nat_least)
qed

end
