(* ===== verification/Layout.thy ===== *)
theory Layout
  imports Allocator
begin

text \<open>
  The shared region of \<open>src/src/transport.rs\<close>: the descriptors and the header as records in the
  source's field order, the C layout of these structs, the division of the region into header,
  ready ring, recycle ring and arena (\<open>map_layout\<close>), the header's initialisation and its
  validation by a reader.  The lemmas show that the parts of a region do not overlap, that every
  field of the header is naturally aligned inside the header page, and when a layout exists.
\<close>

section \<open>Constants\<close>

definition MAGIC :: "u8 list" where
  "MAGIC = [71, 83, 84, 83, 72, 77, 50, 0]"

definition VERSION_MAJOR :: u16 where "VERSION_MAJOR = 1"

definition VERSION_MINOR :: u16 where "VERSION_MINOR = 3"

definition STATE_INIT :: u32 where "STATE_INIT = 0"

definition STATE_RUNNING :: u32 where "STATE_RUNNING = 1"

definition STATE_STOPPING :: u32 where "STATE_STOPPING = 2"

definition STATE_STOPPED :: u32 where "STATE_STOPPED = 3"

definition STARTUP_IDLE :: u32 where "STARTUP_IDLE = 0"

definition STARTUP_SINK_READY :: u32 where "STARTUP_SINK_READY = 1"

definition STARTUP_SRC_READY :: u32 where "STARTUP_SRC_READY = 2"

definition STARTUP_RUNNING :: u32 where "STARTUP_RUNNING = 3"

definition HEADER_PAD :: usize where "HEADER_PAD = 4096"

definition DESC_ALIGN :: usize where "DESC_ALIGN = 64"

lemmas state_defs = STATE_INIT_def STATE_RUNNING_def STATE_STOPPING_def STATE_STOPPED_def

lemmas startup_defs =
  STARTUP_IDLE_def STARTUP_SINK_READY_def STARTUP_SRC_READY_def STARTUP_RUNNING_def

section \<open>Descriptors and header\<close>

record ready_desc =
  rd_seq :: u64
  rd_offset :: u64
  rd_length :: u32
  rd_buffer_id :: u32
  rd_pts_ns :: i64
  rd_dts_ns :: i64
  rd_duration_ns :: i64
  rd_flags :: u32
  rd_checksum :: u32
  rd_reserved :: "u8 list"

record recycle_desc =
  rc_seq :: u64
  rc_buffer_id :: u32
  rc_status :: u32
  rc_offset :: u64
  rc_length :: u32
  rc_reserved :: "u8 list"

definition default_ready_desc :: ready_desc where
  "default_ready_desc =
     \<lparr>rd_seq = 0, rd_offset = 0, rd_length = 0, rd_buffer_id = 0, rd_pts_ns = 0, rd_dts_ns = 0,
      rd_duration_ns = 0, rd_flags = 0, rd_checksum = 0, rd_reserved = replicate 8 0\<rparr>"

definition default_recycle_desc :: recycle_desc where
  "default_recycle_desc =
     \<lparr>rc_seq = 0, rc_buffer_id = 0, rc_status = 0, rc_offset = 0, rc_length = 0,
      rc_reserved = replicate 36 0\<rparr>"

record shared_header =
  h_magic :: "u8 list"
  h_version_major :: u16
  h_version_minor :: u16
  h_header_size :: u32
  h_total_size :: u64
  h_features :: u64
  h_state :: u32
  h_owner_pid :: u32
  h_epoch :: u64
  h_ready_capacity :: u32
  h_ready_entry_size :: u32
  h_ready_head :: u64
  h_ready_tail :: u64
  h_rec_capacity :: u32
  h_rec_entry_size :: u32
  h_rec_head :: u64
  h_rec_tail :: u64
  h_ready_offset :: u64
  h_recycle_offset :: u64
  h_arena_offset :: u64
  h_arena_size :: u64
  h_arena_used_bytes :: u64
  h_arena_high_watermark :: u64
  h_alloc_failures :: u64
  h_drop_when_no_consumer :: u32
  h_notify_mode :: u32
  h_timeline_gen :: u64
  h_timeline_snapshot_gen :: u64
  h_timeline_valid :: u32
  h_timeline_seq :: u64
  h_timeline_sink_mono_ns :: u64
  h_timeline_producer_pts_ns :: u64
  h_timeline_ready_head :: u64
  h_startup_gen :: u64
  h_startup_state :: u32
  h_startup_seq :: u64

text \<open>
  A mapped region: the header, the two rings and the bytes of the arena, by offset from its
  start.  Producer and consumer map the same region, so both act on one value of this type.
\<close>

record shm = shared_header +
  ready :: "ready_desc list"
  recycle :: "recycle_desc list"
  arena :: "nat \<Rightarrow> u8"

section \<open>The C layout of the structs\<close>

text \<open>Size and alignment of each field, in declaration order (\<open>#[repr(C)]\<close>).\<close>

type_synonym field = "nat \<times> nat"

abbreviation f_u16 :: field where "f_u16 \<equiv> (2, 2)"
abbreviation f_u32 :: field where "f_u32 \<equiv> (4, 4)"
abbreviation f_u64 :: field where "f_u64 \<equiv> (8, 8)"
abbreviation f_bytes :: "nat \<Rightarrow> field" where "f_bytes n \<equiv> (n, 1)"

definition ready_desc_fields :: "field list" where
  "ready_desc_fields =
     [f_u64, f_u64, f_u32, f_u32, f_u64, f_u64, f_u64, f_u32, f_u32, f_bytes 8]"

definition recycle_desc_fields :: "field list" where
  "recycle_desc_fields = [f_u64, f_u32, f_u32, f_u64, f_u32, f_bytes 36]"

definition shared_header_fields :: "field list" where
  "shared_header_fields =
     [f_bytes 8, f_u16, f_u16, f_u32, f_u64, f_u64, f_u32, f_u32, f_u64,
      f_u32, f_u32, f_u64, f_u64,
      f_u32, f_u32, f_u64, f_u64,
      f_u64, f_u64, f_u64, f_u64,
      f_u64, f_u64, f_u64,
      f_u32, f_u32,
      f_u64, f_u64, f_u32, f_u64, f_u64, f_u64, f_u64,
      f_u64, f_u32, f_u64]"

fun repr_c_offsets :: "nat \<Rightarrow> field list \<Rightarrow> nat list" where
  "repr_c_offsets cur [] = []"
| "repr_c_offsets cur ((sz, al) # fs) =
     align_up_nat cur al # repr_c_offsets (align_up_nat cur al + sz) fs"

fun repr_c_end :: "nat \<Rightarrow> field list \<Rightarrow> nat" where
  "repr_c_end cur [] = cur"
| "repr_c_end cur ((sz, al) # fs) = repr_c_end (align_up_nat cur al + sz) fs"

definition repr_c_size :: "nat \<Rightarrow> field list \<Rightarrow> nat" where
  "repr_c_size al fs = align_up_nat (repr_c_end 0 fs) (foldr (max \<circ> snd) fs al)"

definition size_of_ReadyDesc :: nat where
  "size_of_ReadyDesc = repr_c_size 64 ready_desc_fields"

definition size_of_RecycleDesc :: nat where
  "size_of_RecycleDesc = repr_c_size 64 recycle_desc_fields"

definition size_of_SharedHeader :: nat where
  "size_of_SharedHeader = repr_c_size 1 shared_header_fields"

lemma size_of_ReadyDesc [simp]: "size_of_ReadyDesc = 64"
  by (simp add: size_of_ReadyDesc_def repr_c_size_def ready_desc_fields_def align_up_nat_def)

lemma size_of_RecycleDesc [simp]: "size_of_RecycleDesc = 64"
  by (simp add: size_of_RecycleDesc_def repr_c_size_def recycle_desc_fields_def align_up_nat_def)

lemma size_of_SharedHeader [simp]: "size_of_SharedHeader = 240"
  by (simp add: size_of_SharedHeader_def repr_c_size_def shared_header_fields_def align_up_nat_def)

section \<open>Dividing the region\<close>

definition align_up_usize :: "usize \<Rightarrow> usize \<Rightarrow> usize" where
  "align_up_usize v align =
     (if align \<le> 1 then v
      else let rem = v mod align in if rem = 0 then v else v + (align - rem))"

text \<open>
  Where the parts of a region lie, as offsets from its base: what \<open>map_layout\<close> computes for the
  producer and \<open>Reader::open\<close> reads from the header for the consumer.
\<close>

record layout =
  l_ready_offset :: usize
  l_ready_len :: usize
  l_recycle_offset :: usize
  l_recycle_len :: usize
  l_arena_offset :: usize

definition map_layout :: "usize \<Rightarrow> u32 \<Rightarrow> u32 \<Rightarrow> (layout \<times> u64) res" where
  "map_layout total_size ready_capacity rec_capacity =
     (let header_size = max HEADER_PAD (align_up_usize (of_nat size_of_SharedHeader) 64);
          ready_offset = align_up_usize header_size DESC_ALIGN;
          ready_size = ucast ready_capacity * of_nat size_of_ReadyDesc
      in case checked_add ready_offset ready_size of
           None \<Rightarrow> Err (InvalidConfig ''ready ring overflow'')
         | Some ready_end \<Rightarrow>
             let recycle_offset = align_up_usize ready_end DESC_ALIGN;
                 recycle_size = ucast rec_capacity * of_nat size_of_RecycleDesc
             in case checked_add recycle_offset recycle_size of
                  None \<Rightarrow> Err (InvalidConfig ''recycle ring overflow'')
                | Some recycle_end \<Rightarrow>
                    let arena_offset = align_up_usize recycle_end 4096
                    in if arena_offset \<ge> total_size
                       then Err (InvalidConfig ''insufficient total size for arena'')
                       else Ok (\<lparr>l_ready_offset = ready_offset,
                                 l_ready_len = ucast ready_capacity,
                                 l_recycle_offset = recycle_offset,
                                 l_recycle_len = ucast rec_capacity,
                                 l_arena_offset = arena_offset\<rparr>,
                                total_size - arena_offset))"

definition init_header ::
    "u64 \<Rightarrow> u32 \<Rightarrow> u32 \<Rightarrow> usize \<Rightarrow> usize \<Rightarrow> usize \<Rightarrow> u64 \<Rightarrow> bool \<Rightarrow> u32 \<Rightarrow>
     'a shared_header_scheme \<Rightarrow> 'a shared_header_scheme" where
  "init_header total_size ready_capacity rec_capacity ready_offset recycle_offset arena_offset
       arena_size drop_when_no_consumer process_id hdr =
     hdr\<lparr>h_magic := MAGIC,
         h_version_major := VERSION_MAJOR,
         h_version_minor := VERSION_MINOR,
         h_header_size := ucast HEADER_PAD,
         h_total_size := total_size,
         h_features := 0,
         h_state := STATE_INIT,
         h_owner_pid := process_id,
         h_epoch := 1,
         h_ready_capacity := ready_capacity,
         h_ready_entry_size := of_nat size_of_ReadyDesc,
         h_ready_head := 0,
         h_ready_tail := 0,
         h_rec_capacity := rec_capacity,
         h_rec_entry_size := of_nat size_of_RecycleDesc,
         h_rec_head := 0,
         h_rec_tail := 0,
         h_ready_offset := ready_offset,
         h_recycle_offset := recycle_offset,
         h_arena_offset := arena_offset,
         h_arena_size := arena_size,
         h_arena_used_bytes := 0,
         h_arena_high_watermark := 0,
         h_alloc_failures := 0,
         h_drop_when_no_consumer := (if drop_when_no_consumer then 1 else 0),
         h_notify_mode := 0,
         h_timeline_gen := 0,
         h_timeline_snapshot_gen := 0,
         h_timeline_valid := 0,
         h_timeline_seq := 0,
         h_timeline_sink_mono_ns := 0,
         h_timeline_producer_pts_ns := 0,
         h_timeline_ready_head := 0,
         h_startup_gen := 0,
         h_startup_state := STARTUP_IDLE,
         h_startup_seq := 0,
         h_state := STATE_RUNNING\<rparr>"

definition validate_header :: "'a shared_header_scheme \<Rightarrow> u64 \<Rightarrow> unit res" where
  "validate_header hdr total_size =
     (if h_magic hdr \<noteq> MAGIC then Err (Protocol ''magic mismatch'')
      else if h_version_major hdr \<noteq> VERSION_MAJOR then Err (Protocol ''major version mismatch'')
      else if h_version_minor hdr \<noteq> VERSION_MINOR then Err (Protocol ''minor version mismatch'')
      else if h_total_size hdr \<noteq> total_size then Err (Protocol ''mapped size mismatch'')
      else if (ucast (h_ready_entry_size hdr) :: usize) \<noteq> of_nat size_of_ReadyDesc
        then Err (Protocol ''ready entry size mismatch'')
      else if (ucast (h_rec_entry_size hdr) :: usize) \<noteq> of_nat size_of_RecycleDesc
        then Err (Protocol ''recycle entry size mismatch'')
      else Ok ())"

subsection \<open>When a layout exists and what it is\<close>

text \<open>The crate has the rounding function twice, once per integer type; they agree.\<close>

lemma align_up_usize_eq: "align_up_usize v a = align_up v a"
  by (simp add: align_up_usize_def align_up_def)

text \<open>The offset of the arena for two ring capacities.\<close>

definition arena_start :: "nat \<Rightarrow> nat \<Rightarrow> nat" where
  "arena_start rcap ccap = align_up_nat (4096 + 64 * rcap + 64 * ccap) 4096"

lemma unat_desc_bytes [simp]: "unat (ucast (c :: u32) * 64 :: u64) = 64 * unat c"
proof -
  have "unat (ucast c * 64 :: u64) = unat (ucast c :: u64) * unat (64 :: u64)"
    using unat_u32_less [of c] by (subst unat_mult_lem [symmetric]) simp
  then show ?thesis by simp
qed

lemma align_up_multiple: "unat v mod unat a = 0 \<Longrightarrow> align_up v a = v"
  by (auto simp: align_up_def Let_def unat_mod_distrib [symmetric] unat_eq_0)

lemma map_layout_eq:
  "map_layout total_size rcap ccap =
     (if arena_start (unat rcap) (unat ccap) < unat total_size
      then Ok (\<lparr>l_ready_offset = 4096, l_ready_len = ucast rcap,
                l_recycle_offset = 4096 + ucast rcap * 64, l_recycle_len = ucast ccap,
                l_arena_offset = of_nat (arena_start (unat rcap) (unat ccap))\<rparr>,
               total_size - of_nat (arena_start (unat rcap) (unat ccap)))
      else Err (InvalidConfig ''insufficient total size for arena''))"
proof -
  let ?r = "4096 + ucast rcap * 64 :: u64" and ?c = "4096 + ucast rcap * 64 + ucast ccap * 64 :: u64"
  have r: "unat ?r = 4096 + 64 * unat rcap"
    using unat_u32_less [of rcap] by (simp add: unat_add_no_overflow)
  have c: "unat ?c = 4096 + 64 * unat rcap + 64 * unat ccap"
    using unat_u32_less [of rcap] unat_u32_less [of ccap] by (subst unat_add_no_overflow) (simp_all add: r)
  have a1: "align_up 4096 64 = 4096" "align_up 240 64 = (256 :: u64)"
    by (simp_all add: align_up_def word_le_nat_alt)
  have a2: "align_up ?r 64 = ?r"
    by (rule align_up_multiple) (simp add: r mod_add_eq [symmetric, of "4096::nat"])
  have a3: "unat (align_up ?c 4096) = arena_start (unat rcap) (unat ccap)"
    using unat_u32_less [of rcap] unat_u32_less [of ccap] by (subst unat_align_up) (simp_all add: c arena_start_def)
  then have a4: "align_up ?c 4096 = of_nat (arena_start (unat rcap) (unat ccap))"
    by (metis of_nat_unat ucast_id)
  have k1: "checked_add 4096 (ucast rcap * 64) = Some ?r"
    using unat_u32_less [of rcap] by (simp add: checked_add_def)
  have k2: "checked_add ?r (ucast ccap * 64) = Some ?c"
    using unat_u32_less [of rcap] unat_u32_less [of ccap] by (simp add: checked_add_def r)
  show ?thesis
    unfolding map_layout_def
    by (simp add: Let_def align_up_usize_eq HEADER_PAD_def DESC_ALIGN_def max_def a1 a2 k1 k2
        word_le_nat_alt a3 a4 [symmetric])
qed

section \<open>Properties\<close>

text \<open>The four parts of a region as ranges.\<close>

definition layout_parts :: "layout \<Rightarrow> u64 \<Rightarrow> range list" where
  "layout_parts l arena_size =
     [(0, HEADER_PAD), (l_ready_offset l, l_ready_len l * of_nat size_of_ReadyDesc),
      (l_recycle_offset l, l_recycle_len l * of_nat size_of_RecycleDesc),
      (l_arena_offset l, arena_size)]"

lemma arena_start_ge: "4096 + 64 * r + 64 * c \<le> arena_start r c"
  by (simp add: arena_start_def align_up_nat_ge)

lemma arena_start_dvd: "4096 dvd arena_start r c"
  by (simp add: arena_start_def align_up_nat_dvd)

lemma map_layout_OkD:
  assumes "map_layout total_size rcap ccap = Ok (l, arena_size)"
  shows "unat (l_ready_offset l) = 4096" and "l_ready_len l = ucast rcap"
    and "unat (l_recycle_offset l) = 4096 + 64 * unat rcap" and "l_recycle_len l = ucast ccap"
    and "unat (l_arena_offset l) = arena_start (unat rcap) (unat ccap)"
    and "unat (l_arena_offset l) + unat arena_size = unat total_size" and "0 < unat arena_size"
proof -
  let ?o = "arena_start (unat rcap) (unat ccap)"
  have lt: "?o < unat total_size" and l: "l = \<lparr>l_ready_offset = 4096, l_ready_len = ucast rcap,
      l_recycle_offset = 4096 + ucast rcap * 64, l_recycle_len = ucast ccap, l_arena_offset = of_nat ?o\<rparr>"
    and sz: "arena_size = total_size - of_nat ?o"
    using assms by (simp_all add: map_layout_eq split: if_splits)
  have o: "unat (of_nat ?o :: u64) = ?o"
    using lt unat_u64_less [of total_size] by (simp add: unat_of_nat take_bit_nat_eq_self)
  show "unat (l_ready_offset l) = 4096" "l_ready_len l = ucast rcap" "l_recycle_len l = ucast ccap"
    "unat (l_arena_offset l) = ?o"
    using o by (simp_all add: l)
  have "unat (4096 + ucast rcap * 64 :: u64) = unat (4096 :: u64) + unat (ucast rcap * 64 :: u64)"
    using unat_u32_less [of rcap] by (intro unat_add_no_overflow) simp
  then show "unat (l_recycle_offset l) = 4096 + 64 * unat rcap" by (simp add: l)
  have "unat arena_size = unat total_size - ?o"
    using lt unfolding sz by (subst unat_sub_no_underflow) (simp_all only: o less_imp_le)
  with lt show "unat (l_arena_offset l) + unat arena_size = unat total_size" "0 < unat arena_size"
    by (simp_all add: l o)
qed

text \<open>
  C23: \<open>map_layout\<close> divides the region: header page, ready ring, recycle ring and arena follow one
  another without overlap, the rings start on cache lines and the arena on a page, the arena ends
  exactly at the end of the region, and it is not empty.
\<close>

theorem map_layout_partitions:
  assumes "map_layout total_size rcap ccap = Ok (l, arena_size)"
  shows "sorted_wrt ends_before (layout_parts l arena_size) \<and>
    (\<forall>p\<in>set (layout_parts l arena_size). in_bounds total_size p) \<and>
    64 dvd unat (l_ready_offset l) \<and> 64 dvd unat (l_recycle_offset l) \<and>
    4096 dvd unat (l_arena_offset l) \<and>
    unat (l_arena_offset l) + unat arena_size = unat total_size \<and> 0 < unat arena_size"
proof -
  note o = map_layout_OkD [OF assms]
  have "64 * unat rcap + (64 * unat ccap + 4096) \<le> unat (l_arena_offset l)"
    using arena_start_ge [of "unat rcap" "unat ccap"] o(5) by simp
  moreover have "unat (l_arena_offset l) \<le> unat total_size" using o(6) by simp
  moreover have "64 dvd unat (l_recycle_offset l)" using o(3) by presburger
  ultimately show ?thesis
    using o arena_start_dvd [of "unat rcap" "unat ccap"]
    by (simp add: layout_parts_def ends_before_def in_bounds_def HEADER_PAD_def)
qed

theorem map_layout_partitions_witness:
  "\<exists>l arena_size. map_layout 67108864 4096 4096 = Ok (l, arena_size) \<and>
    sorted_wrt ends_before (layout_parts l arena_size) \<and> unat (l_arena_offset l) = 528384"
proof -
  have s: "arena_start 4096 4096 = 528384" by (simp add: arena_start_def align_up_nat_def)
  then obtain l n where l: "map_layout 67108864 4096 4096 = Ok (l, n)" by (simp add: map_layout_eq)
  from map_layout_partitions [OF l] map_layout_OkD(5) [OF l] l s show ?thesis by auto
qed

text \<open>
  \<open>map_layout\<close> succeeds exactly when the header page, the two rings and the padding to a
  page leave at least one byte of the region for the arena, and every failure is the error
  \<open>insufficient total size for arena\<close>: its two overflow errors cannot occur for 32-bit capacities.
\<close>

lemma map_layout_decides:
  "(map_layout total_size rcap ccap =
     Err (InvalidConfig ''insufficient total size for arena'') \<longleftrightarrow>
       unat total_size \<le> align_up_nat (4096 + 64 * unat rcap + 64 * unat ccap) 4096) \<and>
   (is_ok (map_layout total_size rcap ccap) \<longleftrightarrow>
     align_up_nat (4096 + 64 * unat rcap + 64 * unat ccap) 4096 < unat total_size)"
  by (auto simp: map_layout_eq arena_start_def)

text \<open>In a \<open>repr(C)\<close> struct every field is aligned and fields do not overlap.\<close>

definition well_placed :: "nat \<Rightarrow> nat \<Rightarrow> nat \<times> field \<Rightarrow> bool" where
  "well_placed lo hi x = (case x of (off, (sz, al)) \<Rightarrow> al dvd off \<and> lo \<le> off \<and> off + sz \<le> hi)"

lemma repr_c_end_ge: "cur \<le> repr_c_end cur fs"
proof (induction cur fs rule: repr_c_end.induct)
  case (2 cur sz al fs)
  then show ?case using align_up_nat_ge [of cur al] by simp
qed simp

lemma repr_c_placed:
  "\<forall>f\<in>set fs. 0 < snd f \<Longrightarrow>
   (\<forall>x\<in>set (zip (repr_c_offsets cur fs) fs). well_placed cur (repr_c_end cur fs) x) \<and>
   sorted_wrt (\<lambda>(o1, (s1, _)) (o2, _). o1 + s1 \<le> o2) (zip (repr_c_offsets cur fs) fs)"
proof (induction cur fs rule: repr_c_offsets.induct)
  case (2 cur sz al fs)
  let ?o = "align_up_nat cur al"
  have "0 < al" using 2(2) by simp
  then have first: "al dvd ?o" "cur \<le> ?o" by (simp_all add: align_up_nat_dvd align_up_nat_ge)
  have rest: "well_placed (?o + sz) (repr_c_end (?o + sz) fs) x"
    if "x \<in> set (zip (repr_c_offsets (?o + sz) fs) fs)" for x
    using 2 that by simp
  have "well_placed cur (repr_c_end (?o + sz) fs) x"
    "?o + sz \<le> fst x" if "x \<in> set (zip (repr_c_offsets (?o + sz) fs) fs)" for x
    using rest [OF that] first(2) by (auto simp: well_placed_def split: prod.splits)
  with first repr_c_end_ge [of "?o + sz" fs] 2 show ?case
    by (auto simp: well_placed_def)
qed simp

text \<open>
  In the region's header, a \<open>repr(C)\<close> struct, every field, the atomic counters above all, lies
  at a multiple of its own alignment, fields do not overlap, and the whole struct (240 bytes) fits
  into the header page in front of the rings. Both descriptors fill exactly one cache line.
\<close>

lemma header_fields_placed:
  "(\<forall>x\<in>set (zip (repr_c_offsets 0 shared_header_fields) shared_header_fields).
      well_placed 0 (unat HEADER_PAD) x) \<and>
   sorted_wrt (\<lambda>(o1, (s1, _)) (o2, _). o1 + s1 \<le> o2)
     (zip (repr_c_offsets 0 shared_header_fields) shared_header_fields) \<and>
   size_of_SharedHeader = 240 \<and> size_of_ReadyDesc = 64 \<and> size_of_RecycleDesc = 64"
proof -
  have pos: "\<forall>f\<in>set shared_header_fields. 0 < snd f" by (simp add: shared_header_fields_def)
  have "repr_c_end 0 shared_header_fields = 240"
    by (simp add: shared_header_fields_def align_up_nat_def)
  with repr_c_placed [OF pos, of 0] show ?thesis
    by (fastforce simp: well_placed_def HEADER_PAD_def)
qed

text \<open>
  A header written by \<open>init_header\<close>, over whatever was in the memory, is accepted by
  \<open>validate_header\<close> exactly when the size the reader mapped is the size the writer put in.
\<close>

lemma init_header_validates:
  "validate_header
       (init_header total_size rcap ccap ready_offset recycle_offset arena_offset arena_size
          drop_flag process_id junk) mapped =
     (if mapped = total_size then Ok () else Err (Protocol ''mapped size mismatch''))"
  by (simp add: validate_header_def init_header_def)

end
