(* ===== verification/Transport.thy ===== *)
theory Transport
  imports Allocator Layout
begin

text \<open>
  The two ends of the transport and how they come up: the configuration, \<open>Writer::create\<close> and
  \<open>Reader::open\<close> of \<open>src/src/transport.rs\<close>.  The platform backend is a parameter: what its
  \<open>create\<close> and \<open>open\<close> return.
\<close>

section \<open>Configuration, writer and leases\<close>

record transport_config =
  cfg_total_size :: usize
  cfg_ready_capacity :: u32
  cfg_recycle_capacity :: u32
  cfg_perms :: u32
  cfg_drop_when_no_consumer :: bool
  cfg_allocator_align :: u64
  cfg_timeline_beacon_ms :: u32

definition default_config :: transport_config where
  "default_config =
     \<lparr>cfg_total_size = 64 * 1024 * 1024,
      cfg_ready_capacity = 4096,
      cfg_recycle_capacity = 4096,
      cfg_perms = 432,
      cfg_drop_when_no_consumer = False,
      cfg_allocator_align = 64,
      cfg_timeline_beacon_ms = 250\<rparr>"

text \<open>A mapping of the backend: base address and length (\<open>SharedRegion\<close>).\<close>

record region =
  rg_ptr :: usize
  rg_len :: usize

text \<open>
  The writer: the mapped region, extended by the producer's own fields.  Operations of the
  reader are defined on any extension of the region and so cannot touch these.
\<close>

record writer = shm +
  w_region :: region
  w_layout :: layout
  w_allocator :: free_list_allocator
  w_allocator_align :: u64
  w_timeline_beacon_ns :: u64
  w_last_timeline_emit_ns :: u64
  w_last_timeline_snapshot_gen :: u64

record lease =
  ls_buffer_id :: u32
  ls_offset :: u64
  ls_len :: u32
  ls_ptr :: usize

record startup_snapshot =
  ss_generation :: u64
  ss_state :: u32
  ss_seq :: u64

text \<open>The writer's pointer to the arena.\<close>

definition w_arena :: "'a writer_scheme \<Rightarrow> usize" where
  "w_arena w = rg_ptr (w_region w) + l_arena_offset (w_layout w)"

section \<open>Creating the region\<close>

text \<open>\<open>std::ptr::write_bytes(base, 0, len)\<close>, seen through the layout.\<close>

definition zero_header :: shared_header where
  "zero_header =
     \<lparr>h_magic = replicate 8 0, h_version_major = 0, h_version_minor = 0, h_header_size = 0,
      h_total_size = 0, h_features = 0, h_state = 0, h_owner_pid = 0, h_epoch = 0,
      h_ready_capacity = 0, h_ready_entry_size = 0, h_ready_head = 0, h_ready_tail = 0,
      h_rec_capacity = 0, h_rec_entry_size = 0, h_rec_head = 0, h_rec_tail = 0,
      h_ready_offset = 0, h_recycle_offset = 0, h_arena_offset = 0, h_arena_size = 0,
      h_arena_used_bytes = 0, h_arena_high_watermark = 0, h_alloc_failures = 0,
      h_drop_when_no_consumer = 0, h_notify_mode = 0, h_timeline_gen = 0,
      h_timeline_snapshot_gen = 0, h_timeline_valid = 0, h_timeline_seq = 0,
      h_timeline_sink_mono_ns = 0, h_timeline_producer_pts_ns = 0, h_timeline_ready_head = 0,
      h_startup_gen = 0, h_startup_state = 0, h_startup_seq = 0\<rparr>"

definition zero_shm :: "layout \<Rightarrow> shm" where
  "zero_shm l =
     shared_header.extend zero_header
       \<lparr>ready = replicate (unat (l_ready_len l)) default_ready_desc,
        recycle = replicate (unat (l_recycle_len l)) default_recycle_desc,
        arena = (\<lambda>_. 0)\<rparr>"

definition writer_create ::
    "(string \<Rightarrow> usize \<Rightarrow> u32 \<Rightarrow> region res) \<Rightarrow> u32 \<Rightarrow> string \<Rightarrow> transport_config \<Rightarrow> writer res" where
  "writer_create backend_create process_id path cfg =
     (if cfg_ready_capacity cfg = 0 \<or> cfg_recycle_capacity cfg = 0
      then Err (InvalidConfig ''ring capacities must be non-zero'')
      else
        res_bind (backend_create path (cfg_total_size cfg) (cfg_perms cfg)) (\<lambda>region.
        res_bind (map_layout (rg_len region) (cfg_ready_capacity cfg) (cfg_recycle_capacity cfg))
          (\<lambda>(layout, arena_size).
            Ok (shm.extend
                  (init_header (cfg_total_size cfg) (cfg_ready_capacity cfg) (cfg_recycle_capacity cfg)
                     (l_ready_offset layout) (l_recycle_offset layout) (l_arena_offset layout)
                     arena_size (cfg_drop_when_no_consumer cfg) process_id (zero_shm layout))
                  \<lparr>w_region = region,
                   w_layout = layout,
                   w_allocator = new_allocator arena_size,
                   w_allocator_align = cfg_allocator_align cfg,
                   w_timeline_beacon_ns = ucast (max (cfg_timeline_beacon_ms cfg) 1) * 1000000,
                   w_last_timeline_emit_ns = 0,
                   w_last_timeline_snapshot_gen = 0\<rparr>))))"

definition region_size :: "'a writer_scheme \<Rightarrow> usize" where
  "region_size w = rg_len (w_region w)"

section \<open>Opening it\<close>

text \<open>
  The reader's views: base addresses and lengths of its two slices and the base of its arena.
  The backend's \<open>open\<close> gives the mapping and what is in it.
\<close>

definition reader_open ::
    "(string \<Rightarrow> (region \<times> 'a shm_scheme) res) \<Rightarrow> string \<Rightarrow> (layout \<times> 'a shm_scheme) res" where
  "reader_open backend_open path =
     res_bind (backend_open path) (\<lambda>(region, hdr).
     res_bind (validate_header hdr (rg_len region)) (\<lambda>_.
       Ok (\<lparr>l_ready_offset = h_ready_offset hdr,
            l_ready_len = ucast (h_ready_capacity hdr),
            l_recycle_offset = h_recycle_offset hdr,
            l_recycle_len = ucast (h_rec_capacity hdr),
            l_arena_offset = h_arena_offset hdr\<rparr>, hdr)))"

end
