(* ===== verification/Ring.thy ===== *)
theory Ring
  imports Prelude
begin

text \<open>
  The ring buffers of \<open>src/src/transport.rs\<close> without their element type: the slot access
  \<open>ring[(pos % cap) as usize]\<close>, the list of entries between the two counters, and the interface
  \<open>bounded_queue\<close> a ring offers to its two sides, with what follows from it for every schedule of
  pushes and pops: first in, first out, nothing lost, nothing invented, never more than the capacity.
\<close>

section \<open>Slots\<close>

text \<open>\<open>None\<close> is the panic of a remainder by zero or of an index past the slice.\<close>

definition ring_get :: "'a list \<Rightarrow> u64 \<Rightarrow> u64 \<Rightarrow> 'a option" where
  "ring_get xs pos cap =
     (if cap = 0 then None
      else let idx = unat (pos mod cap) in if idx < length xs then Some (xs ! idx) else None)"

definition ring_put :: "'a list \<Rightarrow> u64 \<Rightarrow> u64 \<Rightarrow> 'a \<Rightarrow> 'a list option" where
  "ring_put xs pos cap x =
     (if cap = 0 then None
      else let idx = unat (pos mod cap) in if idx < length xs then Some (xs[idx := x]) else None)"

text \<open>
  The counters only grow; \<open>ring_ok\<close> says that they have not wrapped and that at most \<open>cap\<close>
  entries lie between them.  \<open>ring_list\<close> is these entries, oldest first.
\<close>

definition ring_ok :: "'a list \<Rightarrow> u64 \<Rightarrow> u64 \<Rightarrow> u64 \<Rightarrow> bool" where
  "ring_ok xs head tail cap \<longleftrightarrow> cap \<noteq> 0 \<and> length xs = unat cap \<and>
     unat tail \<le> unat head \<and> unat head \<le> unat tail + unat cap"

definition ring_list :: "'a list \<Rightarrow> u64 \<Rightarrow> u64 \<Rightarrow> u64 \<Rightarrow> 'a list" where
  "ring_list xs head tail cap = map (\<lambda>i. xs ! (i mod unat cap)) [unat tail..<unat head]"

lemma length_ring_list [simp]: "length (ring_list xs head tail cap) = unat head - unat tail"
  by (simp add: ring_list_def)

lemma ring_list_empty [simp]: "ring_list xs p p cap = []"
  by (simp add: ring_list_def)

lemma ring_dist: "ring_ok xs head tail cap \<Longrightarrow> unat (head - tail) = unat head - unat tail"
  by (simp add: ring_ok_def unat_sub_no_underflow)

lemma ring_full_iff:
  "ring_ok xs head tail cap \<Longrightarrow> head - tail < cap \<longleftrightarrow> length (ring_list xs head tail cap) < unat cap"
  by (simp add: word_less_nat_alt ring_dist)

lemma ring_empty_iff:
  "ring_ok xs head tail cap \<Longrightarrow> head = tail \<longleftrightarrow> ring_list xs head tail cap = []"
  by (auto simp: ring_list_def ring_ok_def word_unat_eq_iff)

lemma ring_get_Some:
  "ring_ok xs head tail cap \<Longrightarrow> ring_get xs p cap = Some (xs ! (unat p mod unat cap))"
  by (auto simp: ring_get_def ring_ok_def Let_def unat_mod_distrib word_neq_0_pos)

lemma ring_put_Some:
  "ring_ok xs head tail cap \<Longrightarrow> ring_put xs p cap x = Some (xs[unat p mod unat cap := x])"
  by (auto simp: ring_put_def ring_ok_def Let_def unat_mod_distrib word_neq_0_pos)

lemma unat_succ: "unat p + 1 < 2 ^ 64 \<Longrightarrow> unat (p + 1) = unat p + 1" for p :: u64
  by (simp add: unat_add_no_overflow)

lemma unat_succ_less: "unat p < unat q \<Longrightarrow> unat (p + 1) = unat p + 1" for p q :: u64
  using unat_u64_less [of q] by (intro unat_succ) simp

text \<open>With room in the ring, the slot of the next entry is none of those in use.\<close>

lemma ring_slot_apart:
  assumes "unat head < unat tail + unat cap" "unat tail \<le> i" "i < unat head"
  shows "i mod unat cap \<noteq> unat head mod unat cap"
proof
  assume "i mod unat cap = unat head mod unat cap"
  then have "unat cap dvd unat head - i" by (metis mod_eq_dvd_iff_nat assms(3) less_imp_le)
  with assms show False by (auto dest!: dvd_imp_le)
qed

lemma ring_push:
  fixes x
  assumes ok: "ring_ok xs head tail cap" and room: "head - tail < cap"
    and wrap: "unat head + 1 < 2 ^ 64"
  defines "xs' \<equiv> xs[unat head mod unat cap := x]"
  shows "ring_ok xs' (head + 1) tail cap"
    and "ring_list xs' (head + 1) tail cap = ring_list xs head tail cap @ [x]"
proof -
  have h: "unat (head + 1) = unat head + 1" by (rule unat_succ [OF wrap])
  have le: "unat tail \<le> unat head" and lt: "unat head - unat tail < unat cap"
    and len: "length xs = unat cap"
    using ok room by (simp_all add: ring_ok_def word_less_nat_alt ring_dist [OF ok])
  show "ring_ok xs' (head + 1) tail cap"
    using ok lt by (simp add: ring_ok_def xs'_def h)
  have other: "i mod unat cap \<noteq> unat head mod unat cap" if "unat tail \<le> i" "i < unat head" for i
    by (rule ring_slot_apart [OF _ that]) (use le lt in simp)
  have "unat head mod unat cap < length xs" using lt len by simp
  then have "xs' ! (unat head mod unat cap) = x" by (simp add: xs'_def)
  moreover have "xs' ! (i mod unat cap) = xs ! (i mod unat cap)" if "unat tail \<le> i" "i < unat head" for i
    using other [OF that] by (simp add: xs'_def)
  ultimately show "ring_list xs' (head + 1) tail cap = ring_list xs head tail cap @ [x]"
    using le by (simp add: ring_list_def h)
qed

lemma ring_pop:
  assumes ok: "ring_ok xs head tail cap" and ne: "head \<noteq> tail"
  shows "ring_ok xs head (tail + 1) cap"
    and "ring_list xs head tail cap = xs ! (unat tail mod unat cap) # ring_list xs head (tail + 1) cap"
proof -
  have lt: "unat tail < unat head"
    using ok ne by (auto simp: ring_ok_def word_unat_eq_iff)
  then have t: "unat (tail + 1) = unat tail + 1"
    using unat_u64_less [of head] by (intro unat_succ) simp
  show "ring_ok xs head (tail + 1) cap" using ok lt by (simp add: ring_ok_def t)
  show "ring_list xs head tail cap = xs ! (unat tail mod unat cap) # ring_list xs head (tail + 1) cap"
    using lt by (simp add: ring_list_def t upt_conv_Cons)
qed

lemma ring_skip:
  assumes "ring_ok xs head tail cap" "unat tail \<le> unat p" "unat p \<le> unat head"
  shows "ring_ok xs head p cap"
    and "ring_list xs head p cap = drop (unat p - unat tail) (ring_list xs head tail cap)"
  using assms by (auto simp: ring_ok_def ring_list_def drop_map)

section \<open>The interface of a ring\<close>

datatype 'i queue_op = Push 'i | Pop

text \<open>
  Run a schedule of pushes and pops; collect what the pushes put in and what the pops took out.
  A push onto a full queue and a pop of an empty one change nothing.
\<close>

fun queue_run ::
    "('s \<Rightarrow> 'i \<Rightarrow> 's option) \<Rightarrow> ('s \<Rightarrow> ('s \<times> 'a) option) \<Rightarrow> 's \<Rightarrow> 'i queue_op list \<Rightarrow>
     's \<times> 'i list \<times> 'a list" where
  "queue_run push pop s [] = (s, [], [])"
| "queue_run push pop s (Push x # xs) =
     (case push s x of
        None \<Rightarrow> queue_run push pop s xs
      | Some s' \<Rightarrow> (case queue_run push pop s' xs of (t, ins, outs) \<Rightarrow> (t, x # ins, outs)))"
| "queue_run push pop s (Pop # xs) =
     (case pop s of
        None \<Rightarrow> queue_run push pop s xs
      | Some (s', y) \<Rightarrow> (case queue_run push pop s' xs of (t, ins, outs) \<Rightarrow> (t, ins, y # outs)))"

primrec op_valid :: "('i \<Rightarrow> bool) \<Rightarrow> 'i queue_op \<Rightarrow> bool" where
  "op_valid P (Push x) = P x"
| "op_valid P Pop = True"

text \<open>
  \<open>ok n s\<close>: the state is good for \<open>n\<close> more operations (the counters stay below \<open>2 ^ 64\<close>).
  \<open>valid s x\<close>: the entry may be offered in this state, e.g. its payload lies in the arena.
\<close>

locale bounded_queue =
  fixes push :: "'s \<Rightarrow> 'i \<Rightarrow> 's option"
    and pop :: "'s \<Rightarrow> ('s \<times> 'a) option"
    and entry :: "'i \<Rightarrow> 'a"
    and queue :: "'s \<Rightarrow> 'a list"
    and cap :: "'s \<Rightarrow> nat"
    and ok :: "nat \<Rightarrow> 's \<Rightarrow> bool"
    and valid :: "'s \<Rightarrow> 'i \<Rightarrow> bool"
  assumes push_full: "ok (Suc n) s \<Longrightarrow> cap s \<le> length (queue s) \<Longrightarrow> push s x = None"
    and push_room:
      "\<lbrakk>ok (Suc n) s; valid s x; length (queue s) < cap s\<rbrakk> \<Longrightarrow>
       \<exists>s'. push s x = Some s' \<and> ok n s' \<and> queue s' = queue s @ [entry x] \<and> cap s' = cap s \<and>
            valid s' = valid s"
    and pop_empty: "ok (Suc n) s \<Longrightarrow> queue s = [] \<Longrightarrow> pop s = None"
    and pop_some:
      "ok (Suc n) s \<Longrightarrow> queue s = y # ys \<Longrightarrow>
       \<exists>s'. pop s = Some (s', y) \<and> ok n s' \<and> queue s' = ys \<and> cap s' = cap s \<and> valid s' = valid s"
    and ok_Suc: "ok (Suc n) s \<Longrightarrow> ok n s"
    and ok_cap: "ok n s \<Longrightarrow> length (queue s) \<le> cap s"
begin

lemma run_fifo:
  assumes "ok (length xs) s" "\<forall>x\<in>set xs. op_valid (valid s) x" "queue_run push pop s xs = (t, ins, outs)"
  shows "queue s @ map entry ins = outs @ queue t \<and> length (queue t) \<le> cap s"
  using assms
proof (induction xs arbitrary: s t ins outs)
  case Nil
  then show ?case using ok_cap by auto
next
  case (Cons x xs)
  have okn: "ok (Suc (length xs)) s" using Cons.prems(1) by simp
  have vx: "\<forall>x\<in>set xs. op_valid (valid s) x" using Cons.prems(2) by simp
  show ?case
  proof (cases x)
    case (Push i)
    have vi: "valid s i" using Cons.prems(2) Push by simp
    show ?thesis
    proof (cases "length (queue s) < cap s")
      case True
      from push_room [OF okn vi True] obtain s' where s': "push s i = Some s'" "ok (length xs) s'"
        "queue s' = queue s @ [entry i]" "cap s' = cap s" "valid s' = valid s" by blast
      obtain t' ins' outs' where r: "queue_run push pop s' xs = (t', ins', outs')"
        by (cases "queue_run push pop s' xs") auto
      have "queue s' @ map entry ins' = outs' @ queue t' \<and> length (queue t') \<le> cap s'"
        by (rule Cons.IH [OF s'(2) _ r]) (simp add: s'(5) vx)
      then show ?thesis using Cons.prems(3) Push s' r by auto
    next
      case False
      then have "push s i = None" using push_full [OF okn] by simp
      then have "queue_run push pop s xs = (t, ins, outs)" using Cons.prems(3) Push by simp
      then show ?thesis by (rule Cons.IH [OF ok_Suc [OF okn] vx])
    qed
  next
    case Pop
    show ?thesis
    proof (cases "queue s")
      case Nil
      then have "pop s = None" using pop_empty [OF okn] by simp
      then have "queue_run push pop s xs = (t, ins, outs)" using Cons.prems(3) Pop by simp
      then show ?thesis by (rule Cons.IH [OF ok_Suc [OF okn] vx])
    next
      case (Cons y ys)
      from pop_some [OF okn this] obtain s' where s': "pop s = Some (s', y)" "ok (length xs) s'"
        "queue s' = ys" "cap s' = cap s" "valid s' = valid s" by blast
      obtain t' ins' outs' where r: "queue_run push pop s' xs = (t', ins', outs')"
        by (cases "queue_run push pop s' xs") auto
      have "queue s' @ map entry ins' = outs' @ queue t' \<and> length (queue t') \<le> cap s'"
        by (rule Cons.IH [OF s'(2) _ r]) (simp add: s'(5) vx)
      then show ?thesis using \<open>queue s = y # ys\<close> Cons.prems(3) Pop s' r by auto
    qed
  qed
qed

end

end
