(* ===== verification/Polling.thy ===== *)
theory Polling
  imports Prelude
begin

text \<open>
  The poll loops of the transport and of the two elements.  Such a loop tries its body, and when
  the body is not enabled calls \<open>poll_yield_sleep\<close> and tries again.  Meanwhile the other side may
  change the shared state: the model takes what it does during each sleep from a list, so a
  result is \<open>None\<close> when the loop is still polling after the whole list.
\<close>

section \<open>The back-off of \<open>poll_yield_sleep\<close>\<close>

text \<open>The time slept, in microseconds, and the new count of idle cycles.\<close>

definition poll_yield_sleep :: "u32 \<Rightarrow> nat \<Rightarrow> nat \<times> u32" where
  "poll_yield_sleep idle_cycles steady_sleep_us =
     ((if idle_cycles \<le> 7 then 50
       else if idle_cycles \<le> 31 then 200
       else if idle_cycles \<le> 127 then 1000
       else steady_sleep_us),
      saturating_add idle_cycles 1)"

primrec poll_sleeps :: "nat \<Rightarrow> u32 \<Rightarrow> nat \<Rightarrow> nat list" where
  "poll_sleeps 0 idle_cycles steady_us = []"
| "poll_sleeps (Suc n) idle_cycles steady_us =
     fst (poll_yield_sleep idle_cycles steady_us) #
     poll_sleeps n (snd (poll_yield_sleep idle_cycles steady_us)) steady_us"

lemma unat_poll_idle:
  "unat (snd (poll_yield_sleep i steady_us)) = min (unat i + 1) (2 ^ 32 - 1)"
  by (simp add: poll_yield_sleep_def unat_saturating_add)

lemma poll_sleeps_le:
  "1000 \<le> steady_us \<Longrightarrow> x \<in> set (poll_sleeps n i steady_us) \<Longrightarrow> 50 \<le> x \<and> x \<le> steady_us"
  by (induction n arbitrary: i) (auto simp: poll_yield_sleep_def split: if_splits)

lemma sorted_poll_sleeps: "1000 \<le> steady_us \<Longrightarrow> sorted (poll_sleeps n i steady_us)"
proof (induction n arbitrary: i)
  case (Suc n)
  let ?j = "snd (poll_yield_sleep i steady_us)"
  have mono: "fst (poll_yield_sleep i steady_us) \<le> x" if "x \<in> set (poll_sleeps n k steady_us)" "i \<le> k" for x k n
    using that
  proof (induction n arbitrary: k)
    case (Suc n)
    have "k \<le> snd (poll_yield_sleep k steady_us)"
      using unat_u32_less [of k] by (simp add: word_le_nat_alt unat_poll_idle)
    then have "i \<le> snd (poll_yield_sleep k steady_us)" using Suc.prems(2) by (rule order_trans [rotated])
    moreover have "fst (poll_yield_sleep i steady_us) \<le> fst (poll_yield_sleep k steady_us)"
      using Suc.prems(2) \<open>1000 \<le> steady_us\<close> by (auto simp: poll_yield_sleep_def word_le_nat_alt)
    ultimately show ?case using Suc by auto
  qed simp
  have "i \<le> ?j" using unat_u32_less [of i] by (simp add: word_le_nat_alt unat_poll_idle)
  with Suc mono show ?case by auto
qed simp

section \<open>Loops that poll\<close>

fun poll_loop :: "('s \<Rightarrow> ('s \<times> 'r) option) \<Rightarrow> ('s \<Rightarrow> 's) list \<Rightarrow> 's \<Rightarrow> ('s \<times> 'r) option" where
  "poll_loop body [] s = body s"
| "poll_loop body (e # env) s =
     (case body s of Some r \<Rightarrow> Some r | None \<Rightarrow> poll_loop body env (e s))"

lemma poll_loop_now: "body s = Some r \<Longrightarrow> poll_loop body env s = Some r"
  by (cases env) auto

text \<open>The loop ends as soon as the other side has enabled the body.\<close>

lemma poll_loop_enabled:
  "(\<forall>k < length pre. body (fold (\<lambda>e s. e s) (take k pre) s) = None) \<Longrightarrow>
   body (fold (\<lambda>e s. e s) pre s) = Some r \<Longrightarrow> poll_loop body (pre @ env) s = Some r"
proof (induction pre arbitrary: s)
  case Nil
  then show ?case by (simp add: poll_loop_now)
next
  case (Cons e pre)
  have "body s = None" using Cons.prems(1) [rule_format, of 0] by simp
  moreover have "poll_loop body (pre @ env) (e s) = Some r"
  proof (rule Cons.IH)
    show "\<forall>k<length pre. body (fold (\<lambda>e s. e s) (take k pre) (e s)) = None"
      using Cons.prems(1) by (metis Suc_less_eq fold_simps(2) length_Cons take_Suc_Cons)
    show "body (fold (\<lambda>e s. e s) pre (e s)) = Some r" using Cons.prems(2) by simp
  qed
  ultimately show ?case by simp
qed

text \<open>It never ends while the other side keeps the body disabled.\<close>

lemma poll_loop_stuck:
  assumes "P s" "\<And>s. P s \<Longrightarrow> body s = None" "\<And>s e. P s \<Longrightarrow> e \<in> set env \<Longrightarrow> P (e s)"
  shows "poll_loop body env s = None"
  using assms by (induction env arbitrary: s) auto

lemma poll_loop_SomeE:
  assumes "poll_loop body env s = Some r"
  obtains k where "k \<le> length env" "body (fold (\<lambda>e s. e s) (take k env) s) = Some r"
  using assms
proof (induction env arbitrary: s thesis)
  case Nil
  then show ?case by simp
next
  case (Cons e env)
  show ?case
  proof (cases "body s")
    case None
    with Cons.prems(2) have "poll_loop body env (e s) = Some r" by simp
    from Cons.IH [OF _ this] obtain k where "k \<le> length env"
      "body (fold (\<lambda>e s. e s) (take k env) (e s)) = Some r" by blast
    then show ?thesis using Cons.prems(1) [of "Suc k"] by simp
  next
    case (Some r')
    then show ?thesis using Cons.prems(2) Cons.prems(1) [of 0] by simp
  qed
qed

section \<open>Properties\<close>

text \<open>
  The back-off of the poll loops. The pauses of a waiting loop never get shorter, start at
  50 microseconds and never exceed the steady pause (1 ms everywhere in the crate), however long
  it waits: the idle counter saturates and does not start again.
\<close>

lemma poll_backoff_monotone:
  assumes "1000 \<le> steady_us"
  shows "sorted (poll_sleeps n 0 steady_us) \<and>
    (\<forall>x\<in>set (poll_sleeps n 0 steady_us). 50 \<le> x \<and> x \<le> steady_us) \<and>
    (128 \<le> unat i \<longrightarrow> poll_sleeps n i steady_us = replicate n steady_us)"
proof -
  have "poll_sleeps n i steady_us = replicate n steady_us" if "128 \<le> unat i" for i
    using that
  proof (induction n arbitrary: i)
    case (Suc n)
    have "\<not> i \<le> 127" using Suc.prems by (simp add: word_le_nat_alt)
    moreover from this have "\<not> i \<le> 31" "\<not> i \<le> 7" by (auto simp: word_le_nat_alt)
    moreover have "128 \<le> unat (snd (poll_yield_sleep i steady_us))"
      using Suc.prems unat_u32_less [of i] by (simp add: unat_poll_idle)
    ultimately show ?case using Suc.IH by (simp add: poll_yield_sleep_def)
  qed simp
  then show ?thesis using sorted_poll_sleeps [OF assms] poll_sleeps_le [OF assms] by blast
qed

end
