(* ===== verification/Writer.thy ===== *)
theory Writer
  imports Transport Ring Polling
begin

text \<open>
  The producer's operations, \<open>impl Writer\<close> of \<open>src/src/transport.rs\<close>, one definition per method.
  A method returns the new writer and, where the source returns a \<open>Result\<close> or can panic, a
  \<open>res\<close>.  Each method is one atomic step of the model.  The readings of the system clock
  (\<open>now_nanos\<close>) are arguments.
\<close>

section \<open>Metrics and timeline snapshots\<close>

text \<open>
  The compare-and-exchange loop of the source stores \<open>used\<close> unless the mark is already as high;
  no one else writes the mark.
\<close>

definition update_usage_metrics :: "writer \<Rightarrow> writer" where
  "update_usage_metrics w =
     (let used = used_bytes (w_allocator w);
          w1 = w\<lparr>h_arena_used_bytes := used\<rparr>
      in if used > h_arena_high_watermark w1 then w1\<lparr>h_arena_high_watermark := used\<rparr> else w1)"

text \<open>\<open>producer_pts_ns.max(0) as u64\<close>, a signed maximum.\<close>

definition pts_as_u64 :: "i64 \<Rightarrow> u64" where
  "pts_as_u64 pts = (if sint pts < 0 then 0 else pts)"

definition force_timeline_snapshot :: "u64 \<Rightarrow> i64 \<Rightarrow> u64 \<Rightarrow> writer \<Rightarrow> writer" where
  "force_timeline_snapshot now producer_pts_ns ready_head w =
     (let generation = h_timeline_gen w
      in w\<lparr>h_timeline_sink_mono_ns := now,
           h_timeline_producer_pts_ns := pts_as_u64 producer_pts_ns,
           h_timeline_ready_head := ready_head,
           h_timeline_snapshot_gen := generation,
           h_timeline_seq := h_timeline_seq w + 1,
           h_timeline_valid := 1,
           w_last_timeline_emit_ns := now,
           w_last_timeline_snapshot_gen := generation\<rparr>)"

definition emit_timeline_snapshot :: "u64 \<Rightarrow> i64 \<Rightarrow> writer \<Rightarrow> writer" where
  "emit_timeline_snapshot now producer_pts_ns w =
     force_timeline_snapshot now producer_pts_ns (h_ready_head w) w"

text \<open>Two readings of the clock: one for the period, one for the snapshot.\<close>

definition maybe_publish_timeline_snapshot :: "u64 \<times> u64 \<Rightarrow> i64 \<Rightarrow> u64 \<Rightarrow> writer \<Rightarrow> writer" where
  "maybe_publish_timeline_snapshot clock producer_pts_ns ready_head w =
     (let now = fst clock;
          generation = h_timeline_gen w;
          generation_changed = (generation \<noteq> w_last_timeline_snapshot_gen w);
          periodic_due =
            (saturating_sub now (w_last_timeline_emit_ns w) \<ge> w_timeline_beacon_ns w)
      in if \<not> generation_changed \<and> \<not> periodic_due then w
         else force_timeline_snapshot (snd clock) producer_pts_ns ready_head w)"

section \<open>Allocation\<close>

definition reset_allocator_state :: "writer \<Rightarrow> writer" where
  "reset_allocator_state w =
     w\<lparr>w_allocator := new_allocator (h_arena_size w),
       h_ready_head := 0,
       h_ready_tail := 0,
       h_rec_head := 0,
       h_rec_tail := 0,
       h_arena_used_bytes := 0,
       h_arena_high_watermark := 0,
       h_alloc_failures := 0,
       h_timeline_gen := h_timeline_gen w + 1,
       h_timeline_valid := 0\<rparr>"

definition drop_oldest_ready :: "writer \<Rightarrow> writer \<times> bool res" where
  "drop_oldest_ready w =
     (let cap = ucast (h_ready_capacity w);
          head = h_ready_head w;
          tail = h_ready_tail w
      in if head = tail then (w, Ok False)
         else case ring_get (ready w) tail cap of
                None \<Rightarrow> (w, Panic)
              | Some desc \<Rightarrow>
                  let allocator = fst (free_by_id (w_allocator w) (rd_buffer_id desc))
                  in (w\<lparr>w_allocator := allocator,
                        h_ready_tail := tail + 1,
                        h_arena_used_bytes := used_bytes allocator\<rparr>, Ok True))"

lemma drop_oldest_ready_dist:
  assumes "drop_oldest_ready w = (w1, Ok True)"
  shows "unat (h_ready_head w1 - h_ready_tail w1) < unat (h_ready_head w - h_ready_tail w)"
proof -
  from assms have "h_ready_head w \<noteq> h_ready_tail w" "h_ready_head w1 = h_ready_head w"
    "h_ready_tail w1 = h_ready_tail w + 1"
    by (auto simp: drop_oldest_ready_def Let_def split: if_splits option.splits)
  then have "unat (h_ready_head w1 - h_ready_tail w1) + 1 = unat (h_ready_head w - h_ready_tail w)"
    by (metis unat_dist_Suc)
  then show ?thesis by simp
qed

definition lease_of :: "writer \<Rightarrow> allocation \<Rightarrow> lease" where
  "lease_of w x =
     \<lparr>ls_buffer_id = al_buffer_id x, ls_offset = al_offset x, ls_len = al_len x,
      ls_ptr = w_arena w + al_offset x\<rparr>"

function alloc_lease :: "writer \<Rightarrow> u32 \<Rightarrow> u64 \<Rightarrow> writer \<times> lease res" where
  "alloc_lease w sz align =
     (case alloc (w_allocator w) sz align of
        Some (a, x) \<Rightarrow> (w\<lparr>w_allocator := a\<rparr>, Ok (lease_of w x))
      | None \<Rightarrow>
          (case drop_oldest_ready w of
             (w1, Ok True) \<Rightarrow> alloc_lease w1 sz align
           | (w1, Ok False) \<Rightarrow>
               let w2 = reset_allocator_state w1
               in (case alloc (w_allocator w2) sz align of
                     Some (a, x) \<Rightarrow> (w2\<lparr>w_allocator := a\<rparr>, Ok (lease_of w2 x))
                   | None \<Rightarrow> (w2\<lparr>h_alloc_failures := h_alloc_failures w2 + 1\<rparr>, Err Exhausted))
           | (w1, Err e) \<Rightarrow> (w1, Err e)
           | (w1, Panic) \<Rightarrow> (w1, Panic)))"
  by pat_completeness auto
termination
  by (relation "measure (\<lambda>(w, sz, align). unat (h_ready_head w - h_ready_tail w))")
    (auto dest!: drop_oldest_ready_dist [OF sym])

declare alloc_lease.simps [simp del]

definition free_lease :: "writer \<Rightarrow> u32 \<Rightarrow> writer \<times> bool" where
  "free_lease w buffer_id =
     (let (a, freed) = free_by_id (w_allocator w) buffer_id
      in (w\<lparr>w_allocator := a, h_arena_used_bytes := used_bytes a\<rparr>, freed))"

section \<open>Publishing\<close>

text \<open>One round of the loop of \<open>publish_lease\<close>; \<open>None\<close>: no room in the ready ring.\<close>

definition publish_lease_try :: "u64 \<times> u64 \<Rightarrow> lease \<Rightarrow> i64 \<Rightarrow> writer \<Rightarrow> (writer \<times> unit res) option" where
  "publish_lease_try clock lease pts_ns w =
     (let head = h_ready_head w;
          tail = h_ready_tail w;
          cap = ucast (h_ready_capacity w)
      in if head - tail < cap then
           Some (case ring_put (ready w) head cap
                   \<lparr>rd_seq = head + 1,
                    rd_offset = ls_offset lease,
                    rd_length = ls_len lease,
                    rd_buffer_id = ls_buffer_id lease,
                    rd_pts_ns = pts_ns,
                    rd_dts_ns = pts_ns,
                    rd_duration_ns = 0,
                    rd_flags = 0,
                    rd_checksum = 0,
                    rd_reserved = replicate 8 0\<rparr> of
                   None \<Rightarrow> (w, Panic)
                 | Some ready' \<Rightarrow>
                     let w1 = w\<lparr>ready := ready', h_ready_head := head + 1\<rparr>;
                         w2 = update_usage_metrics w1
                     in (maybe_publish_timeline_snapshot clock pts_ns (head + 1) w2, Ok ()))
         else None)"

definition publish_lease ::
    "(writer \<Rightarrow> writer) list \<Rightarrow> u64 \<times> u64 \<Rightarrow> lease \<Rightarrow> i64 \<Rightarrow> writer \<Rightarrow> (writer \<times> unit res) option" where
  "publish_lease env clock lease pts_ns w = poll_loop (publish_lease_try clock lease pts_ns) env w"

text \<open>\<open>payload.len() as u32\<close> keeps the low 32 bits.  The copy goes to the lease's pointer.\<close>

definition copy_payload :: "lease \<Rightarrow> u8 list \<Rightarrow> writer \<Rightarrow> writer" where
  "copy_payload lease payload w =
     w\<lparr>arena := write_bytes (unat (ls_ptr lease - w_arena w)) payload (arena w)\<rparr>"

definition publish ::
    "(writer \<Rightarrow> writer) list \<Rightarrow> u64 \<times> u64 \<Rightarrow> u8 list \<Rightarrow> i64 \<Rightarrow> writer \<Rightarrow> (writer \<times> u32 res) option" where
  "publish env clock payload pts_ns w =
     (case alloc_lease w (of_nat (length payload)) (w_allocator_align w) of
        (w1, Ok lease) \<Rightarrow>
          (case publish_lease env clock lease pts_ns (copy_payload lease payload w1) of
             None \<Rightarrow> None
           | Some (w3, Ok _) \<Rightarrow> Some (w3, Ok (ls_buffer_id lease))
           | Some (w3, Err e) \<Rightarrow> Some (fst (free_lease w3 (ls_buffer_id lease)), Err e)
           | Some (w3, Panic) \<Rightarrow> Some (w3, Panic))
      | (w1, Err e) \<Rightarrow> Some (w1, Err e)
      | (w1, Panic) \<Rightarrow> Some (w1, Panic))"

section \<open>Collecting what the consumer gave back\<close>

text \<open>One round of the loop of \<open>drain_recycles\<close>: the entry it collected, \<open>Ok None\<close> at the end.\<close>

definition drain_one :: "writer \<Rightarrow> writer \<times> recycle_desc option res" where
  "drain_one w =
     (let cap = ucast (h_rec_capacity w);
          head = h_rec_head w;
          tail = h_rec_tail w
      in if head = tail then (w, Ok None)
         else case ring_get (recycle w) tail cap of
                None \<Rightarrow> (w, Panic)
              | Some rec \<Rightarrow>
                  (w\<lparr>w_allocator := fst (free_by_id (w_allocator w) (rc_buffer_id rec)),
                     h_rec_tail := tail + 1\<rparr>, Ok (Some rec)))"

lemma drain_one_dist:
  assumes "drain_one w = (w1, Ok (Some rec))"
  shows "unat (h_rec_head w1 - h_rec_tail w1) < unat (h_rec_head w - h_rec_tail w)"
proof -
  from assms have "h_rec_head w \<noteq> h_rec_tail w" "h_rec_head w1 = h_rec_head w"
    "h_rec_tail w1 = h_rec_tail w + 1"
    by (auto simp: drain_one_def Let_def split: if_splits option.splits)
  then have "unat (h_rec_head w1 - h_rec_tail w1) + 1 = unat (h_rec_head w - h_rec_tail w)"
    by (metis unat_dist_Suc)
  then show ?thesis by simp
qed

function drain_loop :: "writer \<Rightarrow> writer \<times> unit res" where
  "drain_loop w =
     (case drain_one w of
        (w1, Ok (Some rec)) \<Rightarrow> drain_loop w1
      | (w1, Ok None) \<Rightarrow> (w1, Ok ())
      | (w1, Err e) \<Rightarrow> (w1, Err e)
      | (w1, Panic) \<Rightarrow> (w1, Panic))"
  by pat_completeness auto
termination
  by (relation "measure (\<lambda>w. unat (h_rec_head w - h_rec_tail w))")
    (auto dest!: drain_one_dist [OF sym])

declare drain_loop.simps [simp del]

definition drain_recycles :: "writer \<Rightarrow> writer \<times> unit res" where
  "drain_recycles w =
     (case drain_loop w of
        (w1, Ok _) \<Rightarrow> (w1\<lparr>h_arena_used_bytes := used_bytes (w_allocator w1)\<rparr>, Ok ())
      | (w1, Err e) \<Rightarrow> (w1, Err e)
      | (w1, Panic) \<Rightarrow> (w1, Panic))"

section \<open>State flags\<close>

definition set_running :: "writer \<Rightarrow> writer" where
  "set_running w = w\<lparr>h_state := STATE_RUNNING\<rparr>"

definition set_stopped :: "writer \<Rightarrow> writer" where
  "set_stopped w = w\<lparr>h_state := STATE_STOPPING\<rparr>\<lparr>h_state := STATE_STOPPED\<rparr>"

definition writer_startup_snapshot :: "writer \<Rightarrow> startup_snapshot" where
  "writer_startup_snapshot w =
     \<lparr>ss_generation = h_startup_gen w, ss_state = h_startup_state w, ss_seq = h_startup_seq w\<rparr>"

definition writer_set_startup_state :: "u64 \<Rightarrow> u32 \<Rightarrow> writer \<Rightarrow> writer \<times> bool" where
  "writer_set_startup_state generation st w =
     (if h_startup_gen w \<noteq> generation then (w, False)
      else (w\<lparr>h_startup_state := st, h_startup_seq := h_startup_seq w + 1\<rparr>, True))"

end
