(* ===== verification/Reader.thy ===== *)
theory Reader
  imports Transport Ring Polling
begin

text \<open>
  The consumer's operations, \<open>impl Reader\<close> of \<open>src/src/transport.rs\<close>, one definition per method.
  They act on any extension of the mapped region: what they do not mention they cannot change.
\<close>

section \<open>Receiving\<close>

record received_desc =
  rv_seq :: u64
  rv_buffer_id :: u32
  rv_pts_ns :: i64
  rv_dts_ns :: i64
  rv_duration_ns :: i64
  rv_flags :: u32
  rv_offset :: u64
  rv_len :: u32

record received_buffer =
  rb_seq :: u64
  rb_buffer_id :: u32
  rb_pts_ns :: i64
  rb_dts_ns :: i64
  rb_duration_ns :: i64
  rb_flags :: u32
  rb_payload :: "u8 list"
  rb_offset :: u64

definition validate_bounds :: "'a shm_scheme \<Rightarrow> u64 \<Rightarrow> usize \<Rightarrow> unit res" where
  "validate_bounds s offset len =
     (case checked_add offset len of
        None \<Rightarrow> Err (Protocol ''overflow in payload bounds'')
      | Some end' \<Rightarrow>
          if end' > h_arena_size s then Err (Protocol ''payload out of arena bounds'') else Ok ())"

definition received_of :: "ready_desc \<Rightarrow> received_desc" where
  "received_of desc =
     \<lparr>rv_seq = rd_seq desc, rv_buffer_id = rd_buffer_id desc, rv_pts_ns = rd_pts_ns desc,
      rv_dts_ns = rd_dts_ns desc, rv_duration_ns = rd_duration_ns desc, rv_flags = rd_flags desc,
      rv_offset = rd_offset desc, rv_len = rd_length desc\<rparr>"

definition try_recv_desc :: "'a shm_scheme \<Rightarrow> 'a shm_scheme \<times> received_desc option res" where
  "try_recv_desc s =
     (let cap = ucast (h_ready_capacity s);
          head = h_ready_head s;
          tail = h_ready_tail s
      in if head = tail then (s, Ok None)
         else case ring_get (ready s) tail cap of
                None \<Rightarrow> (s, Panic)
              | Some desc \<Rightarrow>
                  let out = received_of desc
                  in (case validate_bounds s (rv_offset out) (ucast (rv_len out)) of
                        Ok _ \<Rightarrow> (s\<lparr>h_ready_tail := tail + 1\<rparr>, Ok (Some out))
                      | Err e \<Rightarrow> (s, Err e)
                      | Panic \<Rightarrow> (s, Panic)))"

section \<open>Recycling\<close>

definition recycle_entry :: "u64 \<Rightarrow> u32 \<Rightarrow> u64 \<Rightarrow> u32 \<Rightarrow> u32 \<Rightarrow> recycle_desc" where
  "recycle_entry head buffer_id offset len status =
     \<lparr>rc_seq = head + 1, rc_buffer_id = buffer_id, rc_status = status, rc_offset = offset,
      rc_length = len, rc_reserved = replicate 36 0\<rparr>"

definition try_recycle_desc ::
    "u32 \<Rightarrow> u64 \<Rightarrow> u32 \<Rightarrow> u32 \<Rightarrow> 'a shm_scheme \<Rightarrow> 'a shm_scheme \<times> bool res" where
  "try_recycle_desc buffer_id offset len status s =
     (let cap = ucast (h_rec_capacity s);
          head = h_rec_head s;
          tail = h_rec_tail s
      in if head - tail \<ge> cap then (s, Ok False)
         else case ring_put (recycle s) head cap (recycle_entry head buffer_id offset len status) of
                None \<Rightarrow> (s, Panic)
              | Some recycle' \<Rightarrow> (s\<lparr>recycle := recycle', h_rec_head := head + 1\<rparr>, Ok True))"

text \<open>One round of the loop of \<open>recycle_desc\<close>; \<open>None\<close>: no room in the recycle ring.\<close>

definition recycle_desc_try ::
    "u32 \<Rightarrow> u64 \<Rightarrow> u32 \<Rightarrow> u32 \<Rightarrow> 'a shm_scheme \<Rightarrow> ('a shm_scheme \<times> unit res) option" where
  "recycle_desc_try buffer_id offset len status s =
     (let cap = ucast (h_rec_capacity s);
          head = h_rec_head s;
          tail = h_rec_tail s
      in if head - tail < cap then
           Some (case ring_put (recycle s) head cap (recycle_entry head buffer_id offset len status) of
                   None \<Rightarrow> (s, Panic)
                 | Some recycle' \<Rightarrow> (s\<lparr>recycle := recycle', h_rec_head := head + 1\<rparr>, Ok ()))
         else None)"

definition recycle_desc ::
    "('a shm_scheme \<Rightarrow> 'a shm_scheme) list \<Rightarrow> u32 \<Rightarrow> u64 \<Rightarrow> u32 \<Rightarrow> u32 \<Rightarrow> 'a shm_scheme \<Rightarrow>
     ('a shm_scheme \<times> unit res) option" where
  "recycle_desc env buffer_id offset len status s =
     poll_loop (recycle_desc_try buffer_id offset len status) env s"

definition recycle_buffer ::
    "('a shm_scheme \<Rightarrow> 'a shm_scheme) list \<Rightarrow> received_buffer \<Rightarrow> 'a shm_scheme \<Rightarrow>
     ('a shm_scheme \<times> unit res) option" where
  "recycle_buffer env buf s =
     recycle_desc env (rb_buffer_id buf) (rb_offset buf) (of_nat (length (rb_payload buf))) 0 s"

section \<open>Live reception\<close>

text \<open>The loop of \<open>try_recv_latest_desc\<close> that gives the entries before \<open>chosen\<close> back.\<close>

function recycle_until ::
    "u64 \<Rightarrow> u64 \<Rightarrow> u64 \<Rightarrow> 'a shm_scheme \<Rightarrow> 'a shm_scheme \<times> u64 res" where
  "recycle_until cur chosen dropped s =
     (if cur < chosen then
        (case ring_get (ready s) cur (ucast (h_ready_capacity s)) of
           None \<Rightarrow> (s, Panic)
         | Some desc \<Rightarrow>
             (case try_recycle_desc (rd_buffer_id desc) (rd_offset desc) (rd_length desc) 1 s of
                (s1, Ok True) \<Rightarrow> recycle_until (cur + 1) chosen (dropped + 1) s1
              | (s1, Ok False) \<Rightarrow> (s1, Ok dropped)
              | (s1, Err e) \<Rightarrow> (s1, Err e)
              | (s1, Panic) \<Rightarrow> (s1, Panic)))
      else (s, Ok dropped))"
  by pat_completeness auto
termination
by (relation "measure (\<lambda>(cur, chosen, dropped, s). unat chosen - unat cur)")
    (auto simp: word_less_nat_alt unat_succ_less)

declare recycle_until.simps [simp del]

definition try_recv_latest_desc ::
    "'a shm_scheme \<Rightarrow> 'a shm_scheme \<times> (received_desc \<times> u64) option res" where
  "try_recv_latest_desc s =
     (let cap = ucast (h_ready_capacity s);
          head = h_ready_head s;
          tail = h_ready_tail s
      in if head = tail then (s, Ok None)
         else
           let len = saturating_sub head tail;
               chosen = (if len = 1 then tail else head - 2);
               looped = (if len = 1 then (s, Ok 0) else recycle_until tail chosen 0 s)
           in (case looped of
                 (s1, Ok dropped) \<Rightarrow>
                   (case ring_get (ready s1) chosen cap of
                      None \<Rightarrow> (s1, Panic)
                    | Some chosen_desc \<Rightarrow>
                        let out = received_of chosen_desc
                        in (case validate_bounds s1 (rv_offset out) (ucast (rv_len out)) of
                              Ok _ \<Rightarrow>
                                let new_tail = (if len \<le> 1 then head else head - 1)
                                in (s1\<lparr>h_ready_tail := new_tail\<rparr>, Ok (Some (out, dropped)))
                            | Err e \<Rightarrow> (s1, Err e)
                            | Panic \<Rightarrow> (s1, Panic)))
               | (s1, Err e) \<Rightarrow> (s1, Err e)
               | (s1, Panic) \<Rightarrow> (s1, Panic)))"

section \<open>Payloads\<close>

text \<open>The pointer to a payload, relative to the reader's arena.\<close>

definition payload_ptr :: "'a shm_scheme \<Rightarrow> received_desc \<Rightarrow> usize res" where
  "payload_ptr s desc =
     res_bind (validate_bounds s (rv_offset desc) (ucast (rv_len desc))) (\<lambda>_. Ok (rv_offset desc))"

text \<open>One round of the loops of \<open>recv_blocking\<close> and \<open>recv_desc_blocking\<close>.\<close>

definition recv_try :: "'a shm_scheme \<Rightarrow> ('a shm_scheme \<times> received_buffer res) option" where
  "recv_try s =
     (case try_recv_desc s of
        (s1, Ok None) \<Rightarrow> None
      | (s1, Ok (Some desc)) \<Rightarrow>
          Some (case payload_ptr s1 desc of
                  Ok ptr \<Rightarrow>
                    (s1, Ok \<lparr>rb_seq = rv_seq desc, rb_buffer_id = rv_buffer_id desc,
                             rb_pts_ns = rv_pts_ns desc, rb_dts_ns = rv_dts_ns desc,
                             rb_duration_ns = rv_duration_ns desc, rb_flags = rv_flags desc,
                             rb_payload = read_bytes (unat ptr) (unat (rv_len desc)) (arena s1),
                             rb_offset = rv_offset desc\<rparr>)
                | Err e \<Rightarrow> (s1, Err e)
                | Panic \<Rightarrow> (s1, Panic))
      | (s1, Err e) \<Rightarrow> Some (s1, Err e)
      | (s1, Panic) \<Rightarrow> Some (s1, Panic))"

definition recv_blocking ::
    "('a shm_scheme \<Rightarrow> 'a shm_scheme) list \<Rightarrow> 'a shm_scheme \<Rightarrow> ('a shm_scheme \<times> received_buffer res) option" where
  "recv_blocking env s = poll_loop recv_try env s"

definition recv_desc_try :: "'a shm_scheme \<Rightarrow> ('a shm_scheme \<times> received_desc res) option" where
  "recv_desc_try s =
     (case try_recv_desc s of
        (s1, Ok None) \<Rightarrow> None
      | (s1, Ok (Some desc)) \<Rightarrow> Some (s1, Ok desc)
      | (s1, Err e) \<Rightarrow> Some (s1, Err e)
      | (s1, Panic) \<Rightarrow> Some (s1, Panic))"

definition recv_desc_blocking ::
    "('a shm_scheme \<Rightarrow> 'a shm_scheme) list \<Rightarrow> 'a shm_scheme \<Rightarrow> ('a shm_scheme \<times> received_desc res) option" where
  "recv_desc_blocking env s = poll_loop recv_desc_try env s"

section \<open>Snapshots and start-up\<close>

record snapshot =
  ts_generation :: u64
  ts_snapshot_gen :: u64
  ts_valid :: bool
  ts_seq :: u64
  ts_sink_mono_ns :: u64
  ts_producer_pts_ns :: i64
  ts_ready_head :: u64

definition timeline_snapshot :: "'a shm_scheme \<Rightarrow> snapshot" where
  "timeline_snapshot s =
     \<lparr>ts_generation = h_timeline_gen s,
      ts_snapshot_gen = h_timeline_snapshot_gen s,
      ts_valid = (h_timeline_valid s \<noteq> 0),
      ts_seq = h_timeline_seq s,
      ts_sink_mono_ns = h_timeline_sink_mono_ns s,
      ts_producer_pts_ns = h_timeline_producer_pts_ns s,
      ts_ready_head = h_timeline_ready_head s\<rparr>"

definition reader_startup_snapshot :: "'a shm_scheme \<Rightarrow> startup_snapshot" where
  "reader_startup_snapshot s =
     \<lparr>ss_generation = h_startup_gen s, ss_state = h_startup_state s, ss_seq = h_startup_seq s\<rparr>"

definition reader_set_startup_state :: "u64 \<Rightarrow> u32 \<Rightarrow> 'a shm_scheme \<Rightarrow> 'a shm_scheme \<times> bool" where
  "reader_set_startup_state generation st s =
     (if h_startup_gen s \<noteq> generation then (s, False)
      else (s\<lparr>h_startup_state := st, h_startup_seq := h_startup_seq s + 1\<rparr>, True))"

definition sync_startup_state :: "'a shm_scheme \<Rightarrow> 'a shm_scheme" where
  "sync_startup_state s =
     (let head = h_ready_head s
      in s\<lparr>h_ready_tail := head,
           h_timeline_gen := h_timeline_gen s + 1,
           h_timeline_valid := 0,
           h_startup_gen := h_startup_gen s + 1,
           h_startup_state := STARTUP_SINK_READY,
           h_startup_seq := h_startup_seq s + 1\<rparr>)"

end
