(* ===== verification/Queues.thy ===== *)
theory Queues
  imports Writer Reader
begin

text \<open>
  The two rings of a region as queues: the ready ring, filled by \<open>publish_lease\<close> and emptied by
  \<open>try_recv_desc\<close>, and the recycle ring, filled by \<open>try_recycle_desc\<close> and emptied by
  \<open>drain_recycles\<close>.  Both are interpretations of \<open>bounded_queue\<close>; the properties of the rings
  rest on them.
\<close>

section \<open>What the bookkeeping after a publish leaves alone\<close>

named_theorems writer_frame

lemma update_usage_metrics_frame [writer_frame, simp]:
  "ready (update_usage_metrics w) = ready w"
  "recycle (update_usage_metrics w) = recycle w"
  "arena (update_usage_metrics w) = arena w"
  "h_ready_capacity (update_usage_metrics w) = h_ready_capacity w"
  "h_ready_head (update_usage_metrics w) = h_ready_head w"
  "h_ready_tail (update_usage_metrics w) = h_ready_tail w"
  "h_rec_capacity (update_usage_metrics w) = h_rec_capacity w"
  "h_rec_head (update_usage_metrics w) = h_rec_head w"
  "h_rec_tail (update_usage_metrics w) = h_rec_tail w"
  "h_arena_size (update_usage_metrics w) = h_arena_size w"
  "w_allocator (update_usage_metrics w) = w_allocator w"
  "w_region (update_usage_metrics w) = w_region w"
  "w_layout (update_usage_metrics w) = w_layout w"
  "w_allocator_align (update_usage_metrics w) = w_allocator_align w"
  by (simp_all add: update_usage_metrics_def Let_def)

lemma maybe_publish_timeline_snapshot_frame [writer_frame, simp]:
  "ready (maybe_publish_timeline_snapshot c p h w) = ready w"
  "recycle (maybe_publish_timeline_snapshot c p h w) = recycle w"
  "arena (maybe_publish_timeline_snapshot c p h w) = arena w"
  "h_ready_capacity (maybe_publish_timeline_snapshot c p h w) = h_ready_capacity w"
  "h_ready_head (maybe_publish_timeline_snapshot c p h w) = h_ready_head w"
  "h_ready_tail (maybe_publish_timeline_snapshot c p h w) = h_ready_tail w"
  "h_rec_capacity (maybe_publish_timeline_snapshot c p h w) = h_rec_capacity w"
  "h_rec_head (maybe_publish_timeline_snapshot c p h w) = h_rec_head w"
  "h_rec_tail (maybe_publish_timeline_snapshot c p h w) = h_rec_tail w"
  "h_arena_size (maybe_publish_timeline_snapshot c p h w) = h_arena_size w"
  "h_arena_used_bytes (maybe_publish_timeline_snapshot c p h w) = h_arena_used_bytes w"
  "h_arena_high_watermark (maybe_publish_timeline_snapshot c p h w) = h_arena_high_watermark w"
  "w_allocator (maybe_publish_timeline_snapshot c p h w) = w_allocator w"
  "w_region (maybe_publish_timeline_snapshot c p h w) = w_region w"
  "w_layout (maybe_publish_timeline_snapshot c p h w) = w_layout w"
  "w_allocator_align (maybe_publish_timeline_snapshot c p h w) = w_allocator_align w"
  by (simp_all add: maybe_publish_timeline_snapshot_def force_timeline_snapshot_def Let_def)

lemma validate_bounds_Ok:
  "validate_bounds s off len = Ok () \<longleftrightarrow> unat off + unat len \<le> unat (h_arena_size s)"
proof (cases "unat off + unat len < 2 ^ 64")
  case True
  then have "checked_add off len = Some (off + len)" "unat (off + len) = unat off + unat len"
    by (simp_all add: checked_add_def unat_add_no_overflow)
  then show ?thesis by (simp add: validate_bounds_def word_less_nat_alt linorder_not_less)
next
  case False
  then have "checked_add off len = None" by (simp add: checked_add_def)
  then show ?thesis using False unat_u64_less [of "h_arena_size s"] by (simp add: validate_bounds_def)
qed

lemma validate_bounds_not_Panic [simp]: "validate_bounds s off len \<noteq> Panic"
  by (simp add: validate_bounds_def split: option.split)

section \<open>The ready ring\<close>

type_synonym frame = "u32 \<times> u64 \<times> u32 \<times> i64"

text \<open>What the consumer is handed: buffer id, offset, length and time stamp.\<close>

definition frame_of :: "ready_desc \<Rightarrow> frame" where
  "frame_of d = (rd_buffer_id d, rd_offset d, rd_length d, rd_pts_ns d)"

definition received_frame :: "received_desc \<Rightarrow> frame" where
  "received_frame d = (rv_buffer_id d, rv_offset d, rv_len d, rv_pts_ns d)"

definition offered_frame :: "lease \<times> i64 \<times> u64 \<times> u64 \<Rightarrow> frame" where
  "offered_frame x = (case x of (lease, pts, clock) \<Rightarrow>
     (ls_buffer_id lease, ls_offset lease, ls_len lease, pts))"

definition ready_entries :: "'a shm_scheme \<Rightarrow> ready_desc list" where
  "ready_entries s = ring_list (ready s) (h_ready_head s) (h_ready_tail s) (ucast (h_ready_capacity s))"

definition ready_queue :: "'a shm_scheme \<Rightarrow> frame list" where
  "ready_queue s = map frame_of (ready_entries s)"

definition desc_in_arena :: "'a shm_scheme \<Rightarrow> ready_desc \<Rightarrow> bool" where
  "desc_in_arena s d \<longleftrightarrow> unat (rd_offset d) + unat (rd_length d) \<le> unat (h_arena_size s)"

definition ready_ok :: "'a shm_scheme \<Rightarrow> bool" where
  "ready_ok s \<longleftrightarrow>
     ring_ok (ready s) (h_ready_head s) (h_ready_tail s) (ucast (h_ready_capacity s)) \<and>
     (\<forall>d\<in>set (ready_entries s). desc_in_arena s d) \<and>
     map (unat \<circ> rd_seq) (ready_entries s) = [Suc (unat (h_ready_tail s))..<Suc (unat (h_ready_head s))]"

definition ready_push :: "writer \<Rightarrow> lease \<times> i64 \<times> u64 \<times> u64 \<Rightarrow> writer option" where
  "ready_push w x = (case x of (lease, pts, clock) \<Rightarrow>
     (case publish_lease_try clock lease pts w of Some (w', Ok _) \<Rightarrow> Some w' | _ \<Rightarrow> None))"

definition ready_pop :: "'a shm_scheme \<Rightarrow> ('a shm_scheme \<times> frame) option" where
  "ready_pop s = (case try_recv_desc s of (s', Ok (Some d)) \<Rightarrow> Some (s', received_frame d) | _ \<Rightarrow> None)"

definition lease_in_arena :: "'a shm_scheme \<Rightarrow> lease \<times> i64 \<times> u64 \<times> u64 \<Rightarrow> bool" where
  "lease_in_arena s x \<longleftrightarrow>
     unat (ls_offset (fst x)) + unat (ls_len (fst x)) \<le> unat (h_arena_size s)"

text \<open>The descriptor \<open>publish_lease\<close> writes.\<close>

definition ready_entry :: "u64 \<Rightarrow> lease \<Rightarrow> i64 \<Rightarrow> ready_desc" where
  "ready_entry head lease pts =
     \<lparr>rd_seq = head + 1, rd_offset = ls_offset lease, rd_length = ls_len lease,
      rd_buffer_id = ls_buffer_id lease, rd_pts_ns = pts, rd_dts_ns = pts, rd_duration_ns = 0,
      rd_flags = 0, rd_checksum = 0, rd_reserved = replicate 8 0\<rparr>"

lemma publish_lease_try_None:
  "publish_lease_try clock lease pts w = None \<longleftrightarrow>
     \<not> h_ready_head w - h_ready_tail w < ucast (h_ready_capacity w)"
  by (simp add: publish_lease_try_def Let_def)

lemma publish_lease_try_room:
  assumes "ready_ok w" "h_ready_head w - h_ready_tail w < ucast (h_ready_capacity w)"
  shows "publish_lease_try clock lease pts w =
    Some (maybe_publish_timeline_snapshot clock pts (h_ready_head w + 1)
            (update_usage_metrics
               (w\<lparr>ready := (ready w)[unat (h_ready_head w) mod unat (h_ready_capacity w) :=
                              ready_entry (h_ready_head w) lease pts],
                  h_ready_head := h_ready_head w + 1\<rparr>)), Ok ())"
proof -
  have "ring_ok (ready w) (h_ready_head w) (h_ready_tail w) (ucast (h_ready_capacity w))"
    using assms(1) by (simp add: ready_ok_def)
  from ring_put_Some [OF this] assms(2) show ?thesis
    by (simp add: publish_lease_try_def Let_def ready_entry_def)
qed

lemma ready_room_iff:
  "ready_ok w \<Longrightarrow> h_ready_head w - h_ready_tail w < ucast (h_ready_capacity w) \<longleftrightarrow>
     length (ready_queue w) < unat (h_ready_capacity w)"
  using ring_full_iff [of "ready w" "h_ready_head w" "h_ready_tail w" "ucast (h_ready_capacity w)"]
  by (simp add: ready_ok_def ready_queue_def ready_entries_def)

lemma publish_lease_try_queue:
  assumes ok: "ready_ok w" and room: "length (ready_queue w) < unat (h_ready_capacity w)"
    and wrap: "unat (h_ready_head w) + 1 < 2 ^ 64" and valid: "lease_in_arena w (lease, pts, clock)"
    and p: "publish_lease_try clock lease pts w = Some (w', r)"
  shows "r = Ok ()" and "ready_ok w'" and "ready_queue w' = ready_queue w @ [offered_frame (lease, pts, clock)]"
    and "h_ready_head w' = h_ready_head w + 1"
    and "h_ready_capacity w' = h_ready_capacity w" and "h_arena_size w' = h_arena_size w"
    and "w_allocator w' = w_allocator w" and "arena w' = arena w"
    and "h_ready_tail w' = h_ready_tail w"
proof -
  have room': "h_ready_head w - h_ready_tail w < ucast (h_ready_capacity w)"
    using room ready_room_iff [OF ok] by simp
  have ring: "ring_ok (ready w) (h_ready_head w) (h_ready_tail w) (ucast (h_ready_capacity w))"
    using ok by (simp add: ready_ok_def)
  let ?e = "ready_entry (h_ready_head w) lease pts"
  note w' = p [unfolded publish_lease_try_room [OF ok room']]
  show "r = Ok ()" "h_ready_head w' = h_ready_head w + 1" "h_ready_capacity w' = h_ready_capacity w"
    "h_arena_size w' = h_arena_size w" "w_allocator w' = w_allocator w" "arena w' = arena w"
    "h_ready_tail w' = h_ready_tail w"
    using w' by auto
  note push = ring_push [OF ring room' wrap, of ?e]
  have entries: "ready_entries w' = ready_entries w @ [?e]"
    using w' push(2) by (auto simp: ready_entries_def)
  have u: "unat (h_ready_head w + 1) = unat (h_ready_head w) + 1" by (rule unat_succ [OF wrap])
  have le: "unat (h_ready_tail w) \<le> unat (h_ready_head w)" using ring by (simp add: ring_ok_def)
  have hd: "h_ready_head w' = h_ready_head w + 1" "h_ready_tail w' = h_ready_tail w" using w' by auto
  show "ready_ok w'" unfolding ready_ok_def
  proof (intro conjI)
    show "ring_ok (ready w') (h_ready_head w') (h_ready_tail w') (ucast (h_ready_capacity w'))"
      using w' push(1) by auto
    show "\<forall>d\<in>set (ready_entries w'). desc_in_arena w' d"
      using ok valid \<open>h_arena_size w' = h_arena_size w\<close>
      by (simp add: entries desc_in_arena_def ready_ok_def lease_in_arena_def ready_entry_def)
    have "map (unat \<circ> rd_seq) (ready_entries w') =
        [Suc (unat (h_ready_tail w))..<Suc (unat (h_ready_head w))] @ [unat (h_ready_head w) + 1]"
      using ok by (simp add: entries ready_entry_def u ready_ok_def del: upt_Suc)
    also have "\<dots> = [Suc (unat (h_ready_tail w'))..<Suc (unat (h_ready_head w'))]"
      using le by (simp add: hd u)
    finally show "map (unat \<circ> rd_seq) (ready_entries w') = \<dots>" .
  qed
  show "ready_queue w' = ready_queue w @ [offered_frame (lease, pts, clock)]"
    by (simp add: ready_queue_def entries frame_of_def offered_frame_def ready_entry_def)
qed

lemma try_recv_desc_empty:
  "ready_ok s \<Longrightarrow> ready_queue s = [] \<Longrightarrow> try_recv_desc s = (s, Ok None)"
  using ring_empty_iff [of "ready s" "h_ready_head s" "h_ready_tail s" "ucast (h_ready_capacity s)"]
  by (simp add: try_recv_desc_def ready_queue_def ready_entries_def ready_ok_def)

lemma try_recv_desc_some:
  assumes ok: "ready_ok s" and q: "ready_entries s = d # ds"
  shows "try_recv_desc s = (s\<lparr>h_ready_tail := h_ready_tail s + 1\<rparr>, Ok (Some (received_of d)))"
    and "ready_ok (s\<lparr>h_ready_tail := h_ready_tail s + 1\<rparr>)"
    and "ready_entries (s\<lparr>h_ready_tail := h_ready_tail s + 1\<rparr>) = ds"
    and "unat (rd_seq d) = unat (h_ready_tail s) + 1"
proof -
  have ring: "ring_ok (ready s) (h_ready_head s) (h_ready_tail s) (ucast (h_ready_capacity s))"
    using ok by (simp add: ready_ok_def)
  have ne: "h_ready_head s \<noteq> h_ready_tail s" using q by (auto simp: ready_entries_def)
  note pop = ring_pop [OF ring ne]
  have d: "d = ready s ! (unat (h_ready_tail s) mod unat (h_ready_capacity s))"
    and ds: "ready_entries (s\<lparr>h_ready_tail := h_ready_tail s + 1\<rparr>) = ds"
    using pop(2) q by (simp_all add: ready_entries_def)
  have "desc_in_arena s d" using ok q by (simp add: ready_ok_def)
  then have "validate_bounds s (rd_offset d) (ucast (rd_length d)) = Ok ()"
    by (simp add: validate_bounds_Ok desc_in_arena_def)
  then show "try_recv_desc s = (s\<lparr>h_ready_tail := h_ready_tail s + 1\<rparr>, Ok (Some (received_of d)))"
    using ne ring_get_Some [OF ring, of "h_ready_tail s"]
    by (simp add: try_recv_desc_def d [symmetric] received_of_def)
  show "ready_entries (s\<lparr>h_ready_tail := h_ready_tail s + 1\<rparr>) = ds" by (rule ds)
  have lt: "unat (h_ready_tail s) < unat (h_ready_head s)"
    using ring ne by (auto simp: ring_ok_def word_unat_eq_iff)
  have seq: "map (unat \<circ> rd_seq) (d # ds) = [Suc (unat (h_ready_tail s))..<Suc (unat (h_ready_head s))]"
    using ok q by (simp add: ready_ok_def)
  then show "unat (rd_seq d) = unat (h_ready_tail s) + 1" using lt
    by (simp add: upt_conv_Cons del: upt_Suc)
  have "map (unat \<circ> rd_seq) ds = [Suc (unat (h_ready_tail s + 1))..<Suc (unat (h_ready_head s))]"
    using seq lt by (simp add: upt_conv_Cons unat_succ_less [OF lt] del: upt_Suc)
  then show "ready_ok (s\<lparr>h_ready_tail := h_ready_tail s + 1\<rparr>)"
    using ok pop(1) q by (simp add: ready_ok_def ds desc_in_arena_def del: upt_Suc)
qed

interpretation ready_ring: bounded_queue ready_push ready_pop offered_frame ready_queue
  "\<lambda>w. unat (h_ready_capacity w)" "\<lambda>n w. ready_ok w \<and> unat (h_ready_head w) + n < 2 ^ 64" lease_in_arena
proof unfold_locales
  fix n and w :: writer and x :: "lease \<times> i64 \<times> u64 \<times> u64"
  assume ok: "ready_ok w \<and> unat (h_ready_head w) + Suc n < 2 ^ 64"
  obtain lease pts clock where x: "x = (lease, pts, clock)" by (cases x) auto
  show "ready_ok w \<and> unat (h_ready_head w) + n < 2 ^ 64" using ok by simp
  show "ready_push w x = None" if "unat (h_ready_capacity w) \<le> length (ready_queue w)"
    using that ok ready_room_iff [of w] publish_lease_try_None [of clock lease pts w]
    by (simp add: ready_push_def x)
  show "\<exists>s'. ready_push w x = Some s' \<and> (ready_ok s' \<and> unat (h_ready_head s') + n < 2 ^ 64) \<and>
      ready_queue s' = ready_queue w @ [offered_frame x] \<and>
      unat (h_ready_capacity s') = unat (h_ready_capacity w) \<and> lease_in_arena s' = lease_in_arena w"
    if v: "lease_in_arena w x" and r: "length (ready_queue w) < unat (h_ready_capacity w)"
  proof -
    have wrap: "unat (h_ready_head w) + 1 < 2 ^ 64" using ok by simp
    have "publish_lease_try clock lease pts w \<noteq> None"
      using r ready_room_iff [of w] ok publish_lease_try_None [of clock lease pts w] by simp
    then obtain w' r' where p: "publish_lease_try clock lease pts w = Some (w', r')" by auto
    note q = publish_lease_try_queue [OF conjunct1 [OF ok] r wrap v [unfolded x] p]
    show ?thesis
      using q p ok by (auto simp: ready_push_def x unat_succ [OF wrap] lease_in_arena_def fun_eq_iff)
  qed
  show "ready_pop w = None" if "ready_queue w = []"
    using try_recv_desc_empty [of w] that ok by (simp add: ready_pop_def)
  show "\<exists>s'. ready_pop w = Some (s', y) \<and> (ready_ok s' \<and> unat (h_ready_head s') + n < 2 ^ 64) \<and>
      ready_queue s' = ys \<and> unat (h_ready_capacity s') = unat (h_ready_capacity w) \<and>
      lease_in_arena s' = lease_in_arena w" if "ready_queue w = y # ys" for y ys
  proof -
    from that obtain d ds where q: "ready_entries w = d # ds" "frame_of d = y" "map frame_of ds = ys"
      by (auto simp: ready_queue_def)
    note t = try_recv_desc_some [OF conjunct1 [OF ok] q(1)]
    have "received_frame (received_of d) = y"
      using q(2) by (simp add: received_frame_def received_of_def frame_of_def)
    then show ?thesis
      using t(2) ok q(3) by (auto simp: ready_pop_def t(1) ready_queue_def t(3) lease_in_arena_def fun_eq_iff)
  qed
next
  fix n and w :: writer
  assume "ready_ok w \<and> unat (h_ready_head w) + n < 2 ^ 64"
  then show "length (ready_queue w) \<le> unat (h_ready_capacity w)"
    by (auto simp: ready_ok_def ready_queue_def ready_entries_def ring_ok_def)
qed


text \<open>
  C12: the ready ring is a first-in-first-out queue. However the producer's \<open>publish_lease\<close>
  and the consumer's \<open>try_recv_desc\<close> take turns, the frames waiting at the start followed by the
  frames published are the frames received followed by the frames still waiting: none is lost,
  invented, duplicated or reordered, and never more than the capacity wait. (Each step is a whole
  call; the producer's own drops and resets are not in the schedule.)
\<close>

theorem ready_ring_fifo:
  assumes "ready_ok w" and "unat (h_ready_head w) + length ops < 2 ^ 64"
    and "\<forall>x\<in>set ops. op_valid (lease_in_arena w) x"
    and "queue_run ready_push ready_pop w ops = (w', published, received)"
  shows "ready_queue w @ map offered_frame published = received @ ready_queue w' \<and>
    length (ready_queue w') \<le> unat (h_ready_capacity w)"
  using assms by (intro ready_ring.run_fifo) auto

section \<open>The recycle ring\<close>

type_synonym returned = "u32 \<times> u64 \<times> u32 \<times> u32"

definition returned_of :: "recycle_desc \<Rightarrow> returned" where
  "returned_of d = (rc_buffer_id d, rc_offset d, rc_length d, rc_status d)"

definition rec_entries :: "'a shm_scheme \<Rightarrow> recycle_desc list" where
  "rec_entries s = ring_list (recycle s) (h_rec_head s) (h_rec_tail s) (ucast (h_rec_capacity s))"

definition rec_queue :: "'a shm_scheme \<Rightarrow> returned list" where
  "rec_queue s = map returned_of (rec_entries s)"

definition rec_ok :: "'a shm_scheme \<Rightarrow> bool" where
  "rec_ok s \<longleftrightarrow> ring_ok (recycle s) (h_rec_head s) (h_rec_tail s) (ucast (h_rec_capacity s))"

definition rec_push :: "'a shm_scheme \<Rightarrow> returned \<Rightarrow> 'a shm_scheme option" where
  "rec_push s x = (case x of (buffer_id, offset, len, status) \<Rightarrow>
     (case try_recycle_desc buffer_id offset len status s of (s', Ok True) \<Rightarrow> Some s' | _ \<Rightarrow> None))"

definition rec_pop :: "writer \<Rightarrow> (writer \<times> returned) option" where
  "rec_pop w = (case drain_one w of (w', Ok (Some d)) \<Rightarrow> Some (w', returned_of d) | _ \<Rightarrow> None)"

lemma rec_room_iff:
  "rec_ok s \<Longrightarrow> h_rec_head s - h_rec_tail s < ucast (h_rec_capacity s) \<longleftrightarrow>
     length (rec_queue s) < unat (h_rec_capacity s)"
  using ring_full_iff [of "recycle s" "h_rec_head s" "h_rec_tail s" "ucast (h_rec_capacity s)"]
  by (simp add: rec_ok_def rec_queue_def rec_entries_def)

text \<open>The two ways of giving a buffer back, blocking and not, do the same when there is room.\<close>

lemma recycle_desc_try_eq:
  "recycle_desc_try i off len st s =
     (case try_recycle_desc i off len st s of
        (s', Ok True) \<Rightarrow> Some (s', Ok ()) | (s', Panic) \<Rightarrow> Some (s', Panic) | _ \<Rightarrow> None)"
  by (simp add: recycle_desc_try_def try_recycle_desc_def Let_def linorder_not_less split: option.split)

lemma try_recycle_desc_full:
  "\<not> h_rec_head s - h_rec_tail s < ucast (h_rec_capacity s) \<Longrightarrow>
   try_recycle_desc i off len st s = (s, Ok False)"
  by (simp add: try_recycle_desc_def Let_def linorder_not_less)

lemma try_recycle_desc_room:
  assumes "rec_ok s" "h_rec_head s - h_rec_tail s < ucast (h_rec_capacity s)"
  shows "try_recycle_desc i off len st s =
    (s\<lparr>recycle := (recycle s)[unat (h_rec_head s) mod unat (h_rec_capacity s) :=
                     recycle_entry (h_rec_head s) i off len st],
       h_rec_head := h_rec_head s + 1\<rparr>, Ok True)"
  using ring_put_Some [OF assms(1) [unfolded rec_ok_def]] assms(2)
  by (simp add: try_recycle_desc_def Let_def linorder_not_le)

lemma try_recycle_desc_queue:
  assumes ok: "rec_ok s" and room: "length (rec_queue s) < unat (h_rec_capacity s)"
    and wrap: "unat (h_rec_head s) + 1 < 2 ^ 64"
  obtains s' where "try_recycle_desc i off len st s = (s', Ok True)" "rec_ok s'"
    "rec_queue s' = rec_queue s @ [(i, off, len, st)]" "h_rec_head s' = h_rec_head s + 1"
    "h_rec_tail s' = h_rec_tail s" "h_rec_capacity s' = h_rec_capacity s"
    "s' = s\<lparr>recycle := recycle s', h_rec_head := h_rec_head s'\<rparr>"
proof -
  have room': "h_rec_head s - h_rec_tail s < ucast (h_rec_capacity s)"
    using room rec_room_iff [OF ok] by simp
  note push = ring_push [OF ok [unfolded rec_ok_def] room' wrap, of "recycle_entry (h_rec_head s) i off len st"]
  show ?thesis
    by (rule that [OF try_recycle_desc_room [OF ok room']])
      (use push in \<open>simp_all add: rec_ok_def rec_queue_def rec_entries_def returned_of_def recycle_entry_def\<close>)
qed

lemma drain_one_empty: "rec_ok w \<Longrightarrow> rec_queue w = [] \<Longrightarrow> drain_one w = (w, Ok None)"
  using ring_empty_iff [of "recycle w" "h_rec_head w" "h_rec_tail w" "ucast (h_rec_capacity w)"]
  by (simp add: drain_one_def rec_queue_def rec_entries_def rec_ok_def)

lemma drain_one_some:
  assumes ok: "rec_ok w" and q: "rec_entries w = d # ds"
  defines "w' \<equiv> w\<lparr>w_allocator := fst (free_by_id (w_allocator w) (rc_buffer_id d)),
                  h_rec_tail := h_rec_tail w + 1\<rparr>"
  shows "drain_one w = (w', Ok (Some d))" and "rec_ok w'" and "rec_entries w' = ds"
proof -
  note ring = ok [unfolded rec_ok_def]
  have ne: "h_rec_head w \<noteq> h_rec_tail w" using q by (auto simp: rec_entries_def)
  note pop = ring_pop [OF ring ne]
  have d: "d = recycle w ! (unat (h_rec_tail w) mod unat (h_rec_capacity w))" "rec_entries w' = ds"
    using pop(2) q by (simp_all add: rec_entries_def w'_def)
  then show "drain_one w = (w', Ok (Some d))" "rec_entries w' = ds"
    using ne ring_get_Some [OF ring, of "h_rec_tail w"] by (simp_all add: drain_one_def w'_def Let_def)
  show "rec_ok w'" using pop(1) by (simp add: rec_ok_def w'_def)
qed

interpretation recycle_ring: bounded_queue rec_push rec_pop "\<lambda>x. x" rec_queue
  "\<lambda>w. unat (h_rec_capacity w)" "\<lambda>n w. rec_ok w \<and> unat (h_rec_head w) + n < 2 ^ 64" "\<lambda>w x. True"
proof unfold_locales
  fix n and w :: writer and x :: returned
  assume ok: "rec_ok w \<and> unat (h_rec_head w) + Suc n < 2 ^ 64"
  obtain i off len st where x: "x = (i, off, len, st)" by (cases x) auto
  show "rec_ok w \<and> unat (h_rec_head w) + n < 2 ^ 64" using ok by simp
  show "rec_push w x = None" if "unat (h_rec_capacity w) \<le> length (rec_queue w)"
  proof -
    have "\<not> h_rec_head w - h_rec_tail w < ucast (h_rec_capacity w)"
      using that ok rec_room_iff [of w] by simp
    then show ?thesis by (simp add: rec_push_def x try_recycle_desc_full)
  qed
  show "\<exists>s'. rec_push w x = Some s' \<and> (rec_ok s' \<and> unat (h_rec_head s') + n < 2 ^ 64) \<and>
      rec_queue s' = rec_queue w @ [x] \<and> unat (h_rec_capacity s') = unat (h_rec_capacity w) \<and>
      (\<lambda>x :: returned. True) = (\<lambda>x. True)"
    if r: "length (rec_queue w) < unat (h_rec_capacity w)"
  proof -
    have wrap: "unat (h_rec_head w) + 1 < 2 ^ 64" using ok by simp
    obtain w' where "try_recycle_desc i off len st w = (w', Ok True)" "rec_ok w'"
      "rec_queue w' = rec_queue w @ [(i, off, len, st)]" "h_rec_head w' = h_rec_head w + 1"
      "h_rec_capacity w' = h_rec_capacity w"
      by (rule try_recycle_desc_queue [OF conjunct1 [OF ok] r wrap]) blast
    then show ?thesis using ok by (auto simp: rec_push_def x unat_succ [OF wrap])
  qed
  show "rec_pop w = None" if "rec_queue w = []"
    using drain_one_empty [of w] that ok by (simp add: rec_pop_def)
  show "\<exists>s'. rec_pop w = Some (s', y) \<and> (rec_ok s' \<and> unat (h_rec_head s') + n < 2 ^ 64) \<and>
      rec_queue s' = ys \<and> unat (h_rec_capacity s') = unat (h_rec_capacity w) \<and>
      (\<lambda>x :: returned. True) = (\<lambda>x. True)" if "rec_queue w = y # ys" for y ys
  proof -
    from that obtain d ds where q: "rec_entries w = d # ds" "returned_of d = y" "map returned_of ds = ys"
      by (auto simp: rec_queue_def)
    note t = drain_one_some [OF conjunct1 [OF ok] q(1)]
    show ?thesis using t(2) ok q(2,3) by (auto simp: rec_pop_def t(1) rec_queue_def t(3))
  qed
next
  fix n and w :: writer
  assume "rec_ok w \<and> unat (h_rec_head w) + n < 2 ^ 64"
  then show "length (rec_queue w) \<le> unat (h_rec_capacity w)"
    by (auto simp: rec_ok_def rec_queue_def rec_entries_def ring_ok_def)
qed

text \<open>
  The recycle ring is a first-in-first-out queue of returned buffers: what the consumer's
  \<open>try_recycle_desc\<close> puts in, the producer's drain takes out in order, nothing lost or invented,
  and never more than the capacity wait.
\<close>

lemma recycle_ring_fifo:
  assumes "rec_ok w" and "unat (h_rec_head w) + length ops < 2 ^ 64"
    and "queue_run rec_push rec_pop w ops = (w', returned, collected)"
  shows "rec_queue w @ returned = collected @ rec_queue w' \<and>
    length (rec_queue w') \<le> unat (h_rec_capacity w)"
proof -
  have "\<forall>x\<in>set ops. op_valid (\<lambda>x. True) x" by (metis op_valid.simps queue_op.exhaust)
  from recycle_ring.run_fifo [OF _ this assms(3)] assms(1,2) show ?thesis by simp
qed

subsection \<open>Draining\<close>

definition free_all :: "u32 list \<Rightarrow> free_list_allocator \<Rightarrow> free_list_allocator" where
  "free_all ids a = fold (\<lambda>i a. fst (free_by_id a i)) ids a"

lemma free_all_simps [simp]:
  "free_all [] a = a"
  "free_all (i # ids) a = free_all ids (fst (free_by_id a i))"
  by (simp_all add: free_all_def)

lemma live_free_all: "live (free_all ids a) = (\<lambda>i. if i \<in> set ids then None else live a i)"
  by (induction ids arbitrary: a) (auto simp: free_by_id_live fun_eq_iff)

lemma alloc_wf_free_all: "alloc_wf tot a \<Longrightarrow> alloc_wf tot (free_all ids a)"
  by (induction ids arbitrary: a) (auto intro: alloc_wf_free)

lemma drain_loop_all:
  assumes "rec_ok w"
  shows "drain_loop w =
    (w\<lparr>w_allocator := free_all (map rc_buffer_id (rec_entries w)) (w_allocator w),
       h_rec_tail := h_rec_head w\<rparr>, Ok ())"
  using assms
proof (induction "rec_entries w" arbitrary: w)
  case Nil
  then have "drain_one w = (w, Ok None)" by (simp add: drain_one_empty rec_queue_def)
  then have loop: "drain_loop w = (w, Ok ())" by (subst drain_loop.simps) simp
  have "h_rec_tail w = h_rec_head w"
    using Nil ring_empty_iff [OF Nil(2) [unfolded rec_ok_def]] by (simp add: rec_entries_def)
  then have "w\<lparr>w_allocator := w_allocator w, h_rec_tail := h_rec_head w\<rparr> = w"
    by (intro writer.equality) simp_all
  with loop show ?case unfolding Nil(1) [symmetric] by (simp only: list.map free_all_simps)
next
  case (Cons d ds)
  note one = drain_one_some [OF Cons(3) Cons(2) [symmetric]]
  let ?w = "w\<lparr>w_allocator := fst (free_by_id (w_allocator w) (rc_buffer_id d)),
              h_rec_tail := h_rec_tail w + 1\<rparr>"
  have "drain_loop w = drain_loop ?w" by (simp add: drain_loop.simps [of w] one(1))
  also have "\<dots> = (?w\<lparr>w_allocator := free_all (map rc_buffer_id ds) (w_allocator ?w),
       h_rec_tail := h_rec_head ?w\<rparr>, Ok ())"
    using Cons(1) [OF one(3) [symmetric] one(2)] one(3) by simp
  finally show ?case by (simp add: Cons(2) [symmetric])
qed

text \<open>
  \<open>drain_recycles\<close> returns, empties the recycle ring, and frees exactly the returned buffers:
  afterwards a block is live when it was live before and was not in the ring, and the usage
  metric is that of the new allocator.
\<close>

lemma drain_recycles_frees:
  assumes "rec_ok w"
  shows "\<exists>w'. drain_recycles w = (w', Ok ()) \<and> rec_queue w' = [] \<and> rec_ok w' \<and>
    live (w_allocator w') =
      (\<lambda>i. if i \<in> fst ` set (rec_queue w) then None else live (w_allocator w) i) \<and>
    h_arena_used_bytes w' = used_bytes (w_allocator w') \<and> ready_queue w' = ready_queue w"
proof -
  let ?w = "w\<lparr>w_allocator := free_all (map rc_buffer_id (rec_entries w)) (w_allocator w),
    h_rec_tail := h_rec_head w,
    h_arena_used_bytes := used_bytes (free_all (map rc_buffer_id (rec_entries w)) (w_allocator w))\<rparr>"
  have ids: "fst ` set (rec_queue w) = set (map rc_buffer_id (rec_entries w))"
    by (simp add: rec_queue_def returned_of_def image_image)
  have "drain_recycles w = (?w, Ok ())"
    by (simp add: drain_recycles_def drain_loop_all [OF assms])
  moreover have "rec_queue ?w = []" by (simp add: rec_queue_def rec_entries_def)
  moreover have "rec_ok ?w" using assms by (simp add: rec_ok_def ring_ok_def)
  moreover have "live (w_allocator ?w) =
      (\<lambda>i. if i \<in> fst ` set (rec_queue w) then None else live (w_allocator w) i)"
    by (simp only: ids live_free_all) (simp add: live_free_all)
  moreover have "h_arena_used_bytes ?w = used_bytes (w_allocator ?w)" by simp
  moreover have "ready_queue ?w = ready_queue w" by (simp add: ready_queue_def ready_entries_def)
  ultimately show ?thesis by blast
qed

end
