(* ===== verification/Leases.thy ===== *)
theory Leases
  imports Queues
begin

text \<open>
  The producer's side as a whole: the invariant \<open>writer_ok\<close> that every method of \<open>Writer\<close> keeps,
  what \<open>Writer::create\<close> establishes and a reader of the region finds, and what \<open>alloc_lease\<close> does:
  it drops the fewest oldest frames that make room, and resets the region when that is not enough.
\<close>

section \<open>The writer's invariant\<close>

definition writer_ok :: "writer \<Rightarrow> bool" where
  "writer_ok w \<longleftrightarrow> ready_ok w \<and> rec_ok w \<and> alloc_wf (h_arena_size w) (w_allocator w)"

lemma writer_okD:
  assumes "writer_ok w"
  shows "ready_ok w" "rec_ok w" "alloc_wf (h_arena_size w) (w_allocator w)"
  using assms by (simp_all add: writer_ok_def)

lemma rec_ok_cong:
  "\<lbrakk>recycle s' = recycle s; h_rec_head s' = h_rec_head s; h_rec_tail s' = h_rec_tail s;
    h_rec_capacity s' = h_rec_capacity s\<rbrakk> \<Longrightarrow> rec_ok s' = rec_ok s \<and> rec_queue s' = rec_queue s"
  by (simp add: rec_ok_def rec_queue_def rec_entries_def)

lemma ready_ok_cong:
  "\<lbrakk>ready s' = ready s; h_ready_head s' = h_ready_head s; h_ready_tail s' = h_ready_tail s;
    h_ready_capacity s' = h_ready_capacity s; h_arena_size s' = h_arena_size s\<rbrakk> \<Longrightarrow>
   ready_ok s' = ready_ok s \<and> ready_entries s' = ready_entries s \<and> ready_queue s' = ready_queue s"
  by (simp add: ready_ok_def ready_queue_def ready_entries_def desc_in_arena_def)

section \<open>Creating and opening\<close>

lemma writer_create_OkD:
  assumes "writer_create be pid path cfg = Ok w"
  obtains reg l n where "be path (cfg_total_size cfg) (cfg_perms cfg) = Ok reg"
    "map_layout (rg_len reg) (cfg_ready_capacity cfg) (cfg_recycle_capacity cfg) = Ok (l, n)"
    "cfg_ready_capacity cfg \<noteq> 0" "cfg_recycle_capacity cfg \<noteq> 0"
    "w = shm.extend (init_header (cfg_total_size cfg) (cfg_ready_capacity cfg) (cfg_recycle_capacity cfg)
           (l_ready_offset l) (l_recycle_offset l) (l_arena_offset l) n
           (cfg_drop_when_no_consumer cfg) pid (zero_shm l))
         \<lparr>w_region = reg, w_layout = l, w_allocator = new_allocator n,
          w_allocator_align = cfg_allocator_align cfg,
          w_timeline_beacon_ns = ucast (max (cfg_timeline_beacon_ms cfg) 1) * 1000000,
          w_last_timeline_emit_ns = 0, w_last_timeline_snapshot_gen = 0\<rparr>"
  using assms
  by (auto simp: writer_create_def res_bind_Ok split: if_splits)

lemmas create_defs = shm.defs shared_header.defs init_header_def zero_shm_def zero_header_def

lemma writer_create_fields:
  assumes "writer_create be pid path cfg = Ok w"
  shows "ready_queue w = []" and "rec_queue w = []" and "fl_used (w_allocator w) = []"
    and "w_allocator w = new_allocator (h_arena_size w)" and "writer_ok w"
    and "h_ready_head w = 0" and "h_rec_head w = 0"
    and "h_ready_capacity w = cfg_ready_capacity cfg" and "h_rec_capacity w = cfg_recycle_capacity cfg"
proof -
  obtain reg l n where l: "map_layout (rg_len reg) (cfg_ready_capacity cfg) (cfg_recycle_capacity cfg) = Ok (l, n)"
    and c: "cfg_ready_capacity cfg \<noteq> 0" "cfg_recycle_capacity cfg \<noteq> 0"
    and w: "w = shm.extend (init_header (cfg_total_size cfg) (cfg_ready_capacity cfg) (cfg_recycle_capacity cfg)
           (l_ready_offset l) (l_recycle_offset l) (l_arena_offset l) n
           (cfg_drop_when_no_consumer cfg) pid (zero_shm l))
         \<lparr>w_region = reg, w_layout = l, w_allocator = new_allocator n,
          w_allocator_align = cfg_allocator_align cfg,
          w_timeline_beacon_ns = ucast (max (cfg_timeline_beacon_ms cfg) 1) * 1000000,
          w_last_timeline_emit_ns = 0, w_last_timeline_snapshot_gen = 0\<rparr>"
    by (rule writer_create_OkD [OF assms]) blast
  note o = map_layout_OkD [OF l]
  have f: "h_ready_head w = 0" "h_ready_tail w = 0" "h_rec_head w = 0" "h_rec_tail w = 0"
    "h_ready_capacity w = cfg_ready_capacity cfg" "h_rec_capacity w = cfg_recycle_capacity cfg"
    "length (ready w) = unat (cfg_ready_capacity cfg)" "length (recycle w) = unat (cfg_recycle_capacity cfg)"
    "w_allocator w = new_allocator (h_arena_size w)"
    by (simp_all add: w create_defs o)
  then show "h_ready_head w = 0" "h_rec_head w = 0" "h_ready_capacity w = cfg_ready_capacity cfg"
    "h_rec_capacity w = cfg_recycle_capacity cfg" "w_allocator w = new_allocator (h_arena_size w)"
    "fl_used (w_allocator w) = []"
    by (simp_all add: new_allocator_def)
  show "ready_queue w = []" "rec_queue w = []"
    by (simp_all add: ready_queue_def ready_entries_def rec_queue_def rec_entries_def f)
  show "writer_ok w"
    using c by (simp add: writer_ok_def ready_ok_def rec_ok_def ring_ok_def ready_entries_def f alloc_wf_new)
qed

text \<open>A small region of two-entry rings and one page of arena, for the concrete instances.\<close>

definition small_config :: "u32 \<Rightarrow> transport_config" where
  "small_config cap = default_config
     \<lparr>cfg_total_size := 12288, cfg_ready_capacity := cap, cfg_recycle_capacity := cap\<rparr>"

definition small_backend :: "string \<Rightarrow> usize \<Rightarrow> u32 \<Rightarrow> region res" where
  "small_backend path len perms = Ok \<lparr>rg_ptr = 65536, rg_len = len\<rparr>"

definition small_writer :: "u32 \<Rightarrow> writer" where
  "small_writer cap = (case writer_create small_backend 42 ''demo'' (small_config cap) of Ok w \<Rightarrow> w | _ \<Rightarrow> undefined)"

lemma small_create:
  assumes "cap \<noteq> 0" "unat cap \<le> 32"
  shows "writer_create small_backend 42 ''demo'' (small_config cap) = Ok (small_writer cap)"
proof -
  have "align_up_nat (4096 + 128 * unat cap) 4096 \<le> 8192"
    using assms(2) by (intro align_up_nat_least) simp_all
  then have "arena_start (unat cap) (unat cap) < 12288" by (simp add: arena_start_def add.commute)
  then show ?thesis
    using assms(1)
    by (simp add: small_writer_def writer_create_def small_backend_def small_config_def default_config_def
        map_layout_eq)
qed

lemmas small_ok = writer_create_fields [OF small_create]


lemma reader_open_created:
  assumes "writer_create backend_create pid path cfg = Ok w"
  shows "reader_open (\<lambda>_. Ok (mapping, w)) path =
    (if rg_len mapping = cfg_total_size cfg then Ok (w_layout w, w)
     else Err (Protocol ''mapped size mismatch''))"
proof -
  obtain reg l n where l: "map_layout (rg_len reg) (cfg_ready_capacity cfg) (cfg_recycle_capacity cfg) = Ok (l, n)"
    and w: "w = shm.extend (init_header (cfg_total_size cfg) (cfg_ready_capacity cfg) (cfg_recycle_capacity cfg)
           (l_ready_offset l) (l_recycle_offset l) (l_arena_offset l) n
           (cfg_drop_when_no_consumer cfg) pid (zero_shm l))
         \<lparr>w_region = reg, w_layout = l, w_allocator = new_allocator n,
          w_allocator_align = cfg_allocator_align cfg,
          w_timeline_beacon_ns = ucast (max (cfg_timeline_beacon_ms cfg) 1) * 1000000,
          w_last_timeline_emit_ns = 0, w_last_timeline_snapshot_gen = 0\<rparr>"
    by (rule writer_create_OkD [OF assms]) blast
  have "validate_header w m = (if m = cfg_total_size cfg then Ok () else Err (Protocol ''mapped size mismatch''))" for m
    by (simp add: w validate_header_def create_defs)
  moreover have "h_ready_offset w = l_ready_offset l" "h_recycle_offset w = l_recycle_offset l"
    "h_arena_offset w = l_arena_offset l" "ucast (h_ready_capacity w) = l_ready_len l"
    "ucast (h_rec_capacity w) = l_recycle_len l" "w_layout w = l"
    using map_layout_OkD(2,4) [OF l] by (simp_all add: w create_defs)
  ultimately show ?thesis by (auto simp: reader_open_def)
qed

text \<open>
  C24: a region made by \<open>Writer::create\<close> can be opened by \<open>Reader::open\<close>, which then uses exactly
  the writer's views (offsets and lengths of both rings, base of the arena), if and only if the
  reader's mapping has the configured size; otherwise it reports \<open>mapped size mismatch\<close>. The size
  checked is the configured one, not the length of the writer's own mapping.
\<close>

theorem create_open_roundtrip:
  assumes "writer_create backend_create pid path cfg = Ok w"
  shows "reader_open (\<lambda>_. Ok (mapping, w)) path =
    (if rg_len mapping = cfg_total_size cfg then Ok (w_layout w, w)
     else Err (Protocol ''mapped size mismatch''))"
  by (rule reader_open_created [OF assms])

theorem create_open_roundtrip_witness:
  "reader_open (\<lambda>_. Ok (\<lparr>rg_ptr = 131072, rg_len = 12288\<rparr>, small_writer 2)) ''demo'' =
     Ok (w_layout (small_writer 2), small_writer 2)"
  using create_open_roundtrip [OF small_create [of 2], of "\<lparr>rg_ptr = 131072, rg_len = 12288\<rparr>"]
  by (simp add: small_config_def default_config_def)

text \<open>
  A freshly created writer satisfies the invariant on which the other properties rest: both
  rings consistent and empty, the allocator well formed and owning the whole arena.
\<close>

lemma create_establishes_invariant:
  assumes "writer_create backend_create pid path cfg = Ok w"
  shows "writer_ok w \<and> ready_queue w = [] \<and> rec_queue w = [] \<and>
    alloc_complete (h_arena_size w) (w_allocator w) \<and> used_bytes (w_allocator w) = 0"
  using writer_create_fields [OF assms]
  by (simp add: alloc_complete_new used_bytes_def)

section \<open>Dropping queued frames\<close>

lemma drop_oldest_ready_empty:
  "ready_ok w \<Longrightarrow> ready_entries w = [] \<Longrightarrow> drop_oldest_ready w = (w, Ok False)"
  using ring_empty_iff [of "ready w" "h_ready_head w" "h_ready_tail w" "ucast (h_ready_capacity w)"]
  by (simp add: drop_oldest_ready_def ready_ok_def ready_entries_def)

lemma drop_oldest_ready_some:
  assumes ok: "ready_ok w" and q: "ready_entries w = d # ds"
  defines "a \<equiv> fst (free_by_id (w_allocator w) (rd_buffer_id d))"
  defines "w' \<equiv> w\<lparr>w_allocator := a, h_ready_tail := h_ready_tail w + 1, h_arena_used_bytes := used_bytes a\<rparr>"
  shows "drop_oldest_ready w = (w', Ok True)" and "ready_ok w'" and "ready_entries w' = ds"
proof -
  have ring: "ring_ok (ready w) (h_ready_head w) (h_ready_tail w) (ucast (h_ready_capacity w))"
    using ok by (simp add: ready_ok_def)
  have ne: "h_ready_head w \<noteq> h_ready_tail w" using q by (auto simp: ready_entries_def)
  note t = try_recv_desc_some [OF ok q]
  let ?t = "w\<lparr>h_ready_tail := h_ready_tail w + 1\<rparr>"
  have "ready_ok w' = ready_ok ?t \<and> ready_entries w' = ready_entries ?t \<and> ready_queue w' = ready_queue ?t"
    by (rule ready_ok_cong) (simp_all add: w'_def)
  then show "ready_ok w'" "ready_entries w' = ds" using t(2,3) by simp_all
  have "d = ready w ! (unat (h_ready_tail w) mod unat (h_ready_capacity w))"
    using ring_pop(2) [OF ring ne] q by (simp add: ready_entries_def)
  then show "drop_oldest_ready w = (w', Ok True)"
    using ne ring_get_Some [OF ring, of "h_ready_tail w"]
    by (simp add: drop_oldest_ready_def w'_def a_def Let_def)
qed

primrec drop_ready :: "nat \<Rightarrow> writer \<Rightarrow> writer" where
  "drop_ready 0 w = w"
| "drop_ready (Suc k) w = drop_ready k (fst (drop_oldest_ready w))"

abbreviation ready_ids :: "writer \<Rightarrow> u32 list" where
  "ready_ids w \<equiv> map rd_buffer_id (ready_entries w)"

lemma drop_ready_props:
  assumes "ready_ok w" "k \<le> length (ready_entries w)"
  shows "ready_ok (drop_ready k w) \<and> ready_entries (drop_ready k w) = drop k (ready_entries w) \<and>
    w_allocator (drop_ready k w) = free_all (take k (ready_ids w)) (w_allocator w)"
  using assms
proof (induction k arbitrary: w)
  case (Suc k)
  then obtain d ds where q: "ready_entries w = d # ds" by (cases "ready_entries w") auto
  note o = drop_oldest_ready_some [OF Suc.prems(1) q]
  have "k \<le> length ds" using Suc.prems(2) q by simp
  with Suc.IH [OF o(2)] show ?case by (simp add: o q)
qed simp

definition same_region :: "writer \<Rightarrow> writer \<Rightarrow> bool" where
  "same_region w w' \<longleftrightarrow> recycle w' = recycle w \<and> arena w' = arena w \<and>
     h_rec_head w' = h_rec_head w \<and> h_rec_tail w' = h_rec_tail w \<and>
     h_rec_capacity w' = h_rec_capacity w \<and> h_ready_capacity w' = h_ready_capacity w \<and>
     h_ready_head w' = h_ready_head w \<and> h_arena_size w' = h_arena_size w \<and>
     h_timeline_gen w' = h_timeline_gen w \<and> w_arena w' = w_arena w"

lemma drop_oldest_ready_frame: "same_region w (fst (drop_oldest_ready w))"
  by (auto simp: drop_oldest_ready_def Let_def same_region_def w_arena_def split: option.split)

lemma drop_ready_frame: "same_region w (drop_ready k w)"
proof (induction k arbitrary: w)
  case (Suc k)
  from Suc.IH [of "fst (drop_oldest_ready w)"] drop_oldest_ready_frame [of w]
  show ?case by (simp add: same_region_def)
qed (simp add: same_region_def)

section \<open>Allocation\<close>

text \<open>How many of the oldest queued frames must go before a block fits.\<close>

definition drops_needed :: "writer \<Rightarrow> u32 \<Rightarrow> u64 \<Rightarrow> nat option" where
  "drops_needed w sz align =
     find (\<lambda>k. alloc (free_all (take k (ready_ids w)) (w_allocator w)) sz align \<noteq> None)
       [0..<Suc (length (ready_entries w))]"

lemma find_upt_Suc:
  "find P [0..<Suc n] = (if P 0 then Some 0 else map_option Suc (find (\<lambda>k. P (Suc k)) [0..<n]))"
proof -
  have "[0..<Suc n] = 0 # map Suc [0..<n]" by (simp add: map_Suc_upt upt_conv_Cons del: upt_Suc)
  moreover have "find P (map Suc xs) = map_option Suc (find (\<lambda>k. P (Suc k)) xs)" for xs
    by (induction xs) auto
  ultimately show ?thesis by simp
qed

definition alloc_result :: "writer \<Rightarrow> writer \<Rightarrow> free_list_allocator \<times> allocation \<Rightarrow> writer \<times> lease res" where
  "alloc_result w w' y = (w'\<lparr>w_allocator := fst y\<rparr>, Ok (lease_of w (snd y)))"

lemma lease_of_reset: "lease_of (reset_allocator_state w) = lease_of w"
  by (simp add: fun_eq_iff lease_of_def reset_allocator_state_def w_arena_def)

lemma alloc_lease_fits: "alloc (w_allocator w) sz align = Some y \<Longrightarrow> alloc_lease w sz align = alloc_result w w y"
  by (subst alloc_lease.simps) (simp add: alloc_result_def split: prod.split)

lemma alloc_lease_drop:
  "alloc (w_allocator w) sz align = None \<Longrightarrow> drop_oldest_ready w = (w1, Ok True) \<Longrightarrow>
   alloc_lease w sz align = alloc_lease w1 sz align"
  by (subst alloc_lease.simps) simp

text \<open>After the last queued frame is gone: reset and try once more.\<close>

definition reset_and_retry :: "writer \<Rightarrow> u32 \<Rightarrow> u64 \<Rightarrow> writer \<times> lease res" where
  "reset_and_retry w sz align =
     (let w' = reset_allocator_state w
      in case alloc (new_allocator (h_arena_size w)) sz align of
           Some y \<Rightarrow> alloc_result w w' y
         | None \<Rightarrow> (w'\<lparr>h_alloc_failures := 1\<rparr>, Err Exhausted))"

lemma alloc_lease_reset:
  assumes "alloc (w_allocator w) sz align = None" "drop_oldest_ready w = (w, Ok False)"
  shows "alloc_lease w sz align = reset_and_retry w sz align"
proof -
  have "w_allocator (reset_allocator_state w) = new_allocator (h_arena_size w)"
    "h_alloc_failures (reset_allocator_state w) = 0"
    by (simp_all add: reset_allocator_state_def)
  with assms show ?thesis
    by (subst alloc_lease.simps) (simp add: reset_and_retry_def Let_def alloc_result_def lease_of_reset
        split: option.split prod.split)
qed

lemma alloc_lease_eq:
  assumes "ready_ok w"
  shows "alloc_lease w sz align =
    (case drops_needed w sz align of
       Some k \<Rightarrow> alloc_result w (drop_ready k w) (the (alloc (w_allocator (drop_ready k w)) sz align))
     | None \<Rightarrow> reset_and_retry (drop_ready (length (ready_entries w)) w) sz align)"
  using assms
proof (induction "ready_entries w" arbitrary: w)
  case Nil
  note e = drop_oldest_ready_empty [OF Nil(2) Nil(1) [symmetric]]
  show ?case
  proof (cases "alloc (w_allocator w) sz align")
    case None
    with alloc_lease_reset [OF None e] show ?thesis by (simp add: drops_needed_def Nil(1) [symmetric])
  next
    case (Some y)
    with alloc_lease_fits [OF Some] show ?thesis by (simp add: drops_needed_def Nil(1) [symmetric])
  qed
next
  case (Cons d ds)
  note o = drop_oldest_ready_some [OF Cons(3) Cons(2) [symmetric]]
  define w1 where "w1 = fst (drop_oldest_ready w)"
  have w1: "drop_oldest_ready w = (w1, Ok True)" "ready_ok w1" "ready_entries w1 = ds"
    "w_allocator w1 = fst (free_by_id (w_allocator w) (rd_buffer_id d))"
    using o by (simp_all add: w1_def)
  have fr: "alloc_result w1 = alloc_result w"
    using drop_oldest_ready_frame [of w]
    by (simp add: same_region_def lease_of_def fun_eq_iff w1_def [symmetric] alloc_result_def)
  have dn: "drops_needed w sz align =
      (if alloc (w_allocator w) sz align \<noteq> None then Some 0 else map_option Suc (drops_needed w1 sz align))"
    unfolding drops_needed_def Cons(2) [symmetric] w1(3) by (simp only: find_upt_Suc length_Cons) (simp add: w1)
  have len: "length (ready_entries w) = Suc (length (ready_entries w1))"
    by (simp add: Cons(2) [symmetric] w1(3))
  show ?case
  proof (cases "alloc (w_allocator w) sz align")
    case None
    have "alloc_lease w sz align = alloc_lease w1 sz align" by (rule alloc_lease_drop [OF None w1(1)])
    also have "\<dots> = (case drops_needed w1 sz align of
       Some k \<Rightarrow> alloc_result w (drop_ready k w1) (the (alloc (w_allocator (drop_ready k w1)) sz align))
     | None \<Rightarrow> reset_and_retry (drop_ready (length (ready_entries w1)) w1) sz align)"
      unfolding Cons(1) [OF w1(3) [symmetric] w1(2)] fr ..
    finally show ?thesis by (simp add: dn None len w1(1) split: option.split)
  next
    case (Some y)
    then show ?thesis by (simp add: dn alloc_lease_fits)
  qed
qed

lemma alloc_new_allocator:
  "alloc (new_allocator tot) sz align =
     (if unat sz \<le> unat tot
      then Some (take_block (new_allocator tot) (ucast sz) 0
                   (if unat sz < unat tot then [(ucast sz, tot - ucast sz)] else []))
      else None)"
proof -
  have z: "align_up 0 al = 0" for al by (simp add: align_up_def Let_def)
  have "fits (ucast sz) (max align 1) (0, tot) \<longleftrightarrow> unat sz \<le> unat tot"
    by (simp add: fits_def z word_le_nat_alt)
  moreover have "pieces (ucast sz) (max align 1) (0, tot) =
      (if unat sz < unat tot then [(ucast sz, tot - ucast sz)] else [])" if "unat sz \<le> unat tot"
  proof -
    have "unat (tot - ucast sz) = unat tot - unat sz" using that by (simp add: unat_sub_no_underflow)
    with that show ?thesis
      by (simp add: pieces_def z Let_def saturating_sub_def word_less_nat_alt)
  qed
  ultimately show ?thesis by (simp add: alloc_carve new_allocator_def z)
qed

lemma fl_new [simp]:
  "fl_free (new_allocator tot) = [(0, tot)]" "fl_used (new_allocator tot) = []"
  "fl_next_id (new_allocator tot) = 1"
  by (simp_all add: new_allocator_def)

lemma alloc_wf_take_new:
  assumes "unat (sz :: u32) \<le> unat tot"
  shows "alloc_wf tot (fst (take_block (new_allocator tot) (ucast sz) 0
           (if unat sz < unat tot then [(ucast sz, tot - ucast sz)] else [])))"
proof -
  have "unat (tot - ucast sz) = unat tot - unat sz" using assms by (simp add: unat_sub_no_underflow)
  with assms show ?thesis
    by (simp add: take_block_def new_allocator_def alloc_wf_def in_bounds_def used_disjoint_def
        disjoint_ranges_def)
qed

lemma reset_allocator_state_props:
  assumes "ready_ok w" "rec_ok w"
  shows "writer_ok (reset_allocator_state w)" and "ready_queue (reset_allocator_state w) = []"
    and "rec_queue (reset_allocator_state w) = []"
  using assms
  by (simp_all add: writer_ok_def ready_ok_def rec_ok_def ready_queue_def rec_queue_def ready_entries_def
      rec_entries_def ring_ok_def reset_allocator_state_def alloc_wf_new)

lemma writer_ok_with_allocator:
  assumes "ready_ok w" "rec_ok w" "alloc_wf (h_arena_size w) a"
  shows "writer_ok (w\<lparr>w_allocator := a\<rparr>) \<and> ready_queue (w\<lparr>w_allocator := a\<rparr>) = ready_queue w \<and>
    rec_queue (w\<lparr>w_allocator := a\<rparr>) = rec_queue w"
  using assms
  by (simp add: writer_ok_def ready_ok_def rec_ok_def ready_queue_def rec_queue_def ready_entries_def
      rec_entries_def desc_in_arena_def)

lemma fst_frame_of [simp]: "fst \<circ> frame_of = rd_buffer_id"
  by (simp add: fun_eq_iff frame_of_def)

lemma ready_ids_queue: "ready_ids w = map fst (ready_queue w)"
  by (simp add: ready_queue_def)

lemma drop_ready_queue:
  assumes "ready_ok w" "k \<le> length (ready_queue w)"
  shows "ready_ok (drop_ready k w)" and "ready_queue (drop_ready k w) = drop k (ready_queue w)"
    and "w_allocator (drop_ready k w) = free_all (take k (map fst (ready_queue w))) (w_allocator w)"
proof -
  have "k \<le> length (ready_entries w)" using assms(2) by (simp add: ready_queue_def)
  note p = drop_ready_props [OF assms(1) this]
  show "ready_ok (drop_ready k w)" "ready_queue (drop_ready k w) = drop k (ready_queue w)"
    "w_allocator (drop_ready k w) = free_all (take k (map fst (ready_queue w))) (w_allocator w)"
    using p by (simp_all add: ready_queue_def drop_map ready_ids_queue [symmetric])
qed

lemma drop_ready_rec: "rec_ok (drop_ready k w) = rec_ok w \<and> rec_queue (drop_ready k w) = rec_queue w"
  using drop_ready_frame [of w k] by (intro rec_ok_cong) (simp_all add: same_region_def)

lemma drops_needed_queue:
  "drops_needed w sz align =
     find (\<lambda>k. alloc (free_all (take k (map fst (ready_queue w))) (w_allocator w)) sz align \<noteq> None)
       [0..<Suc (length (ready_queue w))]"
  by (simp only: drops_needed_def ready_ids_queue) (simp only: ready_queue_def length_map)

lemma find_upt_Some:
  "find P [0..<n] = Some k \<longleftrightarrow> k < n \<and> P k \<and> (\<forall>j<k. \<not> P j)"
  by (auto simp: find_Some_iff)

lemma find_upt_None: "find P [0..<n] = None \<longleftrightarrow> (\<forall>k<n. \<not> P k)"
  by (auto simp: find_None_iff)

lemma drops_needed_Some:
  "drops_needed w sz align = Some k \<longleftrightarrow> k \<le> length (ready_queue w) \<and>
     alloc (free_all (take k (map fst (ready_queue w))) (w_allocator w)) sz align \<noteq> None \<and>
     (\<forall>j<k. alloc (free_all (take j (map fst (ready_queue w))) (w_allocator w)) sz align = None)"
  by (simp only: drops_needed_queue find_upt_Some less_Suc_eq_le not_not)

lemma drops_needed_None:
  "drops_needed w sz align = None \<longleftrightarrow>
     (\<forall>k\<le>length (ready_queue w).
        alloc (free_all (take k (map fst (ready_queue w))) (w_allocator w)) sz align = None)"
  by (simp only: drops_needed_queue find_upt_None less_Suc_eq_le not_not)

text \<open>The two outcomes of \<open>alloc_lease\<close>, with everything later proofs use.\<close>

lemma alloc_lease_room:
  assumes ok: "writer_ok w" and room: "roomy (h_arena_size w) (max align 1)"
    and k: "drops_needed w sz align = Some k" and r: "alloc_lease w sz align = (w', r)"
  obtains lease where "r = Ok lease" "writer_ok w'" "ready_queue w' = drop k (ready_queue w)"
    "rec_queue w' = rec_queue w" "same_region w w'" "ls_len lease = sz"
    "ls_buffer_id lease = fl_next_id (w_allocator w)" "ls_ptr lease = w_arena w + ls_offset lease"
    "live (w_allocator w') =
       (\<lambda>i. if i \<in> set (take k (map fst (ready_queue w))) then None else live (w_allocator w) i)
       (ls_buffer_id lease \<mapsto> (ls_offset lease, ucast sz))"
    "in_bounds (h_arena_size w) (ls_offset lease, ucast sz)"
    "\<And>i q. live (w_allocator w) i = Some q \<Longrightarrow> i \<notin> set (take k (map fst (ready_queue w))) \<Longrightarrow>
       disjoint_ranges (ls_offset lease, ucast sz) q"
    "fl_next_id (w_allocator w') = max (fl_next_id (w_allocator w) + 1) 1"
    "max (unat align) 1 dvd unat (ls_offset lease)"
proof -
  note d = k [unfolded drops_needed_Some, THEN conjunct1]
    k [unfolded drops_needed_Some, THEN conjunct2, THEN conjunct1]
  note o = writer_okD [OF ok]
  note q = drop_ready_queue [OF o(1) d(1)]
  let ?a = "w_allocator (drop_ready k w)"
  have next_id: "fl_next_id (free_all ids a) = fl_next_id a" for ids a
    by (induction ids arbitrary: a) (simp_all add: free_by_id_next)
  have wf: "alloc_wf (h_arena_size w) ?a" unfolding q(3) by (rule alloc_wf_free_all [OF o(3)])
  from d(2) obtain a x where al: "alloc ?a sz align = Some (a, x)" by (auto simp: q(3))
  note s = alloc_Some [OF wf room al]
  let ?l = "lease_of w x"
  have "alloc_lease w sz align = alloc_result w (drop_ready k w) (a, x)"
    using al by (simp add: alloc_lease_eq [OF o(1)] k)
  with r have w': "w' = (drop_ready k w)\<lparr>w_allocator := a\<rparr>" and r': "r = Ok ?l"
    by (simp_all add: alloc_result_def)
  have sz: "h_arena_size (drop_ready k w) = h_arena_size w" "same_region w w'"
    using drop_ready_frame [of w k] by (simp_all add: same_region_def w' w_arena_def)
  have okw: "writer_ok w' \<and> ready_queue w' = ready_queue (drop_ready k w) \<and>
      rec_queue w' = rec_queue (drop_ready k w)"
    unfolding w'
    by (rule writer_ok_with_allocator [OF q(1)]) (simp_all only: drop_ready_rec o(2) s(9) sz(1))
  have disj: "disjoint_ranges (ls_offset ?l, ucast sz) p"
    if "live (w_allocator w) i = Some p" "i \<notin> set (take k (map fst (ready_queue w)))" for i p
  proof -
    have "live ?a i = Some p" using that by (simp add: q(3) live_free_all)
    from s(5) live_subset_taken [OF this] alloc_wf_disjoint [OF wf]
    have "range_bytes (al_offset x, ucast sz) \<inter> range_bytes p = {}" by blast
    then show ?thesis by (simp add: disjoint_ranges_bytes lease_of_def)
  qed
  show ?thesis
  proof (rule that [OF r' _ _ _ sz(2) _ _ _ _ _ disj])
    show "live (w_allocator w') =
       (\<lambda>i. if i \<in> set (take k (map fst (ready_queue w))) then None else live (w_allocator w) i)
       (ls_buffer_id ?l \<mapsto> (ls_offset ?l, ucast sz))"
      using s(7) by (simp add: w' lease_of_def s(1) q(3) live_free_all)
    show "in_bounds (h_arena_size w) (ls_offset ?l, ucast sz)" using s(4) by (simp add: lease_of_def)
    show "writer_ok w'" "ready_queue w' = drop k (ready_queue w)" "rec_queue w' = rec_queue w"
      using okw q(2) drop_ready_rec by simp_all
    show "ls_len ?l = sz" "ls_ptr ?l = w_arena w + ls_offset ?l"
      "max (unat align) 1 dvd unat (ls_offset ?l)"
      using s(2,3) by (simp_all add: lease_of_def)
    show "ls_buffer_id ?l = fl_next_id (w_allocator w)"
      using s(1) by (simp add: lease_of_def q(3) next_id)
    show "fl_next_id (w_allocator w') = max (fl_next_id (w_allocator w) + 1) 1"
      using s(8) by (simp add: w' q(3) next_id)
  qed
qed

lemma alloc_lease_align: "w_allocator_align (fst (alloc_lease w sz align)) = w_allocator_align w"
proof (induction w sz align rule: alloc_lease.induct)
  case (1 w sz align)
  have d: "w_allocator_align (fst (drop_oldest_ready w)) = w_allocator_align w"
    by (auto simp: drop_oldest_ready_def Let_def split: option.split)
  obtain w1 r where r: "drop_oldest_ready w = (w1, r)" by force
  have reset: "w_allocator_align (reset_allocator_state v) = w_allocator_align v" for v
    by (simp add: reset_allocator_state_def)
  show ?case
  proof (cases "alloc (w_allocator w) sz align")
    case None
    show ?thesis
    proof (cases "r = Ok True")
      case True
      with 1 [OF None] d show ?thesis by (subst alloc_lease.simps) (simp add: None r)
    next
      case False
      then show ?thesis using d reset
        by (subst alloc_lease.simps) (auto simp: None r Let_def split: res.split bool.split option.split)
    qed
  next
    case (Some y)
    then show ?thesis by (subst alloc_lease.simps) (auto split: prod.split)
  qed
qed

lemma alloc_lease_no_room:
  assumes ok: "writer_ok w" and k: "drops_needed w sz align = None"
    and r: "alloc_lease w sz align = (w', r)"
  shows "writer_ok w'" and "ready_queue w' = []" and "rec_queue w' = []"
    and "h_timeline_gen w' = h_timeline_gen w + 1" and "h_timeline_valid w' = 0"
    and "h_rec_head w' = 0" and "h_rec_capacity w' = h_rec_capacity w" and "h_arena_size w' = h_arena_size w"
    and "h_ready_head w' = 0" and "h_ready_capacity w' = h_ready_capacity w"
    and "arena w' = arena w" and "w_arena w' = w_arena w"
    and "unat (h_arena_size w) < unat sz \<Longrightarrow>
      r = Err Exhausted \<and> w_allocator w' = new_allocator (h_arena_size w) \<and> h_alloc_failures w' = 1"
    and "unat sz \<le> unat (h_arena_size w) \<Longrightarrow> \<exists>lease. r = Ok lease \<and> ls_buffer_id lease = 1 \<and>
      ls_offset lease = 0 \<and> ls_len lease = sz \<and> ls_ptr lease = w_arena w \<and>
      w_allocator w' = fst (take_block (new_allocator (h_arena_size w)) (ucast sz) 0
        (if unat sz < unat (h_arena_size w) then [(ucast sz, h_arena_size w - ucast sz)] else []))"
proof -
  let ?n = "length (ready_entries w)"
  note o = writer_okD [OF ok]
  have q: "ready_ok (drop_ready ?n w)" "rec_ok (drop_ready ?n w)"
    using drop_ready_props [OF o(1), of ?n] drop_ready_rec [of ?n w] o(2) by simp_all
  let ?w = "reset_allocator_state (drop_ready ?n w)"
  note rs = reset_allocator_state_props [OF q]
  have f: "h_arena_size (drop_ready ?n w) = h_arena_size w" "h_timeline_gen (drop_ready ?n w) = h_timeline_gen w"
    "h_rec_capacity (drop_ready ?n w) = h_rec_capacity w" "h_ready_capacity (drop_ready ?n w) = h_ready_capacity w"
    "arena (drop_ready ?n w) = arena w" "w_arena (drop_ready ?n w) = w_arena w"
    using drop_ready_frame [of w ?n] by (simp_all add: same_region_def)
  have rf: "h_arena_size ?w = h_arena_size w" "h_timeline_gen ?w = h_timeline_gen w + 1"
    "h_timeline_valid ?w = 0" "w_allocator ?w = new_allocator (h_arena_size w)"
    by (simp_all add: reset_allocator_state_def f)
  have e: "alloc_lease w sz align = reset_and_retry (drop_ready ?n w) sz align"
    by (simp add: alloc_lease_eq [OF o(1)] k)
  show "unat (h_arena_size w) < unat sz \<Longrightarrow>
      r = Err Exhausted \<and> w_allocator w' = new_allocator (h_arena_size w) \<and> h_alloc_failures w' = 1"
    using r by (auto simp: e reset_and_retry_def alloc_new_allocator f reset_allocator_state_def)
  show "unat sz \<le> unat (h_arena_size w) \<Longrightarrow> \<exists>lease. r = Ok lease \<and> ls_buffer_id lease = 1 \<and>
      ls_offset lease = 0 \<and> ls_len lease = sz \<and> ls_ptr lease = w_arena w \<and>
      w_allocator w' = fst (take_block (new_allocator (h_arena_size w)) (ucast sz) 0
        (if unat sz < unat (h_arena_size w) then [(ucast sz, h_arena_size w - ucast sz)] else []))"
    using r by (auto simp: e reset_and_retry_def alloc_new_allocator f alloc_result_def lease_of_def
        take_block_def f(6))
  have "(\<exists>a. w' = ?w\<lparr>w_allocator := a\<rparr>) \<or> w' = ?w\<lparr>h_alloc_failures := 1\<rparr>"
    using r by (auto simp: e reset_and_retry_def alloc_result_def Let_def split: option.splits)
  then have same: "ready w' = ready ?w" "recycle w' = recycle ?w" "h_ready_head w' = h_ready_head ?w"
    "h_ready_tail w' = h_ready_tail ?w" "h_ready_capacity w' = h_ready_capacity ?w"
    "h_rec_head w' = h_rec_head ?w" "h_rec_tail w' = h_rec_tail ?w" "h_rec_capacity w' = h_rec_capacity ?w"
    "h_arena_size w' = h_arena_size ?w" "h_timeline_gen w' = h_timeline_gen ?w"
    "h_timeline_valid w' = h_timeline_valid ?w" "arena w' = arena ?w" "w_arena w' = w_arena ?w"
    by (auto simp: w_arena_def)
  show "h_rec_head w' = 0" "h_rec_capacity w' = h_rec_capacity w" "h_arena_size w' = h_arena_size w"
    "h_ready_head w' = 0" "h_ready_capacity w' = h_ready_capacity w" "arena w' = arena w" "w_arena w' = w_arena w"
    using f unfolding same by (simp_all add: reset_allocator_state_def w_arena_def)
  show "h_timeline_gen w' = h_timeline_gen w + 1" "h_timeline_valid w' = 0" by (simp_all only: same rf)
  show "ready_queue w' = []" "rec_queue w' = []"
    using ready_ok_cong [OF same(1,3,4,5,9)] rec_ok_cong [OF same(2,6,7,8)] rs(2,3) by simp_all
  show "writer_ok w'"
  proof (cases "unat sz \<le> unat (h_arena_size w)")
    case True
    let ?y = "take_block (new_allocator (h_arena_size w)) (ucast sz) 0
      (if unat sz < unat (h_arena_size w) then [(ucast sz, h_arena_size w - ucast sz)] else [])"
    have "w' = ?w\<lparr>w_allocator := fst ?y\<rparr>"
      using r True by (simp add: e reset_and_retry_def alloc_new_allocator f alloc_result_def)
    then show ?thesis
      using writer_ok_with_allocator [of ?w "fst ?y"] writer_okD [OF rs(1)] alloc_wf_take_new [OF True] rf(1)
      by (simp only:)
  next
    case False
    then have "w' = ?w\<lparr>h_alloc_failures := 1\<rparr>"
      using r by (simp add: e reset_and_retry_def alloc_new_allocator f)
    then show ?thesis using rs(1)
      by (simp add: writer_ok_def ready_ok_def rec_ok_def ready_entries_def desc_in_arena_def)
  qed
qed

subsection \<open>Properties\<close>

text \<open>
  C14: \<open>alloc_lease\<close> sacrifices as little as possible. When the block fits after the \<open>k\<close> oldest
  queued frames are dropped, and not after fewer, exactly these \<open>k\<close> frames leave the ready ring and
  their blocks are freed; the new block lies in the arena and overlaps no block that stays live, so
  neither the frames still queued nor those in the consumer's hands are touched.
\<close>

theorem alloc_lease_drops_fewest:
  assumes "writer_ok w" and "roomy (h_arena_size w) (max align 1)"
    and "k \<le> length (ready_queue w)"
    and "alloc (free_all (take k (map fst (ready_queue w))) (w_allocator w)) sz align \<noteq> None"
    and "\<forall>j<k. alloc (free_all (take j (map fst (ready_queue w))) (w_allocator w)) sz align = None"
  shows "\<exists>w' lease. alloc_lease w sz align = (w', Ok lease) \<and> writer_ok w' \<and>
    ready_queue w' = drop k (ready_queue w) \<and> rec_queue w' = rec_queue w \<and> arena w' = arena w \<and>
    live (w_allocator w') =
      (\<lambda>i. if i \<in> set (take k (map fst (ready_queue w))) then None else live (w_allocator w) i)
      (ls_buffer_id lease \<mapsto> (ls_offset lease, ucast sz)) \<and>
    (\<forall>i q. live (w_allocator w) i = Some q \<and> i \<notin> set (take k (map fst (ready_queue w))) \<longrightarrow>
       disjoint_ranges (ls_offset lease, ucast sz) q)"
proof -
  have k: "drops_needed w sz align = Some k" using assms(3-5) by (simp add: drops_needed_Some)
  obtain w' r where r: "alloc_lease w sz align = (w', r)" by force
  show ?thesis
  proof (rule alloc_lease_room [OF assms(1,2) k r])
    fix lease
    assume "r = Ok lease" "writer_ok w'" "ready_queue w' = drop k (ready_queue w)"
      "rec_queue w' = rec_queue w" "same_region w w'"
      "live (w_allocator w') =
        (\<lambda>i. if i \<in> set (take k (map fst (ready_queue w))) then None else live (w_allocator w) i)
        (ls_buffer_id lease \<mapsto> (ls_offset lease, ucast sz))"
      "\<And>i q. live (w_allocator w) i = Some q \<Longrightarrow> i \<notin> set (take k (map fst (ready_queue w))) \<Longrightarrow>
         disjoint_ranges (ls_offset lease, ucast sz) q"
    moreover from this(5) have "arena w' = arena w" by (simp add: same_region_def)
    ultimately show ?thesis using r by blast
  qed
qed

lemma alloc_too_big:
  assumes "alloc_wf tot a" "roomy tot (max align 1)" "unat tot < unat sz"
  shows "alloc a sz align = None"
proof (cases "alloc a sz align")
  case (Some y)
  obtain a' x where "alloc a sz align = Some (a', x)" using Some by (cases y) auto
  from alloc_Some(4) [OF assms(1,2) this] assms(3) show ?thesis by (simp add: in_bounds_def)
qed

text \<open>
  C15: \<open>alloc_lease\<close> always returns, keeps the invariant, and fails exactly when the block is larger
  than the whole arena: any other request is met, if need be at the price of all queued frames and,
  in the end, of the bookkeeping itself.
\<close>

theorem alloc_lease_total:
  assumes "writer_ok w" and "roomy (h_arena_size w) (max align 1)"
  shows "writer_ok (fst (alloc_lease w sz align)) \<and>
    (if unat sz \<le> unat (h_arena_size w)
     then \<exists>lease. snd (alloc_lease w sz align) = Ok lease \<and> ls_len lease = sz \<and>
            live (w_allocator (fst (alloc_lease w sz align))) (ls_buffer_id lease) =
              Some (ls_offset lease, ucast sz)
     else snd (alloc_lease w sz align) = Err Exhausted)"
proof -
  obtain w' r where r: "alloc_lease w sz align = (w', r)" by force
  show ?thesis
  proof (cases "drops_needed w sz align")
    case None
    note n = alloc_lease_no_room [OF assms(1) None r]
    show ?thesis
    proof (cases "unat sz \<le> unat (h_arena_size w)")
      case True
      then show ?thesis using n(1,14) by (auto simp: r take_block_def)
    next
      case False
      then show ?thesis using n(1,13) by (simp add: r)
    qed
  next
    case (Some k)
    show ?thesis
    proof (rule alloc_lease_room [OF assms Some r])
      fix lease
      assume "r = Ok lease" "writer_ok w'" "ls_len lease = sz"
        "live (w_allocator w') =
          (\<lambda>i. if i \<in> set (take k (map fst (ready_queue w))) then None else live (w_allocator w) i)
          (ls_buffer_id lease \<mapsto> (ls_offset lease, ucast sz))"
        "in_bounds (h_arena_size w) (ls_offset lease, ucast sz)"
      then show ?thesis by (simp add: r in_bounds_def)
    qed
  qed
qed

lemma alloc_lease_too_big:
  assumes "writer_ok w" "roomy (h_arena_size w) (max align 1)" "unat (h_arena_size w) < unat sz"
  shows "drops_needed w sz align = None"
  using assms
  by (auto simp: drops_needed_None intro!: alloc_too_big alloc_wf_free_all dest: writer_okD(3))

lemma alloc_lease_arena_size:
  assumes "writer_ok w" "roomy (h_arena_size w) (max align 1)" "unat (h_arena_size w) < unat sz"
  shows "h_arena_size (fst (alloc_lease w sz align)) = h_arena_size w"
proof -
  let ?n = "length (ready_entries w)"
  have "alloc_lease w sz align = reset_and_retry (drop_ready ?n w) sz align"
    by (simp add: alloc_lease_eq [OF writer_okD(1) [OF assms(1)]] alloc_lease_too_big [OF assms])
  moreover have "h_arena_size (drop_ready ?n w) = h_arena_size w"
    using drop_ready_frame [of w ?n] by (simp add: same_region_def)
  ultimately show ?thesis
    by (simp add: reset_and_retry_def alloc_result_def reset_allocator_state_def Let_def split: option.split)
qed

text \<open>
  The failure counter \<open>alloc_failures\<close> never counts: every failing \<open>alloc_lease\<close> first resets
  it, so after any positive number of failures in a row it reads one, and each of them has thrown
  away every queued frame and every returned buffer not yet collected.
\<close>

lemma alloc_failures_stuck_at_one:
  assumes "writer_ok w" and "roomy (h_arena_size w) (max align 1)"
    and "unat (h_arena_size w) < unat sz"
  defines "fail \<equiv> \<lambda>w. fst (alloc_lease w sz align)"
  shows "h_alloc_failures ((fail ^^ Suc n) w) = 1 \<and> ready_queue ((fail ^^ Suc n) w) = [] \<and>
    rec_queue ((fail ^^ Suc n) w) = []"
proof -
  define good where "good = (\<lambda>v. writer_ok v \<and> h_arena_size v = h_arena_size w)"
  have step: "good (fail v) \<and> h_alloc_failures (fail v) = 1 \<and> ready_queue (fail v) = [] \<and>
      rec_queue (fail v) = []" if v: "good v" for v
  proof -
    have v': "writer_ok v" "roomy (h_arena_size v) (max align 1)" "unat (h_arena_size v) < unat sz"
      using v assms(2,3) by (simp_all add: good_def)
    have r: "alloc_lease v sz align = (fail v, snd (alloc_lease v sz align))" by (simp add: fail_def)
    note n = alloc_lease_no_room [OF v'(1) alloc_lease_too_big [OF v'] r]
    show ?thesis using n(1-3,13) v v'(3) alloc_lease_arena_size [OF v'] by (simp add: good_def fail_def)
  qed
  have "good ((fail ^^ n) w)"
    by (induction n) (use step assms(1) in \<open>simp_all add: good_def\<close>)
  from step [OF this] show ?thesis by simp
qed

text \<open>
  When nothing that is queued can make room, \<open>alloc_lease\<close> starts the allocator again from
  scratch: a block that fits the empty arena is handed out as buffer 1 at offset 0, whatever the
  consumer still holds, both rings are emptied, and only the timeline generation tells.
\<close>

subsection \<open>Concrete instances\<close>

lemma small_arena: "h_arena_size (small_writer 2) = 4096"
proof -
  have "arena_start 2 2 = 8192" by (simp add: arena_start_def align_up_nat_def)
  then show ?thesis
    by (simp add: small_writer_def writer_create_def small_backend_def small_config_def default_config_def
        map_layout_eq create_defs)
qed

lemma small_fields:
  "h_ready_capacity (small_writer 2) = 2" "h_rec_capacity (small_writer 2) = 2"
  "length (ready (small_writer 2)) = 2" "length (recycle (small_writer 2)) = 2"
  "h_ready_head (small_writer 2) = 0" "h_ready_tail (small_writer 2) = 0"
  "h_rec_head (small_writer 2) = 0" "h_rec_tail (small_writer 2) = 0"
proof -
  note c = small_create [of 2]
  have ok: "ready_ok (small_writer 2)" "rec_ok (small_writer 2)"
    using writer_okD small_ok(5) [of 2] by simp_all
  show cap: "h_ready_capacity (small_writer 2) = 2" "h_rec_capacity (small_writer 2) = 2"
    using small_ok(8,9) [of 2] by (simp_all add: small_config_def)
  show h: "h_ready_head (small_writer 2) = 0" "h_rec_head (small_writer 2) = 0"
    using small_ok(6,7) [of 2] by simp_all
  show "length (ready (small_writer 2)) = 2" "length (recycle (small_writer 2)) = 2"
    "h_ready_tail (small_writer 2) = 0" "h_rec_tail (small_writer 2) = 0"
    using ok by (simp_all add: ready_ok_def rec_ok_def ring_ok_def cap h unat_eq_0)
qed

text \<open>One frame queued that fills the arena.\<close>

definition full_writer :: writer where
  "full_writer = (small_writer 2)
     \<lparr>ready := [ready_entry 0 \<lparr>ls_buffer_id = 1, ls_offset = 0, ls_len = 4096, ls_ptr = 0\<rparr> 5, default_ready_desc],
      h_ready_head := 1,
      w_allocator := \<lparr>fl_free = [], fl_used = [(1, (0, 4096))], fl_next_id = 2\<rparr>\<rparr>"

text \<open>The same frame after the consumer has taken it.\<close>

definition held_writer :: writer where
  "held_writer = full_writer\<lparr>h_ready_tail := 1\<rparr>"

lemma full_writer_ok:
  "writer_ok full_writer" "ready_queue full_writer = [(1, 0, 4096, 5)]" "h_arena_size full_writer = 4096"
  "rec_queue full_writer = []"
  "writer_ok held_writer" "ready_queue held_writer = []" "h_arena_size held_writer = 4096"
  "rec_queue held_writer = []"
  by (simp_all add: full_writer_def held_writer_def small_fields small_arena writer_ok_def ready_ok_def
      rec_ok_def ring_ok_def ready_entries_def ready_queue_def rec_queue_def rec_entries_def ring_list_def
      desc_in_arena_def ready_entry_def frame_of_def alloc_wf_def in_bounds_def used_disjoint_def)

theorem alloc_lease_drops_fewest_witness:
  "\<exists>w' lease. alloc_lease full_writer 100 64 = (w', Ok lease) \<and> writer_ok w' \<and> ready_queue w' = []"
proof -
  have a: "alloc (w_allocator full_writer) 100 64 = None"
    by (simp add: alloc_carve full_writer_def)
  have "free_all [1] (w_allocator full_writer) = \<lparr>fl_free = [(0, 4096)], fl_used = [], fl_next_id = 2\<rparr>"
    by (simp add: full_writer_def free_by_id_def insert_and_coalesce_def merge_step_def)
  then have b: "alloc (free_all [1] (w_allocator full_writer)) 100 64 \<noteq> None"
    "fl_next_id (free_all [1] (w_allocator full_writer)) = 2"
    by (simp_all add: alloc_carve fits_def align_up_def Let_def word_le_nat_alt unat_max max_def)
  have "\<exists>w' lease. alloc_lease full_writer 100 64 = (w', Ok lease) \<and> writer_ok w' \<and>
    ready_queue w' = drop 1 (ready_queue full_writer) \<and> rec_queue w' = rec_queue full_writer \<and>
    arena w' = arena full_writer \<and>
    live (w_allocator w') =
      (\<lambda>i. if i \<in> set (take 1 (map fst (ready_queue full_writer))) then None else live (w_allocator full_writer) i)
      (ls_buffer_id lease \<mapsto> (ls_offset lease, ucast (100 :: u32))) \<and>
    (\<forall>i q. live (w_allocator full_writer) i = Some q \<and> i \<notin> set (take 1 (map fst (ready_queue full_writer))) \<longrightarrow>
       disjoint_ranges (ls_offset lease, ucast (100 :: u32)) q)"
    by (rule alloc_lease_drops_fewest) (use a b in \<open>simp_all add: full_writer_ok roomy_def unat_max\<close>)
  then show ?thesis by (auto simp: full_writer_ok)
qed

theorem alloc_lease_total_witness:
  "writer_ok (fst (alloc_lease held_writer 4097 64)) \<and> snd (alloc_lease held_writer 4097 64) = Err Exhausted"
  using alloc_lease_total [of held_writer 64 4097]
  by (simp add: full_writer_ok roomy_def unat_max)

text \<open>The rings of the small writer: two frames or buffers fit, the third has to wait.\<close>

definition demo_lease :: "u32 \<Rightarrow> lease" where
  "demo_lease i = \<lparr>ls_buffer_id = i, ls_offset = 64 * ucast i, ls_len = 32, ls_ptr = 0\<rparr>"

theorem ready_ring_fifo_witness:
  "\<exists>w' published received.
     queue_run ready_push ready_pop (small_writer 2)
       [Push (demo_lease 1, 10, 0, 0), Push (demo_lease 2, 20, 0, 0), Push (demo_lease 3, 30, 0, 0), Pop, Pop]
       = (w', published, received) \<and>
     map offered_frame published = received @ ready_queue w' \<and> length (ready_queue w') \<le> 2"
proof -
  let ?ops = "[Push (demo_lease 1, 10, 0, 0), Push (demo_lease 2, 20, 0, 0), Push (demo_lease 3, 30, 0, 0), Pop, Pop]"
  obtain w' p r where run: "queue_run ready_push ready_pop (small_writer 2) ?ops = (w', p, r)"
    by (metis prod_cases3)
  have "ready_ok (small_writer 2)" using small_ok(5) [of 2] writer_okD(1) by simp
  from ready_ring_fifo [OF this _ _ run] have "ready_queue (small_writer 2) @ map offered_frame p = r @ ready_queue w' \<and>
      length (ready_queue w') \<le> unat (h_ready_capacity (small_writer 2))"
    by (simp add: small_fields small_arena lease_in_arena_def demo_lease_def)
  then show ?thesis using run small_ok(1) [of 2] by (simp add: small_fields)
qed

end
