(* ===== verification/Reception.thy ===== *)
theory Reception
  imports Leases
begin

text \<open>
  The consumer's side: what \<open>try_recv_desc\<close>, \<open>try_recv_latest_desc\<close> and \<open>sync_startup_state\<close> take
  off the ready ring, which buffers the live policy gives back, and the bounds check in front of
  every payload access.
\<close>

section \<open>The bounds check\<close>

text \<open>
  \<open>validate_bounds\<close> accepts exactly the ranges that end inside the arena, sums above
  \<open>2 ^ 64\<close> included, so a pointer that \<open>payload_ptr\<close> returns has all its bytes in the arena.
\<close>

lemma payload_ptr_bounds:
  "(validate_bounds s offset len = Ok () \<longleftrightarrow> unat offset + unat len \<le> unat (h_arena_size s)) \<and>
   (payload_ptr s d = Ok (rv_offset d) \<longleftrightarrow>
      unat (rv_offset d) + unat (rv_len d) \<le> unat (h_arena_size s)) \<and>
   (is_ok (payload_ptr s d) \<longleftrightarrow> payload_ptr s d = Ok (rv_offset d))"
proof -
  have "payload_ptr s d = Ok (rv_offset d) \<longleftrightarrow> validate_bounds s (rv_offset d) (ucast (rv_len d)) = Ok ()"
    by (cases "validate_bounds s (rv_offset d) (ucast (rv_len d))") (simp_all add: payload_ptr_def)
  moreover have "is_ok (payload_ptr s d) \<longleftrightarrow> payload_ptr s d = Ok (rv_offset d)"
    by (cases "validate_bounds s (rv_offset d) (ucast (rv_len d))") (simp_all add: payload_ptr_def)
  ultimately show ?thesis by (simp add: validate_bounds_Ok)
qed

section \<open>Live reception\<close>

text \<open>What is given back for a frame that is skipped.\<close>

definition skipped :: "frame \<Rightarrow> returned" where
  "skipped f = (case f of (buffer_id, offset, len, pts) \<Rightarrow> (buffer_id, offset, len, 1))"

definition rec_space :: "'a shm_scheme \<Rightarrow> nat" where
  "rec_space s = unat (h_rec_capacity s) - length (rec_queue s)"

text \<open>What the giving-back loop may change.\<close>

definition only_recycled :: "'a shm_scheme \<Rightarrow> 'a shm_scheme \<Rightarrow> bool" where
  "only_recycled s s' \<longleftrightarrow> (\<exists>r h. s' = s\<lparr>recycle := r, h_rec_head := h\<rparr>)"

lemma only_recycledI: "s' = s\<lparr>recycle := r, h_rec_head := h\<rparr> \<Longrightarrow> only_recycled s s'"
  unfolding only_recycled_def by blast

lemma only_recycled_refl [simp]: "only_recycled s s"
  by (rule only_recycledI [where r = "recycle s" and h = "h_rec_head s"]) simp

lemma only_recycled_trans:
  assumes "only_recycled s t" "only_recycled t u"
  shows "only_recycled s u"
proof -
  obtain r h where "u = t\<lparr>recycle := r, h_rec_head := h\<rparr>"
    using assms(2) unfolding only_recycled_def by blast
  moreover obtain r' h' where "t = s\<lparr>recycle := r', h_rec_head := h'\<rparr>"
    using assms(1) unfolding only_recycled_def by blast
  ultimately have "u = s\<lparr>recycle := r, h_rec_head := h\<rparr>" by simp
  then show ?thesis by (rule only_recycledI)
qed

lemma only_recycled_frame:
  assumes "only_recycled s s'"
  shows "ready s' = ready s" "h_ready_capacity s' = h_ready_capacity s" "h_ready_head s' = h_ready_head s"
    "h_ready_tail s' = h_ready_tail s" "h_arena_size s' = h_arena_size s" "arena s' = arena s"
    "h_rec_tail s' = h_rec_tail s" "h_rec_capacity s' = h_rec_capacity s"
  using assms by (auto simp: only_recycled_def)

text \<open>One returned buffer: it goes in when there is space and nothing happens otherwise.\<close>

lemma try_recycle_desc_cases:
  assumes "rec_ok s" "unat (h_rec_head s) + 1 < 2 ^ 64"
  shows "if rec_space s = 0 then try_recycle_desc i off len st s = (s, Ok False)
    else \<exists>s'. try_recycle_desc i off len st s = (s', Ok True) \<and> only_recycled s s' \<and> rec_ok s' \<and>
      rec_queue s' = rec_queue s @ [(i, off, len, st)] \<and> rec_space s' = rec_space s - 1 \<and>
      unat (h_rec_head s') = unat (h_rec_head s) + 1"
proof (cases "rec_space s = 0")
  case True
  then have "\<not> h_rec_head s - h_rec_tail s < ucast (h_rec_capacity s)"
    by (simp add: rec_room_iff [OF assms(1)] rec_space_def)
  with True show ?thesis by (simp add: try_recycle_desc_full)
next
  case False
  then have "length (rec_queue s) < unat (h_rec_capacity s)" by (simp add: rec_space_def)
  then obtain s' where s': "try_recycle_desc i off len st s = (s', Ok True)" "rec_ok s'"
    "rec_queue s' = rec_queue s @ [(i, off, len, st)]" "h_rec_head s' = h_rec_head s + 1"
    "h_rec_capacity s' = h_rec_capacity s" "s' = s\<lparr>recycle := recycle s', h_rec_head := h_rec_head s'\<rparr>"
    by (rule try_recycle_desc_queue [OF assms(1) _ assms(2)]) blast
  have "unat (h_rec_head s') = unat (h_rec_head s) + 1" unfolding s'(4) by (rule unat_succ [OF assms(2)])
  with False s'(1-3,5) only_recycledI [OF s'(6)] show ?thesis by (simp add: rec_space_def)
qed

lemma recycle_until_stop: "\<not> cur < chosen \<Longrightarrow> recycle_until cur chosen dropped s = (s, Ok dropped)"
  by (subst recycle_until.simps) simp

lemma recycle_until_spec:
  assumes "ring_ok (ready s) chosen cur (ucast (h_ready_capacity s))" "rec_ok s"
    "unat (h_rec_head s) + (unat chosen - unat cur) < 2 ^ 64"
  defines "m \<equiv> min (unat chosen - unat cur) (rec_space s)"
  shows "\<exists>s'. recycle_until cur chosen dropped s = (s', Ok (dropped + of_nat m)) \<and> only_recycled s s' \<and>
    rec_ok s' \<and> rec_queue s' = rec_queue s @
      map (skipped \<circ> frame_of) (take m (ring_list (ready s) chosen cur (ucast (h_ready_capacity s))))"
  unfolding m_def using assms(1-3)
proof (induction "unat chosen - unat cur" arbitrary: cur dropped s)
  case 0
  then have "\<not> cur < chosen" by (simp add: word_less_nat_alt)
  with 0 show ?case by (auto simp: recycle_until_stop)
next
  case (Suc n)
  from Suc(2) have lt: "cur < chosen" and ne: "chosen \<noteq> cur" by (auto simp: word_less_nat_alt)
  note pop = ring_pop [OF Suc(3) ne]
  have u: "unat (cur + 1) = unat cur + 1" using lt by (intro unat_succ_less) (simp add: word_less_nat_alt)
  have n: "n = unat chosen - unat (cur + 1)" using Suc(2) u by simp
  have get: "ring_get (ready s) cur (ucast (h_ready_capacity s)) =
      Some (ready s ! (unat cur mod unat (h_ready_capacity s)))"
    using ring_get_Some [OF Suc(3)] by simp
  let ?d = "ready s ! (unat cur mod unat (h_ready_capacity s))"
  have wrap: "unat (h_rec_head s) + 1 < 2 ^ 64" using Suc(2,5) by simp
  note c = try_recycle_desc_cases [OF Suc(4) wrap, of "rd_buffer_id ?d" "rd_offset ?d" "rd_length ?d" 1]
  show ?case
  proof (cases "rec_space s = 0")
    case True
    with c have "recycle_until cur chosen dropped s = (s, Ok dropped)"
      by (subst recycle_until.simps) (simp add: lt get)
    with True Suc(4) show ?thesis by auto
  next
    case False
    with c obtain s1 where s1: "try_recycle_desc (rd_buffer_id ?d) (rd_offset ?d) (rd_length ?d) 1 s = (s1, Ok True)"
      "only_recycled s s1" "rec_ok s1" "rec_queue s1 = rec_queue s @ [skipped (frame_of ?d)]"
      "rec_space s1 = rec_space s - 1" "unat (h_rec_head s1) = unat (h_rec_head s) + 1"
      by (auto simp: skipped_def frame_of_def)
    note fr = only_recycled_frame [OF s1(2)]
    have go: "recycle_until cur chosen dropped s = recycle_until (cur + 1) chosen (dropped + 1) s1"
      by (subst recycle_until.simps) (simp add: lt get s1(1))
    have "unat (h_rec_head s1) + (unat chosen - unat (cur + 1)) < 2 ^ 64"
      using Suc(2,5) u by (simp add: s1(6))
    from Suc(1) [OF n _ s1(3) this, of "dropped + 1"] pop(1)
    obtain s' where s': "recycle_until (cur + 1) chosen (dropped + 1) s1 =
        (s', Ok (dropped + 1 + of_nat (min n (rec_space s1))))" "only_recycled s1 s'" "rec_ok s'"
      "rec_queue s' = rec_queue s1 @ map (skipped \<circ> frame_of)
         (take (min n (rec_space s1)) (ring_list (ready s) chosen (cur + 1) (ucast (h_ready_capacity s))))"
      by (auto simp: fr n)
    have m: "min (unat chosen - unat cur) (rec_space s) = Suc (min n (rec_space s1))"
      using False Suc(2) by (simp add: s1(5))
    show ?thesis
      using s' only_recycled_trans [OF s1(2) s'(2)] pop(2) by (auto simp: go m s1(4) add.assoc)
  qed
qed

text \<open>Moving the tail forward inside the queue.\<close>

lemma ready_skip:
  assumes ok: "ready_ok s" and t: "unat (h_ready_tail s) \<le> unat t" "unat t \<le> unat (h_ready_head s)"
  shows "ready_ok (s\<lparr>h_ready_tail := t\<rparr>)"
    and "ready_entries (s\<lparr>h_ready_tail := t\<rparr>) = drop (unat t - unat (h_ready_tail s)) (ready_entries s)"
proof -
  have ring: "ring_ok (ready s) (h_ready_head s) (h_ready_tail s) (ucast (h_ready_capacity s))"
    using ok by (simp add: ready_ok_def)
  note skip = ring_skip [OF ring t]
  show e: "ready_entries (s\<lparr>h_ready_tail := t\<rparr>) = drop (unat t - unat (h_ready_tail s)) (ready_entries s)"
    using skip(2) by (simp add: ready_entries_def)
  have "map (unat \<circ> rd_seq) (drop k (ready_entries s)) =
      drop k [Suc (unat (h_ready_tail s))..<Suc (unat (h_ready_head s))]" for k
    using ok by (simp only: ready_ok_def drop_map [symmetric])
  then show "ready_ok (s\<lparr>h_ready_tail := t\<rparr>)"
    using ok skip(1) t e by (auto simp: ready_ok_def desc_in_arena_def dest!: in_set_dropD simp del: upt_Suc)
qed

lemma ready_entries_nth:
  "i < length (ready_entries s) \<Longrightarrow>
   ready_entries s ! i = ready s ! ((unat (h_ready_tail s) + i) mod unat (h_ready_capacity s))"
  by (simp add: ready_entries_def ring_list_def)

lemma length_ready: "length (ready_queue s) = unat (h_ready_head s) - unat (h_ready_tail s)"
  "length (ready_entries s) = unat (h_ready_head s) - unat (h_ready_tail s)"
  by (simp_all add: ready_queue_def ready_entries_def)

lemma try_recv_latest_empty: "ready_ok s \<Longrightarrow> ready_queue s = [] \<Longrightarrow> try_recv_latest_desc s = (s, Ok None)"
  using ring_empty_iff [of "ready s" "h_ready_head s" "h_ready_tail s" "ucast (h_ready_capacity s)"]
  by (simp add: try_recv_latest_desc_def Let_def ready_queue_def ready_entries_def ready_ok_def)

text \<open>How far the loop gets, and the number of frames it is asked to skip.\<close>

definition skip_count :: "'a shm_scheme \<Rightarrow> nat" where
  "skip_count s = min (length (ready_queue s) - 2) (rec_space s)"

lemma try_recv_latest_some:
  assumes ok: "ready_ok s" and rok: "rec_ok s" and ne: "ready_queue s \<noteq> []"
    and wrap: "unat (h_rec_head s) + length (ready_queue s) < 2 ^ 64"
  obtains s1 d t where
    "try_recv_latest_desc s = (s1\<lparr>h_ready_tail := t\<rparr>, Ok (Some (received_of d, of_nat (skip_count s))))"
    "d = ready_entries s ! (length (ready_queue s) - 2)" "only_recycled s s1" "rec_ok s1"
    "rec_queue s1 = rec_queue s @ map skipped (take (skip_count s) (ready_queue s))"
    "unat t = unat (h_ready_tail s) + (if length (ready_queue s) = 1 then 1 else length (ready_queue s) - 1)"
    "if length (ready_queue s) = 1 then s1 = s
     else fst (recycle_until (h_ready_tail s) (h_ready_head s - 2) 0 s) = s1"
proof -
  let ?h = "h_ready_head s" and ?t = "h_ready_tail s" and ?cap = "ucast (h_ready_capacity s) :: u64"
  let ?n = "length (ready_queue s)"
  have ring: "ring_ok (ready s) ?h ?t ?cap" using ok by (simp add: ready_ok_def)
  have n: "?n = unat ?h - unat ?t" "0 < ?n" by (rule length_ready(1)) (metis ne length_greater_0_conv)
  then have lt: "unat ?t < unat ?h" by simp
  then have hne: "?h \<noteq> ?t" by auto
  have len: "unat (saturating_sub ?h ?t) = ?n" by (simp add: unat_saturating_sub n)
  have len1: "saturating_sub ?h ?t = 1 \<longleftrightarrow> ?n = 1" using len by (metis unat_1 word_unat_eq_iff)
  have len1': "saturating_sub ?h ?t \<le> 1 \<longleftrightarrow> ?n = 1" 
    by (simp only: word_le_nat_alt len unat_1) (use n(2) in linarith)
  define chosen where "chosen = (if saturating_sub ?h ?t = 1 then ?t else ?h - 2)"
  have chosen: "unat chosen = unat ?t + (?n - 2)"
    unfolding chosen_def len1 using n lt by (auto simp: unat_sub_no_underflow)
  have sub: "ring_ok (ready s) chosen ?t ?cap"
    using ring lt n chosen by (auto simp: ring_ok_def)
  have pre: "ring_list (ready s) chosen ?t ?cap = take (?n - 2) (ready_entries s)"
    using n chosen by (simp add: ready_entries_def ring_list_def take_map)
  define m where "m = min (unat chosen - unat ?t) (rec_space s)"
  have m: "m = skip_count s" by (simp add: m_def skip_count_def chosen)
  have "unat (h_rec_head s) + (unat chosen - unat ?t) < 2 ^ 64" using wrap chosen n by simp
  from recycle_until_spec [OF sub rok this, of 0]
  obtain s1 where s1: "recycle_until ?t chosen 0 s = (s1, Ok (of_nat m))" "only_recycled s s1" "rec_ok s1"
    "rec_queue s1 = rec_queue s @ map (skipped \<circ> frame_of) (take m (take (?n - 2) (ready_entries s)))"
    unfolding pre m_def by auto
  note fr = only_recycled_frame [OF s1(2)]
  have rq: "rec_queue s1 = rec_queue s @ map skipped (take (skip_count s) (ready_queue s))"
  proof -
    have "take m (take (?n - 2) (ready_entries s)) = take (skip_count s) (ready_entries s)"
      by (simp only: take_take m) (simp add: skip_count_def min.absorb1 min.absorb2 min.assoc min.commute)
    then show ?thesis using s1(4) by (simp only:) (simp add: ready_queue_def take_map)
  qed
  have looped: "(if saturating_sub ?h ?t = 1 then (s, Ok 0) else recycle_until ?t chosen 0 s) = (s1, Ok (of_nat m))"
  proof (cases "?n = 1")
    case True
    then have "\<not> ?t < chosen" "m = 0" by (simp_all add: chosen_def len1 m_def)
    with s1(1) show ?thesis by (auto simp: recycle_until_stop)
  qed (simp add: len1 s1(1))
  let ?d = "ready_entries s ! (?n - 2)"
  have i: "?n - 2 < length (ready_entries s)" using n by (simp add: length_ready)
  have get: "ring_get (ready s1) chosen ?cap = Some ?d"
    using ring_get_Some [OF ring, of chosen] chosen by (simp add: fr ready_entries_nth [OF i])
  have "desc_in_arena s ?d" using ok i by (simp add: ready_ok_def)
  then have vb: "validate_bounds s1 (rv_offset (received_of ?d)) (ucast (rv_len (received_of ?d))) = Ok ()"
    by (simp add: validate_bounds_Ok desc_in_arena_def fr received_of_def)
  let ?nt = "if ?n = 1 then ?h else ?h - 1"
  have "try_recv_latest_desc s = (s1\<lparr>h_ready_tail := ?nt\<rparr>, Ok (Some (received_of ?d, of_nat m)))"
    unfolding try_recv_latest_desc_def Let_def chosen_def [symmetric] looped len1'
    by (simp only: hne if_False prod.case res.case get option.case vb)
  moreover have "unat ?nt = unat ?t + (if ?n = 1 then 1 else ?n - 1)"
    using n lt by (auto simp: unat_sub_no_underflow)
  moreover have "if ?n = 1 then s1 = s else fst (recycle_until ?t (?h - 2) 0 s) = s1"
    using looped s1(1) by (auto simp: len1 chosen_def)
  ultimately show ?thesis using that s1(2,3) rq m by metis
qed

lemma received_frame_of [simp]: "received_frame (received_of d) = frame_of d"
  by (simp add: received_frame_def received_of_def frame_of_def)

lemma ready_ok_recycled:
  assumes "only_recycled s s1"
  shows "ready_ok (s1\<lparr>h_ready_tail := t\<rparr>) = ready_ok (s\<lparr>h_ready_tail := t\<rparr>) \<and>
    ready_entries (s1\<lparr>h_ready_tail := t\<rparr>) = ready_entries (s\<lparr>h_ready_tail := t\<rparr>)"
  using only_recycled_frame [OF assms]
  by (simp add: ready_ok_def ready_entries_def desc_in_arena_def)

lemma rec_ok_tail [simp]:
  "rec_ok (s\<lparr>h_ready_tail := t\<rparr>) = rec_ok s" "rec_queue (s\<lparr>h_ready_tail := t\<rparr>) = rec_queue s"
  by (simp_all add: rec_ok_def rec_queue_def rec_entries_def)

lemma live_policy_step:
  fixes s :: "'a shm_scheme"
  assumes "ready_ok s" "rec_ok s" "ready_queue s \<noteq> []"
    "unat (h_rec_head s) + length (ready_queue s) < 2 ^ 64"
  obtains s' d where
    "try_recv_latest_desc s = (s', Ok (Some (d, of_nat (skip_count s))))"
    "received_frame d = ready_queue s ! (length (ready_queue s) - 2)"
    "ready_queue s' = (if length (ready_queue s) = 1 then [] else [last (ready_queue s)])"
    "rec_queue s' = rec_queue s @ map skipped (take (skip_count s) (ready_queue s))"
    "ready_ok s'" "rec_ok s'" "\<exists>s1 t. only_recycled s s1 \<and> s' = s1\<lparr>h_ready_tail := t\<rparr>"
proof (rule try_recv_latest_some [OF assms])
  fix s1 :: "'a shm_scheme" and d t
  let ?n = "length (ready_queue s)"
  let ?s = "s1\<lparr>h_ready_tail := t\<rparr>"
  assume r: "try_recv_latest_desc s = (?s, Ok (Some (received_of d, of_nat (skip_count s))))"
    and d: "d = ready_entries s ! (?n - 2)" and o: "only_recycled s s1" and rok: "rec_ok s1"
    and rq: "rec_queue s1 = rec_queue s @ map skipped (take (skip_count s) (ready_queue s))"
    and t: "unat t = unat (h_ready_tail s) + (if ?n = 1 then 1 else ?n - 1)"
  have n: "0 < ?n" using assms(3) by (metis length_greater_0_conv)
  have le: "unat (h_ready_tail s) \<le> unat t" "unat t \<le> unat (h_ready_head s)"
    using t n length_ready(1) [of s] by (auto split: if_splits)
  note sk = ready_skip [OF assms(1) le]
  have "ready_queue ?s = drop (if ?n = 1 then 1 else ?n - 1) (ready_queue s)"
    using sk(2) ready_ok_recycled [OF o, of t] t by (simp add: ready_queue_def drop_map)
  moreover have "drop (?n - 1) (ready_queue s) = [last (ready_queue s)]"
    using append_butlast_last_id [OF assms(3)] by (metis append_eq_conv_conj length_butlast)
  moreover have "drop 1 (ready_queue s) = []" if "?n = 1" using that by simp
  ultimately have q: "ready_queue ?s = (if ?n = 1 then [] else [last (ready_queue s)])" by simp
  have "?n - 2 < length (ready_entries s)" using n by (simp add: ready_queue_def)
  then have "received_frame (received_of d) = ready_queue s ! (?n - 2)"
    by (simp add: d ready_queue_def)
  then show ?thesis
    by (rule that [OF r _ q])
      (use rq rok sk(1) ready_ok_recycled [OF o, of t] o in auto)
qed

text \<open>
  C13: the live policy. With frames waiting, \<open>try_recv_latest_desc\<close> hands over the second newest
  (the only one if there is just one) and leaves the newest, alone, in the ring. All older frames
  are gone from the ring; of these, the oldest are given back to the producer as far as the recycle
  ring has space, and the reported number counts only those. The rest are neither handed over nor
  given back: their blocks stay allocated until the producer resets.
\<close>

theorem live_policy:
  assumes "ready_ok s" and "rec_ok s" and "ready_queue s \<noteq> []"
    and "unat (h_rec_head s) + length (ready_queue s) < 2 ^ 64"
  defines "n \<equiv> length (ready_queue s)" and "k \<equiv> min (length (ready_queue s) - 2) (rec_space s)"
  shows "\<exists>s' d. try_recv_latest_desc s = (s', Ok (Some (d, of_nat k))) \<and>
    received_frame d = ready_queue s ! (n - 2) \<and>
    ready_queue s' = (if n = 1 then [] else [last (ready_queue s)]) \<and>
    rec_queue s' = rec_queue s @ map skipped (take k (ready_queue s)) \<and> ready_ok s' \<and> rec_ok s'"
proof (rule live_policy_step [OF assms(1-4)])
  fix s' d
  assume "try_recv_latest_desc s = (s', Ok (Some (d, of_nat (skip_count s))))"
    "received_frame d = ready_queue s ! (length (ready_queue s) - 2)"
    "ready_queue s' = (if length (ready_queue s) = 1 then [] else [last (ready_queue s)])"
    "rec_queue s' = rec_queue s @ map skipped (take (skip_count s) (ready_queue s))"
    "ready_ok s'" "rec_ok s'"
  then show ?thesis unfolding n_def k_def skip_count_def by blast
qed

text \<open>Three frames wait and the recycle ring has space for none of the skipped one.\<close>

definition crowded_region :: writer where
  "crowded_region = (small_writer 2)
     \<lparr>h_ready_capacity := 4,
      ready := [ready_entry 0 (demo_lease 1) 10, ready_entry 1 (demo_lease 2) 20,
                ready_entry 2 (demo_lease 3) 30, default_ready_desc],
      h_ready_head := 3, h_rec_head := 2\<rparr>"

lemma upt_3: "[0..<3] = [0, 1, 2 :: nat]" "[Suc 0..<4] = [1, 2, 3 :: nat]"
  by (simp_all add: numeral_3_eq_3 numeral_2_eq_2 upt_rec)

lemma crowded_region_ok:
  "ready_ok crowded_region" "rec_ok crowded_region" "rec_space crowded_region = 0"
  "ready_queue crowded_region = [(1, 64, 32, 10), (2, 128, 32, 20), (3, 192, 32, 30)]"
  "h_rec_head crowded_region = 2"
  by (simp_all add: crowded_region_def ready_ok_def rec_ok_def ring_ok_def ready_queue_def ready_entries_def
      rec_space_def rec_queue_def rec_entries_def ring_list_def frame_of_def ready_entry_def demo_lease_def
      small_fields small_arena desc_in_arena_def upt_3)

theorem live_policy_witness:
  "\<exists>s' d. try_recv_latest_desc crowded_region = (s', Ok (Some (d, 0))) \<and>
    received_frame d = (2, 128, 32, 20) \<and> ready_queue s' = [(3, 192, 32, 30)] \<and>
    rec_queue s' = rec_queue crowded_region"
  using live_policy [of crowded_region] by (auto simp: crowded_region_ok)

section \<open>Attaching\<close>

lemma sync_startup_state_attached:
  assumes "ready_ok s"
  shows "ready_ok (sync_startup_state s)" and "ready_queue (sync_startup_state s) = []"
proof -
  have le: "unat (h_ready_tail s) \<le> unat (h_ready_head s)" "unat (h_ready_head s) \<le> unat (h_ready_head s)"
    using assms by (simp_all add: ready_ok_def ring_ok_def)
  let ?t = "s\<lparr>h_ready_tail := h_ready_head s\<rparr>"
  have "ready_ok (sync_startup_state s) = ready_ok ?t \<and>
      ready_entries (sync_startup_state s) = ready_entries ?t \<and> ready_queue (sync_startup_state s) = ready_queue ?t"
    by (rule ready_ok_cong) (simp_all add: sync_startup_state_def)
  moreover have "ready_queue ?t = []" by (simp add: ready_queue_def ready_entries_def)
  ultimately show "ready_ok (sync_startup_state s)" "ready_queue (sync_startup_state s) = []"
    using ready_skip(1) [OF assms le] by simp_all
qed

text \<open>
  \<open>sync_startup_state\<close>, which a consumer runs when it attaches, skips every frame that was
  queued, invalidates the timeline and opens a new startup generation: a \<open>set_startup_state\<close> with
  the generation it left is refused and changes nothing, one with the new generation is accepted.
\<close>

lemma sync_startup_state_attaches:
  assumes "ready_ok s"
  shows "ready_ok (sync_startup_state s) \<and> ready_queue (sync_startup_state s) = [] \<and>
    h_startup_state (sync_startup_state s) = STARTUP_SINK_READY \<and>
    ts_valid (timeline_snapshot (sync_startup_state s)) = False \<and>
    ts_generation (timeline_snapshot (sync_startup_state s)) = h_timeline_gen s + 1 \<and>
    reader_set_startup_state (h_startup_gen s) st (sync_startup_state s) = (sync_startup_state s, False) \<and>
    snd (reader_set_startup_state (h_startup_gen s + 1) st (sync_startup_state s)) = True \<and>
    arena (sync_startup_state s) = arena s"
  using sync_startup_state_attached [OF assms]
  by (simp add: sync_startup_state_def reader_set_startup_state_def timeline_snapshot_def)

end
