(* ===== verification/Ownership.thy ===== *)
theory Ownership
  imports Reception "HOL-Library.Multiset"
begin

text \<open>
  Producer and consumer together. The state is the writer with the region both map, the leases the
  producer has not published yet, and the frames the consumer has not given back. Each step is one
  call of a method of \<open>Writer\<close> or \<open>Reader\<close>. As long as the allocator is not reset and its id counter
  does not meet a live id, every buffer has one owner: a pending lease, the ready ring, the consumer
  or the recycle ring, and the bytes of a frame do not change while it is queued or held. A reset
  breaks this, as the last section shows.
\<close>

section \<open>The system\<close>

record sys =
  sy_writer :: writer
  sy_pending :: "lease list"
  sy_held :: "received_desc list"

datatype sys_op =
    Lease u32 u64
  | Fill nat "u8 list"
  | Publish nat i64 "u64 \<times> u64"
  | Cancel nat
  | Drain
  | Receive
  | Receive_Latest
  | Give_Back nat u32
  | Attach

text \<open>
  \<open>None\<close>: the call would wait or is refused, and nothing changes. A failing \<open>alloc_lease\<close> is a step,
  since it has reset the region.
\<close>

fun sys_exec :: "sys_op \<Rightarrow> sys \<Rightarrow> sys option" where
  "sys_exec (Lease sz align) s =
     (case alloc_lease (sy_writer s) sz align of
        (w, Ok lease) \<Rightarrow> Some (s\<lparr>sy_writer := w, sy_pending := sy_pending s @ [lease]\<rparr>)
      | (w, _) \<Rightarrow> Some (s\<lparr>sy_writer := w\<rparr>))"
| "sys_exec (Fill k bytes) s =
     (if k < length (sy_pending s) \<and> length bytes = unat (ls_len (sy_pending s ! k))
      then Some (s\<lparr>sy_writer := copy_payload (sy_pending s ! k) bytes (sy_writer s)\<rparr>) else None)"
| "sys_exec (Publish k pts clock) s =
     (if k < length (sy_pending s) then
        (case publish_lease_try clock (sy_pending s ! k) pts (sy_writer s) of
           Some (w, Ok _) \<Rightarrow> Some (s\<lparr>sy_writer := w, sy_pending := vec_remove k (sy_pending s)\<rparr>)
         | _ \<Rightarrow> None)
      else None)"
| "sys_exec (Cancel k) s =
     (if k < length (sy_pending s)
      then Some (s\<lparr>sy_writer := fst (free_lease (sy_writer s) (ls_buffer_id (sy_pending s ! k))),
                   sy_pending := vec_remove k (sy_pending s)\<rparr>) else None)"
| "sys_exec Drain s =
     (case drain_recycles (sy_writer s) of (w, Ok _) \<Rightarrow> Some (s\<lparr>sy_writer := w\<rparr>) | _ \<Rightarrow> None)"
| "sys_exec Receive s =
     (case try_recv_desc (sy_writer s) of
        (w, Ok (Some d)) \<Rightarrow> Some (s\<lparr>sy_writer := w, sy_held := sy_held s @ [d]\<rparr>) | _ \<Rightarrow> None)"
| "sys_exec Receive_Latest s =
     (case try_recv_latest_desc (sy_writer s) of
        (w, Ok (Some (d, _))) \<Rightarrow> Some (s\<lparr>sy_writer := w, sy_held := sy_held s @ [d]\<rparr>) | _ \<Rightarrow> None)"
| "sys_exec (Give_Back k status) s =
     (if k < length (sy_held s) then
        (let d = sy_held s ! k
         in case recycle_desc_try (rv_buffer_id d) (rv_offset d) (rv_len d) status (sy_writer s) of
              Some (w, Ok _) \<Rightarrow> Some (s\<lparr>sy_writer := w, sy_held := vec_remove k (sy_held s)\<rparr>)
            | _ \<Rightarrow> None)
      else None)"
| "sys_exec Attach s = Some (s\<lparr>sy_writer := sync_startup_state (sy_writer s)\<rparr>)"

text \<open>The ring counters are below their range, with room for one more round.\<close>

definition counters_low :: "'a shm_scheme \<Rightarrow> bool" where
  "counters_low v \<longleftrightarrow> unat (h_ready_head v) + 1 < 2 ^ 64 \<and>
     unat (h_rec_head v) + length (ready_queue v) + 1 < 2 ^ 64"

text \<open>
  A calm step: the ring counters are below their range, and an allocation neither resets the
  region (the timeline generation stays) nor is given the id of a live block.
\<close>

definition calm :: "sys_op \<Rightarrow> sys \<Rightarrow> bool" where
  "calm x s \<longleftrightarrow>
     unat (h_ready_head (sy_writer s)) + 1 < 2 ^ 64 \<and>
     unat (h_rec_head (sy_writer s)) + length (ready_queue (sy_writer s)) + 1 < 2 ^ 64 \<and>
     (case x of
        Lease sz align \<Rightarrow>
          roomy (h_arena_size (sy_writer s)) (max align 1) \<and>
          (case alloc_lease (sy_writer s) sz align of
             (w, r) \<Rightarrow> h_timeline_gen w = h_timeline_gen (sy_writer s) \<and>
               (case r of Ok lease \<Rightarrow> live (w_allocator (sy_writer s)) (ls_buffer_id lease) = None
                | _ \<Rightarrow> True))
      | _ \<Rightarrow> True)"

inductive reachable :: "writer \<Rightarrow> sys \<Rightarrow> bool" for w where
  created: "writer_create be pid path cfg = Ok w \<Longrightarrow> reachable w \<lparr>sy_writer = w, sy_pending = [], sy_held = []\<rparr>"
| step: "reachable w s \<Longrightarrow> calm x s \<Longrightarrow> sys_exec x s = Some s' \<Longrightarrow> reachable w s'"

section \<open>Ownership\<close>

type_synonym buffer = "u32 \<times> u64 \<times> u32"

definition lease_buffer :: "lease \<Rightarrow> buffer" where
  "lease_buffer l = (ls_buffer_id l, ls_offset l, ls_len l)"

definition frame_buffer :: "frame \<Rightarrow> buffer" where
  "frame_buffer f = (case f of (i, off, len, pts) \<Rightarrow> (i, off, len))"

definition held_buffer :: "received_desc \<Rightarrow> buffer" where
  "held_buffer d = (rv_buffer_id d, rv_offset d, rv_len d)"

definition returned_buffer :: "returned \<Rightarrow> buffer" where
  "returned_buffer r = (case r of (i, off, len, st) \<Rightarrow> (i, off, len))"

lemma buffer_conv [simp]:
  "returned_buffer (skipped f) = frame_buffer f"
  "frame_buffer (received_frame d) = held_buffer d"
  "frame_buffer (offered_frame (l, pts, clock)) = lease_buffer l"
  by (simp_all add: returned_buffer_def skipped_def frame_buffer_def received_frame_def held_buffer_def
      offered_frame_def lease_buffer_def split: prod.split)

text \<open>All buffers in circulation, by owner.\<close>

definition circulating :: "sys \<Rightarrow> buffer list" where
  "circulating s =
     map lease_buffer (sy_pending s) @ map frame_buffer (ready_queue (sy_writer s)) @
     map held_buffer (sy_held s) @ map returned_buffer (rec_queue (sy_writer s))"

definition leased :: "free_list_allocator \<Rightarrow> buffer \<Rightarrow> bool" where
  "leased a b = (case b of (i, off, len) \<Rightarrow> live a i = Some (off, ucast len))"

definition owned :: "sys \<Rightarrow> bool" where
  "owned s \<longleftrightarrow> writer_ok (sy_writer s) \<and> distinct (map fst (circulating s)) \<and>
     (\<forall>b\<in>set (circulating s). leased (w_allocator (sy_writer s)) b) \<and>
     (\<forall>l\<in>set (sy_pending s). ls_ptr l = w_arena (sy_writer s) + ls_offset l)"

lemma distinct_mset_mono:
  assumes "mset ys \<subseteq># mset xs" "distinct (map fst xs)"
  shows "distinct (map fst ys)" and "set ys \<subseteq> set xs"
proof -
  have "mset (map fst ys) \<subseteq># mset (map fst xs)" using assms(1) by (simp add: image_mset_subseteq_mono)
  then obtain zs where "mset (map fst xs) = mset (map fst ys) + mset zs"
    by (metis ex_mset mset_subset_eq_exists_conv)
  then have "mset (map fst xs) = mset (map fst ys @ zs)" by simp
  with assms(2) have "distinct (map fst ys @ zs)" by (metis mset_eq_imp_distinct_iff)
  then show "distinct (map fst ys)" by simp
  show "set ys \<subseteq> set xs" using set_mset_mono [OF assms(1)] by simp
qed

text \<open>A step that only moves buffers between owners, or loses some.\<close>

definition same_arena :: "sys \<Rightarrow> sys \<Rightarrow> bool" where
  "same_arena s s' \<longleftrightarrow> set (sy_pending s') \<subseteq> set (sy_pending s) \<and>
     w_arena (sy_writer s') = w_arena (sy_writer s) \<and> h_arena_size (sy_writer s') = h_arena_size (sy_writer s)"

definition moves :: "sys \<Rightarrow> sys \<Rightarrow> bool" where
  "moves s s' \<longleftrightarrow> writer_ok (sy_writer s') \<and> w_allocator (sy_writer s') = w_allocator (sy_writer s) \<and>
     mset (circulating s') \<subseteq># mset (circulating s) \<and> same_arena s s'"

lemma movesI:
  assumes "writer_ok (sy_writer s')" "w_allocator (sy_writer s') = w_allocator (sy_writer s)"
    "mset (circulating s') \<subseteq># mset (circulating s)" "set (sy_pending s') \<subseteq> set (sy_pending s)"
    "w_arena (sy_writer s') = w_arena (sy_writer s)" "h_arena_size (sy_writer s') = h_arena_size (sy_writer s)"
  shows "moves s s'"
  using assms by (simp add: moves_def same_arena_def)

lemma owned_moves: "owned s \<Longrightarrow> moves s s' \<Longrightarrow> owned s'"
  using distinct_mset_mono [of "circulating s'" "circulating s"] unfolding owned_def moves_def same_arena_def by auto

lemma mset_vec_remove: "k < length xs \<Longrightarrow> add_mset (xs ! k) (mset (vec_remove k xs)) = mset xs"
  by (metis id_take_nth_drop mset.simps(2) mset_append union_mset_add_mset_right vec_remove_def)

lemma set_vec_remove: "set (vec_remove k xs) \<subseteq> set xs"
  by (auto simp: vec_remove_def dest: in_set_takeD in_set_dropD)

section \<open>Each step keeps ownership\<close>

lemma publish_in_arena:
  assumes ok: "writer_ok w" and calm: "unat (h_ready_head w) + 1 < 2 ^ 64"
    and valid: "lease_in_arena w (lease, pts, clock)"
    and p: "publish_lease_try clock lease pts w = Some (w', r)"
  shows "r = Ok ()" and "writer_ok w'" and "ready_queue w' = ready_queue w @ [offered_frame (lease, pts, clock)]"
    and "rec_queue w' = rec_queue w" and "w_allocator w' = w_allocator w" and "w_arena w' = w_arena w"
    and "arena w' = arena w" and "h_ready_head w' = h_ready_head w + 1" and "h_rec_head w' = h_rec_head w"
    and "h_arena_size w' = h_arena_size w"
proof -
  note o = writer_okD [OF ok]
  have room: "h_ready_head w - h_ready_tail w < ucast (h_ready_capacity w)"
    using p publish_lease_try_None [of clock lease pts w] by auto
  then have len: "length (ready_queue w) < unat (h_ready_capacity w)" using ready_room_iff [OF o(1)] by simp
  note q = publish_lease_try_queue [OF o(1) len calm valid p]
  show "r = Ok ()" "ready_queue w' = ready_queue w @ [offered_frame (lease, pts, clock)]"
    "w_allocator w' = w_allocator w" "arena w' = arena w" "h_ready_head w' = h_ready_head w + 1"
    by (rule q(1), rule q(3), rule q(7), rule q(8), rule q(4))
  note w' = p [unfolded publish_lease_try_room [OF o(1) room]]
  have "recycle w' = recycle w" "h_rec_head w' = h_rec_head w" "h_rec_tail w' = h_rec_tail w"
    "h_rec_capacity w' = h_rec_capacity w" "h_arena_size w' = h_arena_size w" and a: "w_arena w' = w_arena w"
    using w' by (auto simp: w_arena_def)
  then show "h_rec_head w' = h_rec_head w" "h_arena_size w' = h_arena_size w" by simp_all
  from \<open>recycle w' = recycle w\<close> \<open>h_rec_head w' = h_rec_head w\<close> \<open>h_rec_tail w' = h_rec_tail w\<close>
    \<open>h_rec_capacity w' = h_rec_capacity w\<close> have "rec_ok w' = rec_ok w \<and> rec_queue w' = rec_queue w" by (intro rec_ok_cong)
  then show "rec_queue w' = rec_queue w" "writer_ok w'" "w_arena w' = w_arena w"
    using o q(2,6,7) a by (simp_all add: writer_ok_def)
qed

lemma live_in_arena:
  "writer_ok w \<Longrightarrow> live (w_allocator w) (ls_buffer_id lease) = Some (ls_offset lease, ucast (ls_len lease)) \<Longrightarrow>
     lease_in_arena w (lease, pts, clock)"
  using alloc_wf_live_bounds [of "h_arena_size w" "w_allocator w"] by (force simp: lease_in_arena_def in_bounds_def writer_ok_def)

lemma publish_step:
  assumes ok: "writer_ok w" and calm: "unat (h_ready_head w) + 1 < 2 ^ 64"
    and l: "live (w_allocator w) (ls_buffer_id lease) = Some (ls_offset lease, ucast (ls_len lease))"
    and p: "publish_lease_try clock lease pts w = Some (w', r)"
  shows "r = Ok ()" and "writer_ok w'" and "ready_queue w' = ready_queue w @ [offered_frame (lease, pts, clock)]"
    and "rec_queue w' = rec_queue w" and "w_allocator w' = w_allocator w" and "w_arena w' = w_arena w"
    and "arena w' = arena w" and "h_ready_head w' = h_ready_head w + 1" and "h_rec_head w' = h_rec_head w"
    and "h_arena_size w' = h_arena_size w"
  by (fact publish_in_arena [OF ok calm live_in_arena [OF ok l] p])+

lemma owned_pending:
  assumes "owned s" "k < length (sy_pending s)"
  defines "l \<equiv> sy_pending s ! k"
  shows "live (w_allocator (sy_writer s)) (ls_buffer_id l) = Some (ls_offset l, ucast (ls_len l))"
    and "ls_ptr l = w_arena (sy_writer s) + ls_offset l"
proof -
  have l: "l \<in> set (sy_pending s)" using assms(2) by (simp add: l_def)
  then show "ls_ptr l = w_arena (sy_writer s) + ls_offset l" using assms(1) by (simp add: owned_def)
  have "lease_buffer l \<in> set (circulating s)" using l by (auto simp: circulating_def)
  then have "leased (w_allocator (sy_writer s)) (lease_buffer l)" using assms(1) by (simp add: owned_def)
  then show "live (w_allocator (sy_writer s)) (ls_buffer_id l) = Some (ls_offset l, ucast (ls_len l))"
    by (simp add: leased_def lease_buffer_def)
qed

lemma publish_moves:
  assumes ok: "writer_ok (sy_writer s)" and wrap: "counters_low (sy_writer s)"
    and l: "k < length (sy_pending s) \<Longrightarrow> lease_in_arena (sy_writer s) (sy_pending s ! k, pts, clock)"
    and x: "sys_exec (Publish k pts clock) s = Some s'"
  shows "moves s s'"
proof -
  from x obtain w' where k: "k < length (sy_pending s)"
    and p: "publish_lease_try clock (sy_pending s ! k) pts (sy_writer s) = Some (w', Ok ())"
    and s': "s' = s\<lparr>sy_writer := w', sy_pending := vec_remove k (sy_pending s)\<rparr>"
    by (auto split: if_splits option.splits res.splits)
  have "unat (h_ready_head (sy_writer s)) + 1 < 2 ^ 64" using wrap by (simp add: counters_low_def)
  note q = publish_in_arena [OF ok this l [OF k] p]
  show ?thesis
  proof (rule movesI)
    show "mset (circulating s') \<subseteq># mset (circulating s)"
      unfolding circulating_def using mset_vec_remove [OF k]
      by (simp add: s' q(3,4) flip: image_mset_add_mset)
  qed (use q in \<open>simp_all add: s' set_vec_remove\<close>)
qed

lemma w_arena_region [simp]:
  "w_arena (w\<lparr>h_ready_tail := t\<rparr>) = w_arena w"
  "w_arena (w\<lparr>recycle := r, h_rec_head := h\<rparr>) = w_arena w"
  "w_arena (w\<lparr>arena := m\<rparr>) = w_arena w"
  for w :: writer
  by (simp_all add: w_arena_def)

lemma receive_moves:
  assumes "writer_ok (sy_writer s)" "sys_exec Receive s = Some s'"
  shows "moves s s'"
proof -
  let ?w = "sy_writer s"
  note o = writer_okD [of ?w]
  note ok = assms(1)
  have "ready_queue ?w \<noteq> []"
    using assms(2) try_recv_desc_empty [OF o(1) [OF ok]] by (auto split: res.splits)
  then obtain d ds where q: "ready_entries ?w = d # ds" by (cases "ready_entries ?w") (auto simp: ready_queue_def)
  note t = try_recv_desc_some [OF o(1) [OF ok] q]
  let ?w' = "?w\<lparr>h_ready_tail := h_ready_tail ?w + 1\<rparr>"
  have s': "s' = s\<lparr>sy_writer := ?w', sy_held := sy_held s @ [received_of d]\<rparr>"
    using assms(2) by (simp add: t(1))
  have rq: "ready_queue ?w' = map frame_of ds" by (simp add: ready_queue_def t(3))
  have rf: "held_buffer (received_of d) = frame_buffer (frame_of d)"
    by (metis buffer_conv(2) received_frame_of)
  show ?thesis
  proof (rule movesI)
    show "mset (circulating s') \<subseteq># mset (circulating s)"
      unfolding circulating_def by (simp add: s' rq)
        (simp add: ready_queue_def q rf image_mset.compositionality comp_def)
    show "writer_ok (sy_writer s')"
      using t(2) o(2,3) [OF ok] by (simp add: s' writer_ok_def)
  qed (simp_all add: s')
qed

lemma mset_latest:
  assumes "2 \<le> length q" "m \<le> length q - 2"
  shows "add_mset (q ! (length q - 2)) (add_mset (last q) (mset (take m q))) \<subseteq># mset q"
proof -
  have "drop (length q - 2) q = [q ! (length q - 2), last q]"
  proof -
    have "Suc (length q - 2) = length q - 1" using assms(1) by simp
    moreover have "drop (length q - 1) q = [last q]"
      using assms(1) append_butlast_last_id [of q] by (metis append_eq_conv_conj length_butlast list.size(3) not_numeral_le_zero)
    moreover have "length q - 2 < length q" using assms(1) by simp
    ultimately show ?thesis by (simp add: Cons_nth_drop_Suc [symmetric])
  qed
  moreover have "mset (take m q) \<subseteq># mset (take (length q - 2) q)"
    using assms(2) by (metis append_take_drop_id mset_append mset_subset_eq_add_left take_take min.absorb1)
  moreover have "mset q = mset (take (length q - 2) q) + mset (drop (length q - 2) q)"
    by (metis append_take_drop_id mset_append)
  ultimately show ?thesis by simp
qed

lemma latest_moves:
  assumes "writer_ok (sy_writer s)" "counters_low (sy_writer s)" "sys_exec Receive_Latest s = Some s'"
  shows "moves s s'"
proof -
  let ?w = "sy_writer s" and ?q = "ready_queue (sy_writer s)"
  note ok = assms(1)
  note o = writer_okD [OF ok]
  have ne: "?q \<noteq> []" using assms(3) try_recv_latest_empty [OF o(1)] by (auto split: res.splits)
  have wrap: "unat (h_rec_head ?w) + length ?q < 2 ^ 64" using assms(2) by (simp add: counters_low_def)
  obtain w' d where r: "try_recv_latest_desc ?w = (w', Ok (Some (d, of_nat (skip_count ?w))))"
    and d: "received_frame d = ?q ! (length ?q - 2)"
    and q': "ready_queue w' = (if length ?q = 1 then [] else [last ?q])"
    and rq: "rec_queue w' = rec_queue ?w @ map skipped (take (skip_count ?w) ?q)"
    and ok': "ready_ok w'" "rec_ok w'" and fr: "\<exists>s1 t. only_recycled ?w s1 \<and> w' = s1\<lparr>h_ready_tail := t\<rparr>"
    by (rule live_policy_step [OF o(1,2) ne wrap]) blast
  have al: "w_allocator w' = w_allocator ?w" "w_arena w' = w_arena ?w" "h_arena_size w' = h_arena_size ?w"
    using fr by (auto simp: only_recycled_def)
  have s': "s' = s\<lparr>sy_writer := w', sy_held := sy_held s @ [d]\<rparr>" using assms(3) by (simp add: r)
  have hd: "held_buffer d = frame_buffer (?q ! (length ?q - 2))"
    by (metis buffer_conv(2) d)
  have "mset (map frame_buffer ((?q ! (length ?q - 2)) # ready_queue w' @ take (skip_count ?w) ?q))
      \<subseteq># mset (map frame_buffer ?q)"
    unfolding mset_map
  proof (rule image_mset_subseteq_mono, cases "length ?q = 1")
    case True
    then have "?q = [?q ! 0]" by (cases ?q) auto
    then have "mset ?q = {#?q ! 0#}" by (metis mset_single_iff)
    with True show "mset ((?q ! (length ?q - 2)) # ready_queue w' @ take (skip_count ?w) ?q) \<subseteq># mset ?q"
      by (simp add: q' skip_count_def)
  next
    case False
    with ne have "2 \<le> length ?q" by (cases ?q rule: list.exhaust) (auto simp: Suc_le_eq)
    from mset_latest [OF this, of "skip_count ?w"] False
    show "mset ((?q ! (length ?q - 2)) # ready_queue w' @ take (skip_count ?w) ?q) \<subseteq># mset ?q"
      by (simp add: q' skip_count_def)
  qed
  then have "mset (circulating s') \<subseteq># mset (circulating s)"
    unfolding circulating_def by (simp add: s' rq hd image_mset.compositionality comp_def ac_simps)
  then show ?thesis
    by (rule movesI [rotated 2]) (use al ok' o(3) in \<open>simp_all add: s' writer_ok_def\<close>)
qed

lemma give_back_moves:
  assumes "writer_ok (sy_writer s)" "counters_low (sy_writer s)" "sys_exec (Give_Back k st) s = Some s'"
  shows "moves s s'"
proof -
  let ?w = "sy_writer s" and ?d = "sy_held s ! k"
  note ok = assms(1)
  note o = writer_okD [OF ok]
  from assms(3) obtain w' where k: "k < length (sy_held s)"
    and r: "recycle_desc_try (rv_buffer_id ?d) (rv_offset ?d) (rv_len ?d) st ?w = Some (w', Ok ())"
    and s': "s' = s\<lparr>sy_writer := w', sy_held := vec_remove k (sy_held s)\<rparr>"
    by (auto simp: Let_def split: if_splits option.splits res.splits)
  have wrap: "unat (h_rec_head ?w) + 1 < 2 ^ 64" using assms(2) by (simp add: counters_low_def)
  note c = try_recycle_desc_cases [OF o(2) wrap, of "rv_buffer_id ?d" "rv_offset ?d" "rv_len ?d" st]
  have space: "rec_space ?w \<noteq> 0"
  proof
    assume "rec_space ?w = 0"
    with c r show False by (simp add: recycle_desc_try_eq)
  qed
  with c r have w': "only_recycled ?w w'" "rec_ok w'"
    "rec_queue w' = rec_queue ?w @ [(rv_buffer_id ?d, rv_offset ?d, rv_len ?d, st)]"
    by (auto simp: recycle_desc_try_eq)
  have al: "w_allocator w' = w_allocator ?w" "w_arena w' = w_arena ?w" "h_arena_size w' = h_arena_size ?w"
    using w'(1) by (auto simp: only_recycled_def)
  note fr = only_recycled_frame [OF w'(1)]
  have rd: "ready_ok w' = ready_ok ?w \<and> ready_entries w' = ready_entries ?w \<and> ready_queue w' = ready_queue ?w"
    by (rule ready_ok_cong) (simp_all add: fr)
  have "returned_buffer (rv_buffer_id ?d, rv_offset ?d, rv_len ?d, st) = held_buffer ?d"
    by (simp add: returned_buffer_def held_buffer_def)
  then have "mset (circulating s') \<subseteq># mset (circulating s)"
    unfolding circulating_def using mset_vec_remove [OF k]
    by (simp add: s' w'(3) rd flip: image_mset_add_mset)
  then show ?thesis
    by (rule movesI [rotated 2]) (use al w'(2) rd o in \<open>simp_all add: s' writer_ok_def\<close>)
qed

lemma attach_moves:
  assumes "writer_ok (sy_writer s)" "sys_exec Attach s = Some s'"
  shows "moves s s'"
proof -
  let ?w = "sy_writer s"
  note o = writer_okD [of ?w]
  note ok = assms(1)
  have s': "s' = s\<lparr>sy_writer := sync_startup_state ?w\<rparr>" using assms(2) by simp
  have rd: "ready_ok (sync_startup_state ?w)" "ready_queue (sync_startup_state ?w) = []"
    using sync_startup_state_attached [OF o(1) [OF ok]] by simp_all
  have f: "w_allocator (sync_startup_state ?w) = w_allocator ?w" "w_arena (sync_startup_state ?w) = w_arena ?w"
    "h_arena_size (sync_startup_state ?w) = h_arena_size ?w"
    by (simp_all add: sync_startup_state_def w_arena_def)
  have rc: "rec_ok (sync_startup_state ?w) = rec_ok ?w \<and> rec_queue (sync_startup_state ?w) = rec_queue ?w"
    by (rule rec_ok_cong) (simp_all add: sync_startup_state_def)
  have "mset (circulating s') \<subseteq># mset (circulating s)"
    unfolding circulating_def by (simp add: s' rd(2) rc)
  then show ?thesis
    by (rule movesI [rotated 2]) (use f rd(1) rc o [OF ok] in \<open>simp_all add: s' writer_ok_def\<close>)
qed

lemma fill_moves:
  assumes "writer_ok (sy_writer s)" "sys_exec (Fill k bytes) s = Some s'"
  shows "moves s s'"
proof -
  let ?w = "sy_writer s" and ?w' = "copy_payload (sy_pending s ! k) bytes (sy_writer s)"
  have s': "s' = s\<lparr>sy_writer := ?w'\<rparr>" using assms(2) by (simp split: if_splits)
  have rd: "ready_ok ?w' = ready_ok ?w \<and> ready_entries ?w' = ready_entries ?w \<and> ready_queue ?w' = ready_queue ?w"
    by (rule ready_ok_cong) (simp_all add: copy_payload_def)
  have rc: "rec_ok ?w' = rec_ok ?w \<and> rec_queue ?w' = rec_queue ?w"
    by (rule rec_ok_cong) (simp_all add: copy_payload_def)
  have f: "w_allocator ?w' = w_allocator ?w" "w_arena ?w' = w_arena ?w" "h_arena_size ?w' = h_arena_size ?w"
    by (simp_all add: copy_payload_def)
  have "circulating s' = circulating s" by (simp add: circulating_def s' rd rc)
  moreover have "writer_ok ?w'" using assms(1) rd rc f by (simp add: writer_ok_def)
  ultimately show ?thesis using f by (simp add: moves_def same_arena_def s')
qed

text \<open>Freeing the ids of some owner: everyone else's buffers stay leased.\<close>

lemma leased_free_all:
  assumes "distinct (map fst (xs @ ys))" "\<forall>b\<in>set ys. leased a b"
  shows "\<forall>b\<in>set ys. leased (free_all (map fst xs) a) b"
proof
  fix b
  assume b: "b \<in> set ys"
  obtain i off len where c: "b = (i, off, len)" by (cases b)
  have "i \<in> fst ` set ys" using b c by force
  then have "i \<notin> set (map fst xs)" using assms(1) by auto
  moreover have "leased a b" using assms(2) b by blast
  ultimately show "leased (free_all (map fst xs) a) b" by (simp add: leased_def live_free_all c)
qed

lemma cancel_frame:
  assumes ok: "writer_ok (sy_writer s)" and x: "sys_exec (Cancel k) s = Some s'"
  shows "writer_ok (sy_writer s')" and "same_arena s s'"
    and "mset (lease_buffer (sy_pending s ! k) # circulating s') = mset (circulating s)"
    and "w_allocator (sy_writer s') = fst (free_by_id (w_allocator (sy_writer s)) (ls_buffer_id (sy_pending s ! k)))"
proof -
  let ?w = "sy_writer s" and ?l = "sy_pending s ! k"
  let ?a = "fst (free_by_id (w_allocator ?w) (ls_buffer_id ?l))"
  have k: "k < length (sy_pending s)"
    and s': "s' = s\<lparr>sy_writer := ?w\<lparr>w_allocator := ?a, h_arena_used_bytes := used_bytes ?a\<rparr>,
                     sy_pending := vec_remove k (sy_pending s)\<rparr>"
    using x by (auto simp: free_lease_def case_prod_beta Let_def split: if_splits)
  have w': "writer_ok (sy_writer s')" "ready_queue (sy_writer s') = ready_queue ?w"
    "rec_queue (sy_writer s') = rec_queue ?w"
    using ok alloc_wf_free
    by (simp_all add: s' writer_ok_def ready_ok_def rec_ok_def ready_queue_def rec_queue_def
        ready_entries_def rec_entries_def desc_in_arena_def)
  show "writer_ok (sy_writer s')" by (rule w'(1))
  show "same_arena s s'" by (simp add: same_arena_def s' w_arena_def set_vec_remove)
  show "mset (lease_buffer ?l # circulating s') = mset (circulating s)"
    unfolding circulating_def using mset_vec_remove [OF k] by (simp add: w') (simp add: s' flip: image_mset_add_mset)
  show "w_allocator (sy_writer s') = ?a" by (simp add: s')
qed

lemma owned_cancel:
  assumes "owned s" "sys_exec (Cancel k) s = Some s'"
  shows "owned s'"
proof -
  have ok: "writer_ok (sy_writer s)" using assms(1) by (simp add: owned_def)
  note f = cancel_frame [OF ok assms(2)]
  let ?l = "sy_pending s ! k"
  have d: "distinct (map fst ([lease_buffer ?l] @ circulating s'))"
    using assms(1) f(3) distinct_mset_mono(1) [of "lease_buffer ?l # circulating s'" "circulating s"]
    by (simp add: owned_def)
  have "set (circulating s') \<subseteq> set (circulating s)" using f(3) by (metis set_mset_mset set_subset_Cons)
  then have "\<forall>b\<in>set (circulating s'). leased (w_allocator (sy_writer s)) b" using assms(1) by (auto simp: owned_def)
  from leased_free_all [OF d this] have "\<forall>b\<in>set (circulating s'). leased (w_allocator (sy_writer s')) b"
    by (simp add: f(4) lease_buffer_def)
  moreover have "\<forall>l\<in>set (sy_pending s'). ls_ptr l = w_arena (sy_writer s') + ls_offset l"
    using assms(1) f(2) by (auto simp: owned_def same_arena_def)
  ultimately show ?thesis using d f(1) by (simp add: owned_def)
qed

lemma drain_frame:
  assumes ok: "writer_ok (sy_writer s)" and x: "sys_exec Drain s = Some s'"
  shows "writer_ok (sy_writer s')" and "same_arena s s'"
    and "mset (map returned_buffer (rec_queue (sy_writer s)) @ circulating s') = mset (circulating s)"
    and "w_allocator (sy_writer s') = free_all (map rc_buffer_id (rec_entries (sy_writer s))) (w_allocator (sy_writer s))"
proof -
  let ?w = "sy_writer s"
  note o = writer_okD [OF ok]
  let ?a = "free_all (map rc_buffer_id (rec_entries ?w)) (w_allocator ?w)"
  have s': "s' = s\<lparr>sy_writer := ?w\<lparr>w_allocator := ?a, h_rec_tail := h_rec_head ?w,
      h_arena_used_bytes := used_bytes ?a\<rparr>\<rparr>"
    using x by (simp add: drain_recycles_def drain_loop_all [OF o(2)])
  have w': "writer_ok (sy_writer s')" "ready_queue (sy_writer s') = ready_queue ?w" "rec_queue (sy_writer s') = []"
    using ok alloc_wf_free_all
    by (simp_all add: s' writer_ok_def ready_ok_def rec_ok_def ready_queue_def rec_queue_def
        ready_entries_def rec_entries_def desc_in_arena_def ring_ok_def)
  show "writer_ok (sy_writer s')" by (rule w'(1))
  show "same_arena s s'" by (simp add: same_arena_def s' w_arena_def)
  show "mset (map returned_buffer (rec_queue ?w) @ circulating s') = mset (circulating s)"
    unfolding circulating_def by (simp add: w') (simp add: s')
  show "w_allocator (sy_writer s') = ?a" by (simp add: s')
qed

lemma owned_drain:
  assumes "owned s" "sys_exec Drain s = Some s'"
  shows "owned s'"
proof -
  let ?w = "sy_writer s"
  have ok: "writer_ok ?w" using assms(1) by (simp add: owned_def)
  note f = drain_frame [OF ok assms(2)]
  let ?rs = "map returned_buffer (rec_queue ?w)"
  have ids: "map fst ?rs = map rc_buffer_id (rec_entries ?w)"
    by (simp add: rec_queue_def returned_of_def returned_buffer_def)
  have d: "distinct (map fst (?rs @ circulating s'))"
    using assms(1) f(3) distinct_mset_mono(1) [of "?rs @ circulating s'" "circulating s"]
    by (simp add: owned_def)
  have "set (circulating s') \<subseteq> set (circulating s)"
    using f(3) by (metis Un_upper2 set_append set_mset_mset)
  then have "\<forall>b\<in>set (circulating s'). leased (w_allocator ?w) b" using assms(1) by (auto simp: owned_def)
  from leased_free_all [OF d this] have "\<forall>b\<in>set (circulating s'). leased (w_allocator (sy_writer s')) b"
    by (simp only: ids f(4))
  moreover have "\<forall>l\<in>set (sy_pending s'). ls_ptr l = w_arena (sy_writer s') + ls_offset l"
    using assms(1) f(2) by (auto simp: owned_def same_arena_def)
  ultimately show ?thesis using d f(1) by (simp add: owned_def)
qed

lemma owned_lease:
  assumes "owned s" "calm (Lease sz align) s" "sys_exec (Lease sz align) s = Some s'"
  shows "owned s'"
proof -
  let ?w = "sy_writer s" and ?q = "ready_queue (sy_writer s)"
  have ok: "writer_ok ?w" using assms(1) by (simp add: owned_def)
  have room: "roomy (h_arena_size ?w) (max align 1)" using assms(2) by (simp add: calm_def)
  obtain w' r where r: "alloc_lease ?w sz align = (w', r)" by force
  have gen: "h_timeline_gen w' = h_timeline_gen ?w" using assms(2) by (simp add: calm_def r)
  obtain k where k: "drops_needed ?w sz align = Some k"
  proof (cases "drops_needed ?w sz align")
    case None
    from alloc_lease_no_room(4) [OF ok None r] gen show ?thesis by simp
  qed (rule that)
  obtain l where l: "r = Ok l" "writer_ok w'" "ready_queue w' = drop k ?q" "rec_queue w' = rec_queue ?w"
    "same_region ?w w'" "ls_len l = sz" "ls_ptr l = w_arena ?w + ls_offset l"
    "live (w_allocator w') = (\<lambda>i. if i \<in> set (take k (map fst ?q)) then None else live (w_allocator ?w) i)
       (ls_buffer_id l \<mapsto> (ls_offset l, ucast sz))"
    by (rule alloc_lease_room [OF ok room k r]) blast
  have new: "live (w_allocator ?w) (ls_buffer_id l) = None" using assms(2) by (simp add: calm_def r l(1))
  have s': "s' = s\<lparr>sy_writer := w', sy_pending := sy_pending s @ [l]\<rparr>" using assms(3) by (simp add: r l(1))
  have wa: "w_arena w' = w_arena ?w" using l(5) by (simp add: same_region_def)
  define gone where "gone = map frame_buffer (take k ?q)"
  define rest where "rest = map lease_buffer (sy_pending s) @ map frame_buffer (drop k ?q) @
     map held_buffer (sy_held s) @ map returned_buffer (rec_queue ?w)"
  have "mset (gone @ rest) = mset (circulating s)"
  proof -
    have "mset (map frame_buffer ?q) = mset (map frame_buffer (take k ?q)) + mset (map frame_buffer (drop k ?q))"
      by (metis append_take_drop_id map_append mset_append)
    then show ?thesis unfolding circulating_def gone_def rest_def by simp
  qed
  then have "distinct (map fst (gone @ rest))" and sub: "set rest \<subseteq> set (circulating s)"
    using assms(1) distinct_mset_mono [of "gone @ rest" "circulating s"] by (auto simp: owned_def)
  moreover have "map fst gone = take k (map fst ?q)"
    by (simp add: gone_def take_map comp_def frame_buffer_def case_prod_beta)
  ultimately have d: "distinct (map fst rest)" "fst ` set rest \<inter> set (take k (map fst ?q)) = {}"
    by (auto simp: map_append)
  have old: "leased (w_allocator ?w) b" if "b \<in> set rest" for b
    using that sub assms(1) by (auto simp: owned_def)
  have fresh: "ls_buffer_id l \<notin> fst ` set rest"
  proof
    assume "ls_buffer_id l \<in> fst ` set rest"
    then obtain b where "b \<in> set rest" "fst b = ls_buffer_id l" by auto
    with old new show False by (cases b) (fastforce simp: leased_def)
  qed
  have m: "mset (circulating s') = mset (lease_buffer l # rest)"
    unfolding circulating_def rest_def by (simp add: s' l(3,4))
  then have "distinct (map fst (circulating s'))"
    using d(1) fresh distinct_mset_mono(1) [of "circulating s'" "lease_buffer l # rest"]
    by (simp add: lease_buffer_def)
  moreover have "leased (w_allocator w') b" if "b \<in> set (circulating s')" for b
  proof -
    from that m have "b = lease_buffer l \<or> b \<in> set rest" by (metis set_ConsD set_mset_mset)
    then show ?thesis
    proof
      assume "b = lease_buffer l"
      then show ?thesis by (simp add: leased_def lease_buffer_def l(6,8))
    next
      assume b: "b \<in> set rest"
      obtain i off len where c: "b = (i, off, len)" by (cases b)
      have "i \<in> fst ` set rest" using b c by force
      then have "i \<notin> set (take k (map fst ?q))" "i \<noteq> ls_buffer_id l" using d(2) fresh by blast+
      with old [OF b] show ?thesis by (simp add: leased_def c l(8))
    qed
  qed
  moreover have "\<forall>l\<in>set (sy_pending s'). ls_ptr l = w_arena w' + ls_offset l"
    using assms(1) l(7) wa by (auto simp: s' owned_def)
  ultimately show ?thesis using l(2) by (simp add: owned_def s')
qed

lemma owned_step:
  assumes "owned s" "calm x s" "sys_exec x s = Some s'"
  shows "owned s'"
proof -
  have ok: "writer_ok (sy_writer s)" using assms(1) by (simp add: owned_def)
  have low: "counters_low (sy_writer s)" using assms(2) by (simp add: calm_def counters_low_def)
  show ?thesis
  proof (cases x)
    case (Lease sz align)
    with assms owned_lease show ?thesis by blast
  next
    case (Publish k pts clock)
    have "lease_in_arena (sy_writer s) (sy_pending s ! k, pts, clock)" if "k < length (sy_pending s)"
      by (rule live_in_arena [OF ok owned_pending(1) [OF assms(1) that]])
    from publish_moves [OF ok low this] assms(1,3) Publish owned_moves show ?thesis by blast
  next
    case (Give_Back k status)
    with assms(1,3) owned_moves give_back_moves [OF ok low] show ?thesis by blast
  next
    case Receive_Latest
    with assms(1,3) owned_moves latest_moves [OF ok low] show ?thesis by blast
  qed (use assms(1,3) owned_cancel owned_drain owned_moves receive_moves [OF ok] attach_moves [OF ok] fill_moves [OF ok] in blast)+
qed

lemma reachable_owned: "reachable w s \<Longrightarrow> owned s"
proof (induction rule: reachable.induct)
  case (created be pid path cfg)
  from writer_create_fields [OF this] show ?case by (simp add: owned_def circulating_def)
next
  case (step s x s')
  then show ?case by (blast intro: owned_step)
qed

definition buffer_range :: "buffer \<Rightarrow> range" where
  "buffer_range b = (case b of (i, off, len) \<Rightarrow> (off, ucast len))"

lemma leased_disjoint:
  assumes "alloc_wf tot a" "leased a b" "leased a c" "fst b \<noteq> fst c"
  shows "disjoint_ranges (buffer_range b) (buffer_range c)"
  using assms(2-4) by (auto simp: leased_def buffer_range_def split: prod.splits intro: alloc_wf_live_disjoint [OF assms(1)])

text \<open>
  C1: single ownership. In every state that producer and consumer can reach by calm steps, in any
  interleaving, each buffer in circulation has exactly one owner (a lease not yet published, the
  ready ring, the consumer, or the recycle ring), its block is live in the allocator with the very
  range the descriptor carries, and the ranges of different buffers do not overlap. In particular
  each returned buffer is freed exactly once.
\<close>

theorem single_ownership:
  assumes "reachable w s"
  shows "distinct (map fst (circulating s)) \<and>
    (\<forall>b\<in>set (circulating s). leased (w_allocator (sy_writer s)) b) \<and>
    (\<forall>b\<in>set (circulating s). \<forall>c\<in>set (circulating s). b \<noteq> c \<longrightarrow>
       disjoint_ranges (buffer_range b) (buffer_range c))"
proof -
  have o: "owned s" by (rule reachable_owned [OF assms])
  then have d: "distinct (map fst (circulating s))"
    and l: "\<forall>b\<in>set (circulating s). leased (w_allocator (sy_writer s)) b"
    and wf: "alloc_wf (h_arena_size (sy_writer s)) (w_allocator (sy_writer s))"
    by (simp_all add: owned_def writer_ok_def)
  have "disjoint_ranges (buffer_range b) (buffer_range c)"
    if "b \<in> set (circulating s)" "c \<in> set (circulating s)" "b \<noteq> c" for b c
  proof (rule leased_disjoint [OF wf])
    show "leased (w_allocator (sy_writer s)) b" "leased (w_allocator (sy_writer s)) c" using l that by auto
    show "fst b \<noteq> fst c" using d that by (metis eq_key_imp_eq_value prod.collapse)
  qed
  with d l show ?thesis by blast
qed

section \<open>Payloads\<close>

definition payload_bytes :: "'a shm_scheme \<Rightarrow> buffer \<Rightarrow> u8 list" where
  "payload_bytes v b = (case b of (i, off, len) \<Rightarrow> read_bytes (unat off) (unat len) (arena v))"

definition is_fill :: "sys_op \<Rightarrow> bool" where
  "is_fill x = (case x of Fill k bytes \<Rightarrow> True | _ \<Rightarrow> False)"

lemma recycle_desc_try_arena: "recycle_desc_try i off len st v = Some (v', r) \<Longrightarrow> arena v' = arena v"
  by (auto simp: recycle_desc_try_def Let_def split: if_splits option.splits)

lemma try_recv_desc_arena [simp]: "arena (fst (try_recv_desc v)) = arena v"
  by (auto simp: try_recv_desc_def Let_def split: if_splits option.splits res.splits)

lemma alloc_lease_arena:
  assumes "writer_ok v" "roomy (h_arena_size v) (max align 1)" "alloc_lease v sz align = (v', r)"
  shows "arena v' = arena v" and "w_arena v' = w_arena v"
proof -
  have "arena v' = arena v \<and> w_arena v' = w_arena v"
  proof (cases "drops_needed v sz align")
    case None
    from alloc_lease_no_room [OF assms(1) None assms(3)] show ?thesis by simp
  next
    case (Some k)
    show ?thesis
      by (rule alloc_lease_room [OF assms(1,2) Some assms(3)]) (simp add: same_region_def)
  qed
  then show "arena v' = arena v" "w_arena v' = w_arena v" by simp_all
qed

lemma arena_frame:
  assumes "owned s" "calm x s" "sys_exec x s = Some s'" "\<not> is_fill x"
  shows "arena (sy_writer s') = arena (sy_writer s)"
proof -
  have ok: "writer_ok (sy_writer s)" using assms(1) by (simp add: owned_def)
  note o = writer_okD [OF ok]
  show ?thesis
  proof (cases x)
    case (Lease sz align)
    obtain w' r where r: "alloc_lease (sy_writer s) sz align = (w', r)" by force
    have "roomy (h_arena_size (sy_writer s)) (max align 1)" using assms(2) by (simp add: calm_def Lease)
    from alloc_lease_arena(1) [OF ok this r] assms(3) show ?thesis by (auto simp: Lease r split: res.splits)
  next
    case (Publish k pts clock)
    with assms(3) obtain w' where k: "k < length (sy_pending s)"
      and p: "publish_lease_try clock (sy_pending s ! k) pts (sy_writer s) = Some (w', Ok ())"
      and s': "sy_writer s' = w'" by (auto split: if_splits option.splits res.splits)
    have "unat (h_ready_head (sy_writer s)) + 1 < 2 ^ 64" using assms(2) by (simp add: calm_def)
    from publish_step(7) [OF ok this owned_pending(1) [OF assms(1) k] p] s' show ?thesis by simp
  next
    case Receive_Latest
    have ne: "ready_queue (sy_writer s) \<noteq> []"
      using assms(3) try_recv_latest_empty [OF o(1)] by (auto simp: Receive_Latest split: res.splits)
    have wrap: "unat (h_rec_head (sy_writer s)) + length (ready_queue (sy_writer s)) < 2 ^ 64"
      using assms(2) by (simp add: calm_def)
    obtain w' d where r: "try_recv_latest_desc (sy_writer s) = (w', Ok (Some (d, of_nat (skip_count (sy_writer s)))))"
      and fr: "\<exists>s1 t. only_recycled (sy_writer s) s1 \<and> w' = s1\<lparr>h_ready_tail := t\<rparr>"
      by (rule live_policy_step [OF o(1,2) ne wrap]) blast
    then show ?thesis using assms(3) by (auto simp: Receive_Latest only_recycled_def)
  next
    case Drain
    then show ?thesis using assms(3) by (auto simp: drain_recycles_def drain_loop_all [OF o(2)])
  next
    case Attach
    then show ?thesis using assms(3) by (auto simp: sync_startup_state_def)
  qed (use assms(3,4) in \<open>auto simp: is_fill_def free_lease_def case_prod_beta Let_def
      split: if_splits option.splits res.splits dest: recycle_desc_try_arena\<close>)
qed

lemma copy_payload_other:
  assumes "disjoint_ranges (buffer_range (lease_buffer l)) (buffer_range b)"
    and "ls_ptr l = w_arena v + ls_offset l" and "length bytes = unat (ls_len l)"
  shows "payload_bytes (copy_payload l bytes v) b = payload_bytes v b"
  using assms
  by (cases b) (auto simp: payload_bytes_def copy_payload_def buffer_range_def lease_buffer_def
      disjoint_ranges_bytes range_bytes_def intro!: read_write_bytes_disjoint)

lemma fill_stable:
  assumes o: "owned s" and x: "sys_exec (Fill k bytes) s = Some s'"
    and b: "b \<in> set (map frame_buffer (ready_queue (sy_writer s)) @ map held_buffer (sy_held s))"
  shows "payload_bytes (sy_writer s') b = payload_bytes (sy_writer s) b"
proof -
  let ?l = "sy_pending s ! k"
  from x have k: "k < length (sy_pending s)" "length bytes = unat (ls_len ?l)"
    and s': "s' = s\<lparr>sy_writer := copy_payload ?l bytes (sy_writer s)\<rparr>"
    by (auto split: if_splits)
  have l: "lease_buffer ?l \<in> set (map lease_buffer (sy_pending s))" using k(1) by simp
  have d: "distinct (map fst (circulating s))" and wf: "writer_ok (sy_writer s)" using o by (simp_all add: owned_def)
  have "set (map fst (map lease_buffer (sy_pending s))) \<inter>
      set (map fst (map frame_buffer (ready_queue (sy_writer s)) @ map held_buffer (sy_held s))) = {}"
    using d unfolding circulating_def by (simp only: map_append distinct_append set_append) blast
  moreover have "fst (lease_buffer ?l) \<in> set (map fst (map lease_buffer (sy_pending s)))"
    using l by (simp only: set_map) (rule imageI)
  moreover have "fst b \<in> set (map fst (map frame_buffer (ready_queue (sy_writer s)) @ map held_buffer (sy_held s)))"
    using b by (simp only: set_map) (rule imageI)
  ultimately have "fst (lease_buffer ?l) \<noteq> fst b" by (metis IntI empty_iff)
  moreover have "leased (w_allocator (sy_writer s)) (lease_buffer ?l)" "leased (w_allocator (sy_writer s)) b"
    using o l b by (auto simp: owned_def circulating_def)
  ultimately have "disjoint_ranges (buffer_range (lease_buffer ?l)) (buffer_range b)"
    using leased_disjoint [OF writer_okD(3) [OF wf]] by blast
  from copy_payload_other [OF this owned_pending(2) [OF o k(1)] k(2)] show ?thesis by (simp add: s')
qed

text \<open>
  C2: a frame's bytes do not change while it is queued or held. Whatever calm step producer or
  consumer makes next, filling another lease included, the payload of every frame that waits in the
  ready ring or is in the consumer's hands (not yet given back) reads the same afterwards.
\<close>

theorem frame_payload_stable:
  assumes "reachable w s" and "calm x s" and "sys_exec x s = Some s'"
    and "b \<in> set (map frame_buffer (ready_queue (sy_writer s)) @ map held_buffer (sy_held s))"
  shows "payload_bytes (sy_writer s') b = payload_bytes (sy_writer s) b"
proof -
  have o: "owned s" by (rule reachable_owned [OF assms(1)])
  show ?thesis
  proof (cases "is_fill x")
    case True
    then obtain k bytes where "x = Fill k bytes" by (auto simp: is_fill_def split: sys_op.splits)
    with fill_stable [OF o _ assms(4)] assms(3) show ?thesis by blast
  next
    case False
    from arena_frame [OF o assms(2,3) False] show ?thesis by (simp add: payload_bytes_def)
  qed
qed

end
