(* ===== verification/Delivery.thy ===== *)
theory Delivery
  imports Ownership
begin

text \<open>
  A payload's way from \<open>Writer::publish\<close> to \<open>Reader::recv_blocking\<close>: what arrives, when the
  producer waits, what a payload of 4 GiB and more does, and what is left of ownership after the
  allocator has been reset.
\<close>

section \<open>Publishing\<close>

text \<open>What an allocation or a publish leaves alone: at most a reset empties the recycle ring.\<close>

definition same_limits :: "writer \<Rightarrow> writer \<Rightarrow> bool" where
  "same_limits w w' \<longleftrightarrow> h_arena_size w' = h_arena_size w \<and> h_rec_capacity w' = h_rec_capacity w \<and>
     h_ready_capacity w' = h_ready_capacity w \<and> w_allocator_align w' = w_allocator_align w \<and>
     (rec_queue w' = rec_queue w \<and> h_rec_head w' = h_rec_head w \<or> rec_queue w' = [] \<and> h_rec_head w' = 0)"

text \<open>The ids of the buffers in the two rings.\<close>

definition ring_ids :: "writer \<Rightarrow> u32 set" where
  "ring_ids w = fst ` set (ready_queue w) \<union> fst ` set (rec_queue w)"

lemma ids_after_drop: "Q = T \<union> Q' \<Longrightarrow> D' \<subseteq> insert i (D - T) \<Longrightarrow> D \<subseteq> Q \<union> R \<Longrightarrow> D' \<subseteq> insert i (Q' \<union> R)"
  by blast

text \<open>A successful \<open>alloc_lease\<close>, reset or not.\<close>

lemma alloc_lease_ok:
  assumes ok: "writer_ok w" and room: "roomy (h_arena_size w) (max align 1)"
    and sz: "unat sz \<le> unat (h_arena_size w)"
  obtains w' lease k where "alloc_lease w sz align = (w', Ok lease)" "writer_ok w'"
    "ready_queue w' = drop k (ready_queue w)" "ls_len lease = sz"
    "live (w_allocator w') (ls_buffer_id lease) = Some (ls_offset lease, ucast sz)"
    "ls_ptr lease = w_arena w' + ls_offset lease" "arena w' = arena w"
    "h_ready_capacity w' = h_ready_capacity w" "h_ready_head w' = h_ready_head w \<or> h_ready_head w' = 0"
    "same_limits w w'"
    "dom (live (w_allocator w)) \<subseteq> ring_ids w \<Longrightarrow>
       dom (live (w_allocator w')) \<subseteq> insert (ls_buffer_id lease) (ring_ids w')"
proof -
  obtain w' r where r: "alloc_lease w sz align = (w', r)" by force
  have al: "w_allocator_align w' = w_allocator_align w" using alloc_lease_align [of w sz align] by (simp add: r)
  show ?thesis
  proof (cases "drops_needed w sz align")
    case None
    note n = alloc_lease_no_room [OF ok None r]
    from n(14) [OF sz] obtain lease where l: "r = Ok lease" "ls_buffer_id lease = 1" "ls_offset lease = 0"
      "ls_len lease = sz" "ls_ptr lease = w_arena w"
      "live (w_allocator w') = Map.empty(1 \<mapsto> (0, ucast sz))"
      by (auto simp: take_block_def)
    show ?thesis
      by (rule that [of w' lease "length (ready_queue w)"]) (use r l n al in \<open>simp_all add: same_limits_def\<close>)
  next
    case (Some k)
    show ?thesis
    proof (rule alloc_lease_room [OF ok room Some r])
      fix lease
      assume l: "r = Ok lease" "writer_ok w'" "ready_queue w' = drop k (ready_queue w)" "same_region w w'"
        "rec_queue w' = rec_queue w" "ls_len lease = sz" "ls_ptr lease = w_arena w + ls_offset lease"
        "live (w_allocator w') = (\<lambda>i. if i \<in> set (take k (map fst (ready_queue w))) then None
           else live (w_allocator w) i) (ls_buffer_id lease \<mapsto> (ls_offset lease, ucast sz))"
      have "dom (live (w_allocator w')) \<subseteq> insert (ls_buffer_id lease) (ring_ids w')"
        if "dom (live (w_allocator w)) \<subseteq> ring_ids w"
      proof -
        have "fst ` set (ready_queue w) = set (take k (map fst (ready_queue w))) \<union> fst ` set (ready_queue w')"
          by (simp add: l(3) take_map flip: image_Un set_append)
        moreover have "dom (live (w_allocator w')) \<subseteq>
            insert (ls_buffer_id lease) (dom (live (w_allocator w)) - set (take k (map fst (ready_queue w))))"
          by (auto simp: l(8) split: if_splits)
        ultimately show ?thesis using that unfolding ring_ids_def l(5) by (rule ids_after_drop)
      qed
      then show ?thesis
        by (intro that [of w' lease k]) (use r l al in \<open>simp_all add: same_region_def same_limits_def\<close>)
    qed
  qed
qed

lemma same_limits_trans: "same_limits u v \<Longrightarrow> same_limits v w \<Longrightarrow> same_limits u w"
  by (auto simp: same_limits_def)

lemma publish_same_limits:
  assumes "ready_ok w" "publish_lease_try clock lease pts w = Some (w', r)"
    and "rec_queue w' = rec_queue w" "h_rec_head w' = h_rec_head w"
  shows "same_limits w w'"
proof -
  have "h_ready_head w - h_ready_tail w < ucast (h_ready_capacity w)"
    using assms(2) publish_lease_try_None [of clock lease pts w] by auto
  note w' = assms(2) [unfolded publish_lease_try_room [OF assms(1) this]]
  then show ?thesis using assms(3,4) by (auto simp: same_limits_def)
qed

lemma copy_payload_frame:
  "ready_queue (copy_payload l bs w) = ready_queue w" "rec_queue (copy_payload l bs w) = rec_queue w"
  "writer_ok (copy_payload l bs w) = writer_ok w" "w_allocator (copy_payload l bs w) = w_allocator w"
  "h_ready_capacity (copy_payload l bs w) = h_ready_capacity w" "h_ready_head (copy_payload l bs w) = h_ready_head w"
  "w_arena (copy_payload l bs w) = w_arena w" "same_limits v (copy_payload l bs w) = same_limits v w"
  by (simp_all add: same_limits_def copy_payload_def writer_ok_def ready_ok_def rec_ok_def ready_queue_def rec_queue_def
      ready_entries_def rec_entries_def desc_in_arena_def)

section \<open>Timeline snapshots\<close>

lemma sint_pts_as_u64: "sint (pts_as_u64 pts) = max 0 (sint pts)"
  by (simp add: pts_as_u64_def)

text \<open>
  When a publish takes a timeline snapshot. It does so exactly when the generation has changed
  since its last one or the beacon period has passed; the reader then sees the current generation, a
  new sequence number, the time stamp of the frame just published, never negative, and the ring
  position just behind that frame. Otherwise the reader's snapshot stays as it was.
\<close>

lemma publish_snapshot_when_due:
  assumes "ready_ok w" and "publish_lease_try clock lease pts w = Some (w', r)"
  defines "due \<equiv> h_timeline_gen w \<noteq> w_last_timeline_snapshot_gen w \<or>
    unat (w_timeline_beacon_ns w) \<le> unat (fst clock) - unat (w_last_timeline_emit_ns w)"
  shows "timeline_snapshot w' =
      (if due then \<lparr>ts_generation = h_timeline_gen w, ts_snapshot_gen = h_timeline_gen w, ts_valid = True,
                    ts_seq = h_timeline_seq w + 1, ts_sink_mono_ns = snd clock,
                    ts_producer_pts_ns = pts_as_u64 pts, ts_ready_head = h_ready_head w + 1\<rparr>
       else timeline_snapshot w) \<and>
    sint (pts_as_u64 pts) = max 0 (sint pts) \<and>
    (due \<longrightarrow> w_last_timeline_snapshot_gen w' = h_timeline_gen w')"
proof -
  have room: "h_ready_head w - h_ready_tail w < ucast (h_ready_capacity w)"
    using assms(2) publish_lease_try_None [of clock lease pts w] by auto
  let ?u = "update_usage_metrics (w\<lparr>ready := (ready w)[unat (h_ready_head w) mod unat (h_ready_capacity w) :=
      ready_entry (h_ready_head w) lease pts], h_ready_head := h_ready_head w + 1\<rparr>)"
  have w': "w' = maybe_publish_timeline_snapshot clock pts (h_ready_head w + 1) ?u"
    using assms(2) publish_lease_try_room [OF assms(1) room, of clock lease pts] by simp
  have u: "h_timeline_gen ?u = h_timeline_gen w" "w_last_timeline_snapshot_gen ?u = w_last_timeline_snapshot_gen w"
    "w_last_timeline_emit_ns ?u = w_last_timeline_emit_ns w" "w_timeline_beacon_ns ?u = w_timeline_beacon_ns w"
    "h_timeline_seq ?u = h_timeline_seq w" "timeline_snapshot ?u = timeline_snapshot w"
    by (simp_all add: update_usage_metrics_def Let_def timeline_snapshot_def)
  have d: "(w_timeline_beacon_ns w \<le> saturating_sub (fst clock) (w_last_timeline_emit_ns w)) \<longleftrightarrow>
      unat (w_timeline_beacon_ns w) \<le> unat (fst clock) - unat (w_last_timeline_emit_ns w)"
    by (simp add: word_le_nat_alt unat_saturating_sub)
  show ?thesis
  proof (cases due)
    case True
    then have "w' = force_timeline_snapshot (snd clock) pts (h_ready_head w + 1) ?u"
      unfolding w' maybe_publish_timeline_snapshot_def Let_def u d due_def by auto
    with True show ?thesis
      by (simp add: force_timeline_snapshot_def Let_def timeline_snapshot_def u sint_pts_as_u64)
  next
    case False
    then have "w' = ?u" unfolding w' maybe_publish_timeline_snapshot_def Let_def u d due_def by auto
    with False show ?thesis by (simp add: u(6) sint_pts_as_u64)
  qed
qed

text \<open>
  What a reader sees of the timeline after a publish. An allocation that resets begins a generation;
  the first publish of a generation leaves a snapshot of itself.
\<close>

definition announces :: "u64 \<times> u64 \<Rightarrow> i64 \<Rightarrow> writer \<Rightarrow> writer \<Rightarrow> bool" where
  "announces clock pts w w' \<longleftrightarrow>
     (h_timeline_gen w' = h_timeline_gen w \<or> h_timeline_gen w' = h_timeline_gen w + 1) \<and>
     (h_timeline_gen w' \<noteq> w_last_timeline_snapshot_gen w \<longrightarrow>
        ts_valid (timeline_snapshot w') \<and> ts_seq (timeline_snapshot w') = h_timeline_seq w + 1 \<and>
        ts_sink_mono_ns (timeline_snapshot w') = snd clock \<and>
        ts_producer_pts_ns (timeline_snapshot w') = pts_as_u64 pts)"

definition timeline_kept :: "writer \<Rightarrow> writer \<Rightarrow> bool" where
  "timeline_kept w v \<longleftrightarrow> h_timeline_seq v = h_timeline_seq w \<and>
     w_last_timeline_snapshot_gen v = w_last_timeline_snapshot_gen w \<and>
     (h_timeline_gen v = h_timeline_gen w \<or> h_timeline_gen v = h_timeline_gen w + 1)"

lemma alloc_lease_timeline: "timeline_kept w (fst (alloc_lease w sz align))"
proof (induction w sz align rule: alloc_lease.induct)
  case (1 w sz align)
  have drop: "timeline_kept w1 v \<Longrightarrow> timeline_kept w v" "timeline_kept w w1"
    "h_timeline_gen w1 = h_timeline_gen w"
    if "drop_oldest_ready w = (w1, r)" for w1 r v
    using that by (auto simp: drop_oldest_ready_def timeline_kept_def Let_def split: if_splits option.splits)
  show ?case
  proof (cases "alloc (w_allocator w) sz align")
    case (Some p)
    then show ?thesis by (cases p) (simp add: alloc_lease.simps [of w] timeline_kept_def)
  next
    case None
    obtain w1 r where d: "drop_oldest_ready w = (w1, r)" by force
    note sim = alloc_lease.simps [of w] None d Let_def reset_allocator_state_def timeline_kept_def
    consider (more) "r = Ok True" | (empty) "r = Ok False" | (err) e where "r = Err e" | (panic) "r = Panic"
      by (cases r) auto
    then show ?thesis
    proof cases
      case more
      have "timeline_kept w1 (fst (alloc_lease w1 sz align))" using 1 [OF None] d more by simp
      then show ?thesis using drop(1) [OF d] by (simp add: alloc_lease.simps [of w] None d more)
    next
      case empty
      then show ?thesis using drop(2,3) [OF d] by (auto simp: sim split: option.split prod.split)
    qed (use drop(2,3) [OF d] in \<open>auto simp: sim\<close>)
  qed
qed

lemma publish_try_announces:
  assumes "ready_ok v" "publish_lease_try clock lease pts v = Some (w', r)" "timeline_kept w v"
  shows "announces clock pts w w'"
proof -
  note s = publish_snapshot_when_due [OF assms(1,2)]
  then have "ts_generation (timeline_snapshot w') = ts_generation (timeline_snapshot v)"
    by (simp add: timeline_snapshot_def)
  then have "h_timeline_gen w' = h_timeline_gen v" by (simp add: timeline_snapshot_def)
  with s assms(3) show ?thesis by (auto simp: announces_def timeline_kept_def)
qed

section \<open>The course of a publish\<close>

text \<open>\<open>publish\<close> step by step, for a payload of any length.\<close>

lemma publish_ok:
  fixes payload :: "u8 list" and w :: writer
  defines "sz \<equiv> (of_nat (length payload) :: u32)"
  assumes ok: "writer_ok w" and room: "roomy (h_arena_size w) (max (w_allocator_align w) 1)"
    and fits: "unat sz \<le> unat (h_arena_size w)"
    and ring: "length (ready_queue w) < unat (h_ready_capacity w)" and wrap: "unat (h_ready_head w) + 1 < 2 ^ 64"
  obtains w' and lease :: lease and k where "publish env clock payload pts w = Some (w', Ok (ls_buffer_id lease))" "writer_ok w'"
    "ready_queue w' = drop k (ready_queue w) @ [(ls_buffer_id lease, ls_offset lease, sz, pts)]"
    "arena w' = write_bytes (unat (ls_offset lease)) payload (arena w)"
    "leased (w_allocator w') (ls_buffer_id lease, ls_offset lease, sz)"
    "same_limits w w'" "h_ready_head w' = h_ready_head w + 1 \<or> h_ready_head w' = 1"
    "dom (live (w_allocator w)) \<subseteq> ring_ids w \<Longrightarrow> dom (live (w_allocator w')) \<subseteq> ring_ids w'"
    "announces clock pts w w'"
proof (rule alloc_lease_ok [OF ok room fits])
  fix w1 :: writer and lease :: lease and k
  assume a: "alloc_lease w sz (w_allocator_align w) = (w1, Ok lease)" "writer_ok w1"
    "ready_queue w1 = drop k (ready_queue w)" "ls_len lease = sz"
    "live (w_allocator w1) (ls_buffer_id lease) = Some (ls_offset lease, ucast sz)"
    "ls_ptr lease = w_arena w1 + ls_offset lease" "arena w1 = arena w"
    "h_ready_capacity w1 = h_ready_capacity w" "h_ready_head w1 = h_ready_head w \<or> h_ready_head w1 = 0"
    "same_limits w w1"
    "dom (live (w_allocator w)) \<subseteq> ring_ids w \<Longrightarrow> dom (live (w_allocator w1)) \<subseteq> insert (ls_buffer_id lease) (ring_ids w1)"
  let ?w2 = "copy_payload lease payload w1"
  have ok2: "writer_ok ?w2" using a(2) by (simp add: copy_payload_frame)
  have "length (ready_queue ?w2) < unat (h_ready_capacity ?w2)"
    using ring by (simp add: copy_payload_frame a(3,8))
  then have "publish_lease_try clock lease pts ?w2 \<noteq> None"
    using ready_room_iff [OF writer_okD(1) [OF ok2]] publish_lease_try_None [of clock lease pts ?w2] by simp
  then obtain w' r where p: "publish_lease_try clock lease pts ?w2 = Some (w', r)" by auto
  have wrap2: "unat (h_ready_head ?w2) + 1 < 2 ^ 64" using wrap a(9) by (auto simp: copy_payload_frame)
  have live2: "live (w_allocator ?w2) (ls_buffer_id lease) = Some (ls_offset lease, ucast (ls_len lease))"
    using a(4,5) by (simp add: copy_payload_frame)
  note q = publish_step [OF ok2 wrap2 live2 p]
  have pub: "publish env clock payload pts w = Some (w', Ok (ls_buffer_id lease))"
    using poll_loop_now [where body = "publish_lease_try clock lease pts", OF p] q(1)
    by (simp add: publish_def sz_def [symmetric] a(1) publish_lease_def)
  have mem: "arena ?w2 = write_bytes (unat (ls_offset lease)) payload (arena w)"
    by (simp add: copy_payload_def a(6,7))
  have "same_limits ?w2 w'" by (rule publish_same_limits [OF writer_okD(1) [OF ok2] p q(4,9)])
  moreover have "same_limits w ?w2" using a(10) by (simp add: copy_payload_frame)
  ultimately have lim: "same_limits w w'" by (rule same_limits_trans [rotated])
  have ids: "ring_ids w' = insert (ls_buffer_id lease) (ring_ids w1)"
    by (simp add: ring_ids_def q(3,4) copy_payload_frame offered_frame_def)
  have "timeline_kept w ?w2"
    using alloc_lease_timeline [of w sz "w_allocator_align w"] by (simp add: a(1) timeline_kept_def copy_payload_def)
  note ann = publish_try_announces [OF writer_okD(1) [OF ok2] p this]
  show ?thesis
    by (rule that [OF pub q(2)])
      (use q a mem lim ids ann in \<open>simp_all add: copy_payload_frame offered_frame_def leased_def\<close>)
qed

text \<open>
  \<open>publish\<close> delivers. With room in the ready ring and a payload that fits the arena it returns
  at once, the frame is the newest in the ring with the payload's length and time stamp, the bytes
  of its block are the payload, and the bytes of every other live block are untouched; at most some
  of the oldest queued frames are dropped to make room.
\<close>

lemma publish_delivers:
  assumes "writer_ok w" and "roomy (h_arena_size w) (max (w_allocator_align w) 1)"
    and "length payload < 2 ^ 32" and "length payload \<le> unat (h_arena_size w)"
    and "length (ready_queue w) < unat (h_ready_capacity w)" and "unat (h_ready_head w) + 1 < 2 ^ 64"
  shows "\<exists>w' i off k. publish env clock payload pts w = Some (w', Ok i) \<and> writer_ok w' \<and>
    ready_queue w' = drop k (ready_queue w) @ [(i, off, of_nat (length payload), pts)] \<and>
    payload_bytes w' (i, off, of_nat (length payload)) = payload \<and>
    (\<forall>b. leased (w_allocator w') b \<and> fst b \<noteq> i \<longrightarrow> payload_bytes w' b = payload_bytes w b)"
proof -
  let ?sz = "of_nat (length payload) :: u32"
  have u: "unat ?sz = length payload" using assms(3) by (simp add: unat_of_nat take_bit_nat_eq_self)
  have "unat ?sz \<le> unat (h_arena_size w)" using assms(4) by (simp add: u)
  then obtain w' and l :: lease and k where p: "publish env clock payload pts w = Some (w', Ok (ls_buffer_id l))" "writer_ok w'"
    "ready_queue w' = drop k (ready_queue w) @ [(ls_buffer_id l, ls_offset l, ?sz, pts)]"
    "arena w' = write_bytes (unat (ls_offset l)) payload (arena w)"
    "leased (w_allocator w') (ls_buffer_id l, ls_offset l, ?sz)"
    by (rule publish_ok [OF assms(1,2) _ assms(5,6), where env = env and clock = clock and pts = pts]) blast
  have "payload_bytes w' (ls_buffer_id l, ls_offset l, ?sz) = payload"
    by (simp add: payload_bytes_def p(4) u)
  moreover have "payload_bytes w' b = payload_bytes w b"
    if b: "leased (w_allocator w') b" "fst b \<noteq> ls_buffer_id l" for b
  proof -
    have "disjoint_ranges (buffer_range b) (buffer_range (ls_buffer_id l, ls_offset l, ?sz))"
      using leased_disjoint [OF writer_okD(3) [OF p(2)] b(1) p(5)] b(2) by simp
    then show ?thesis
      by (cases b) (auto simp: payload_bytes_def p(4) buffer_range_def disjoint_ranges_bytes range_bytes_def u
          intro!: read_write_bytes_disjoint)
  qed
  ultimately show ?thesis using p(1-3) by blast
qed

text \<open>
  C31: \<open>publish\<close> keeps the low 32 bits of the payload's length for the block and the descriptor but
  copies the whole payload. From 4 GiB on the block it leases has the payload's length modulo
  \<open>2 ^ 32\<close>, and so has the frame it queues, while every byte of the payload is written from the block's
  offset on: the copy runs at least 4 GiB past the end of the block, over whatever lies behind it.
\<close>

theorem publish_oversize_overruns:
  assumes "writer_ok w" and "roomy (h_arena_size w) (max (w_allocator_align w) 1)"
    and "2 ^ 32 \<le> length payload" and "length payload mod 2 ^ 32 \<le> unat (h_arena_size w)"
    and "length (ready_queue w) < unat (h_ready_capacity w)" and "unat (h_ready_head w) + 1 < 2 ^ 64"
  shows "\<exists>w' i off len. publish env clock payload pts w = Some (w', Ok i) \<and>
    last (ready_queue w') = (i, off, len, pts) \<and> live (w_allocator w') i = Some (off, ucast len) \<and>
    unat len = length payload mod 2 ^ 32 \<and> unat len + 2 ^ 32 \<le> length payload \<and>
    (\<forall>j<length payload. arena w' (unat off + j) = payload ! j)"
proof -
  let ?sz = "of_nat (length payload) :: u32"
  have u: "unat ?sz = length payload mod 2 ^ 32" by (simp add: unat_of_nat take_bit_eq_mod)
  have "unat ?sz \<le> unat (h_arena_size w)" using assms(4) by (simp only: u)
  then obtain w' and l :: lease and k where p: "publish env clock payload pts w = Some (w', Ok (ls_buffer_id l))"
    "ready_queue w' = drop k (ready_queue w) @ [(ls_buffer_id l, ls_offset l, ?sz, pts)]"
    "arena w' = write_bytes (unat (ls_offset l)) payload (arena w)"
    "leased (w_allocator w') (ls_buffer_id l, ls_offset l, ?sz)"
    by (rule publish_ok [OF assms(1,2) _ assms(5,6), where env = env and clock = clock and pts = pts]) blast
  have "0 < length payload div 2 ^ 32" using assms(3) by (simp add: div_greater_zero_iff)
  then have "1 * 2 ^ 32 \<le> length payload div 2 ^ 32 * (2 ^ 32 :: nat)" by (intro mult_le_mono1) simp
  then have "unat ?sz + 2 ^ 32 \<le> length payload"
    using div_mult_mod_eq [of "length payload" "2 ^ 32"] unfolding u by linarith
  moreover have "\<forall>j<length payload. arena w' (unat (ls_offset l) + j) = payload ! j"
    by (simp add: p(3) write_bytes_def)
  moreover have "last (ready_queue w') = (ls_buffer_id l, ls_offset l, ?sz, pts)" by (simp add: p(2))
  moreover have "live (w_allocator w') (ls_buffer_id l) = Some (ls_offset l, ucast ?sz)"
    using p(4) by (simp add: leased_def)
  ultimately show ?thesis using p(1) u by blast
qed

section \<open>Waiting\<close>

lemma publish_lease_waits:
  assumes "ready_ok w" and "length (ready_queue w) = unat (h_ready_capacity w)"
    and "\<forall>e\<in>set env. \<forall>v. ready_ok v \<and> ready_queue v = ready_queue w \<and> h_ready_capacity v = h_ready_capacity w \<longrightarrow>
      ready_ok (e v) \<and> ready_queue (e v) = ready_queue w \<and> h_ready_capacity (e v) = h_ready_capacity w"
  shows "publish_lease env clock lease pts w = None"
  unfolding publish_lease_def
proof (rule poll_loop_stuck [where P = "\<lambda>v. ready_ok v \<and> ready_queue v = ready_queue w \<and>
      h_ready_capacity v = h_ready_capacity w"])
  let ?P = "\<lambda>v :: writer. ready_ok v \<and> ready_queue v = ready_queue w \<and> h_ready_capacity v = h_ready_capacity w"
  show "?P w" using assms(1) by simp
  fix v :: writer
  assume P: "?P v"
  show "publish_lease_try clock lease pts v = None"
    using P assms(2) ready_room_iff [of v] by (simp add: publish_lease_try_None)
  fix e
  assume "e \<in> set env"
  with P assms(3) show "?P (e v)" by blast
qed

text \<open>
  \<open>publish_lease\<close> waits for the consumer without end. As long as the ready ring is full and
  nothing the other side does takes a frame out or resets the ring, it does not return, however
  long; it returns in the first round in which there is room.
\<close>

lemma publish_lease_waits_when_full:
  assumes "ready_ok w" and "length (ready_queue w) = unat (h_ready_capacity w)"
    and "\<forall>e\<in>set env. \<forall>v. ready_ok v \<and> ready_queue v = ready_queue w \<and> h_ready_capacity v = h_ready_capacity w \<longrightarrow>
      ready_ok (e v) \<and> ready_queue (e v) = ready_queue w \<and> h_ready_capacity (e v) = h_ready_capacity w"
  shows "publish_lease env clock lease pts w = None"
  using assms by (rule publish_lease_waits)

section \<open>There and back\<close>

lemma recv_try_some:
  assumes ok: "ready_ok s" and q: "ready_entries s = d # ds"
  shows "\<exists>buf. recv_try s = Some (s\<lparr>h_ready_tail := h_ready_tail s + 1\<rparr>, Ok buf) \<and>
    rb_payload buf = payload_bytes s (frame_buffer (frame_of d)) \<and> rb_pts_ns buf = rd_pts_ns d \<and>
    rb_buffer_id buf = rd_buffer_id d \<and> rb_offset buf = rd_offset d"
proof -
  note t = try_recv_desc_some [OF ok q]
  have "desc_in_arena s d" using ok q by (simp add: ready_ok_def)
  then have "validate_bounds (s\<lparr>h_ready_tail := h_ready_tail s + 1\<rparr>) (rd_offset d) (ucast (rd_length d)) = Ok ()"
    by (simp add: validate_bounds_Ok desc_in_arena_def)
  then show ?thesis
    by (simp add: recv_try_def t(1) payload_ptr_def received_of_def payload_bytes_def frame_buffer_def frame_of_def)
qed

text \<open>
  C11: the round trip. What \<open>publish\<close> puts into an empty ring, \<open>recv_blocking\<close> returns: the same
  bytes, time stamp and buffer id, whatever both sides were waiting for in between, and the ring is
  empty again.
\<close>

theorem publish_recv_roundtrip:
  assumes "writer_ok w" and "roomy (h_arena_size w) (max (w_allocator_align w) 1)"
    and "length payload < 2 ^ 32" and "length payload \<le> unat (h_arena_size w)"
    and "ready_queue w = []" and "unat (h_ready_head w) + 1 < 2 ^ 64"
  shows "\<exists>w' i v buf. publish env clock payload pts w = Some (w', Ok i) \<and>
    recv_blocking env' w' = Some (v, Ok buf) \<and> rb_payload buf = payload \<and> rb_pts_ns buf = pts \<and>
    rb_buffer_id buf = i \<and> ready_queue v = []"
proof -
  let ?sz = "of_nat (length payload) :: u32"
  have u: "unat ?sz = length payload" using assms(3) by (simp add: unat_of_nat take_bit_nat_eq_self)
  then have fits: "unat ?sz \<le> unat (h_arena_size w)" using assms(4) by simp
  have "h_ready_capacity w \<noteq> 0" using writer_okD(1) [OF assms(1)] by (simp add: ready_ok_def ring_ok_def)
  then have room: "length (ready_queue w) < unat (h_ready_capacity w)"
    using assms(5) by (simp add: unat_gt_0)
  obtain w' and l :: lease and k where p: "publish env clock payload pts w = Some (w', Ok (ls_buffer_id l))"
    "writer_ok w'" "ready_queue w' = drop k (ready_queue w) @ [(ls_buffer_id l, ls_offset l, ?sz, pts)]"
    "arena w' = write_bytes (unat (ls_offset l)) payload (arena w)"
    by (rule publish_ok [OF assms(1,2) fits room assms(6), where env = env and clock = clock and pts = pts]) blast
  have "map frame_of (ready_entries w') = [(ls_buffer_id l, ls_offset l, ?sz, pts)]"
    using p(3) assms(5) by (simp add: ready_queue_def)
  then obtain d where q: "ready_entries w' = [d]" and d: "frame_of d = (ls_buffer_id l, ls_offset l, ?sz, pts)"
    by auto
  have pay: "payload_bytes w' (frame_buffer (frame_of d)) = payload"
    by (simp add: d frame_buffer_def payload_bytes_def p(4) u)
  note ok' = writer_okD(1) [OF p(2)]
  from recv_try_some [OF ok' q] obtain buf where
    b: "recv_try w' = Some (w'\<lparr>h_ready_tail := h_ready_tail w' + 1\<rparr>, Ok buf)" "rb_payload buf = payload"
    "rb_pts_ns buf = pts" "rb_buffer_id buf = ls_buffer_id l"
    using pay d by (auto simp: frame_of_def)
  have "ready_queue (w'\<lparr>h_ready_tail := h_ready_tail w' + 1\<rparr>) = []"
    using try_recv_desc_some(3) [OF ok' q] by (simp add: ready_queue_def)
  moreover have "recv_blocking env' w' = Some (w'\<lparr>h_ready_tail := h_ready_tail w' + 1\<rparr>, Ok buf)"
    unfolding recv_blocking_def by (rule poll_loop_now [where body = recv_try, OF b(1)])
  ultimately show ?thesis using p(1) b(2-4) by blast
qed

section \<open>After a reset\<close>

text \<open>
  C16: a reset lets one buffer have two owners. When \<open>alloc_lease\<close> has to reset while the consumer
  still holds buffer 1, the new lease is buffer 1 again. The consumer's return of its old frame then
  frees the block of the new lease, and the next allocation of the same size is handed the very same
  bytes although the first lease has not been given back.
\<close>

theorem stale_return_frees_new_lease:
  assumes ok: "writer_ok w" and room: "roomy (h_arena_size w) (max align 1)"
    and sz: "0 < unat sz" "unat sz \<le> unat (h_arena_size w)"
    and full: "\<forall>k\<le>length (ready_queue w).
      alloc (free_all (take k (map fst (ready_queue w))) (w_allocator w)) sz align = None"
    and d: "rv_buffer_id d = 1"
  shows "\<exists>w1 l w2 w3 w4 l'. alloc_lease w sz align = (w1, Ok l) \<and>
    live (w_allocator w1) (ls_buffer_id l) = Some (ls_offset l, ucast sz) \<and>
    recycle_desc_try (rv_buffer_id d) (rv_offset d) (rv_len d) status w1 = Some (w2, Ok ()) \<and>
    drain_recycles w2 = (w3, Ok ()) \<and> live (w_allocator w3) (ls_buffer_id l) = None \<and>
    alloc_lease w3 sz align = (w4, Ok l') \<and> ls_offset l' = ls_offset l \<and> ls_len l' = ls_len l"
proof -
  let ?tot = "h_arena_size w"
  obtain w1 r where r: "alloc_lease w sz align = (w1, r)" by force
  have dn: "drops_needed w sz align = None" using full by (simp add: drops_needed_None)
  note n = alloc_lease_no_room [OF ok dn r]
  let ?a = "fst (take_block (new_allocator ?tot) (ucast sz) 0
    (if unat sz < unat ?tot then [(ucast sz, ?tot - ucast sz)] else []))"
  from n(14) [OF sz(2)] obtain l where l: "r = Ok l" "ls_buffer_id l = 1" "ls_offset l = 0" "ls_len l = sz"
    and a: "w_allocator w1 = ?a" by blast
  have used: "fl_used ?a = [(1, (0, ucast sz))]" by (simp add: take_block_def)
  have lv: "live (w_allocator w1) (ls_buffer_id l) = Some (ls_offset l, ucast sz)"
    by (simp only: a used l) simp
  \<comment> \<open>the consumer gives its frame back\<close>
  note o1 = writer_okD [OF n(1)]
  have "h_rec_capacity w1 \<noteq> 0" using o1(2) by (simp add: rec_ok_def ring_ok_def)
  then have space: "rec_space w1 \<noteq> 0" by (simp add: rec_space_def n(3) unat_eq_0)
  have "unat (h_rec_head w1) + 1 < 2 ^ 64" by (simp add: n(6))
  from try_recycle_desc_cases [OF o1(2) this, of 1 "rv_offset d" "rv_len d" status] space
  obtain w2 where w2: "try_recycle_desc 1 (rv_offset d) (rv_len d) status w1 = (w2, Ok True)"
    "only_recycled w1 w2" "rec_ok w2" "rec_queue w2 = [(1, rv_offset d, rv_len d, status)]"
    by (auto simp: n(3))
  have g: "recycle_desc_try (rv_buffer_id d) (rv_offset d) (rv_len d) status w1 = Some (w2, Ok ())"
    by (simp add: recycle_desc_try_eq d w2(1))
  have a2: "w_allocator w2 = ?a" using w2(2) a by (auto simp: only_recycled_def)
  \<comment> \<open>the producer collects it\<close>
  let ?a3 = "fst (free_by_id ?a 1)"
  obtain e where e: "rec_entries w2 = [e]" "rc_buffer_id e = 1"
    using w2(4) by (auto simp: rec_queue_def returned_of_def)
  obtain w3 where w3: "drain_recycles w2 = (w3, Ok ())" and a3: "w_allocator w3 = ?a3"
    using drain_loop_all [OF w2(3)] by (simp add: drain_recycles_def e a2)
  have dead: "live (w_allocator w3) (ls_buffer_id l) = None" by (simp add: a3 l(2) free_by_id_live)
  \<comment> \<open>and allocates again\<close>
  have wf: "alloc_wf ?tot ?a" by (rule alloc_wf_take_new [OF sz(2)])
  have al0: "alloc (new_allocator ?tot) sz align = Some (?a, snd (take_block (new_allocator ?tot) (ucast sz) 0
      (if unat sz < unat ?tot then [(ucast sz, ?tot - ucast sz)] else [])))"
    by (simp add: alloc_new_allocator sz(2))
  have cp: "alloc_complete ?tot ?a"
    by (rule alloc_complete_alloc [OF alloc_wf_new room al0 alloc_complete_new]) simp
  have "0 < ?tot" using sz by (simp add: word_less_nat_alt)
  from restores_arena(3) [OF wf cp used this sz(2) room]
  obtain a4 x where x: "alloc ?a3 sz align = Some (a4, x)" "al_offset x = 0" "al_len x = sz" by blast
  have "alloc_lease w3 sz align = alloc_result w3 w3 (a4, x)" by (rule alloc_lease_fits) (simp add: a3 x(1))
  then have "alloc_lease w3 sz align = (w3\<lparr>w_allocator := a4\<rparr>, Ok (lease_of w3 x))"
    by (simp add: alloc_result_def)
  moreover have "ls_offset (lease_of w3 x) = ls_offset l" "ls_len (lease_of w3 x) = ls_len l"
    by (simp_all add: lease_of_def x l)
  ultimately show ?thesis using r l(1) lv g w3 dead by blast
qed

section \<open>Concrete instances\<close>

lemma small_align: "w_allocator_align (small_writer 2) = 64"
proof -
  have "arena_start 2 2 = 8192" by (simp add: arena_start_def align_up_nat_def)
  then show ?thesis
    by (simp add: small_writer_def writer_create_def small_backend_def small_config_def default_config_def
        map_layout_eq create_defs)
qed

lemma small_writer_ok:
  "writer_ok (small_writer 2)" "ready_queue (small_writer 2) = []" "rec_queue (small_writer 2) = []"
  using small_ok(1,2,5) [of 2] by simp_all

lemmas small_facts = small_writer_ok small_fields small_arena small_align

theorem publish_recv_roundtrip_witness:
  "\<exists>w' i v buf. publish [] (0, 0) [1, 2, 3] 40 (small_writer 2) = Some (w', Ok i) \<and>
    recv_blocking [] w' = Some (v, Ok buf) \<and> rb_payload buf = [1, 2, 3] \<and> rb_pts_ns buf = 40"
proof -
  have "\<exists>w' i v buf. publish [] (0, 0) [1, 2, 3] 40 (small_writer 2) = Some (w', Ok i) \<and>
    recv_blocking [] w' = Some (v, Ok buf) \<and> rb_payload buf = [1, 2, 3] \<and> rb_pts_ns buf = 40 \<and>
    rb_buffer_id buf = i \<and> ready_queue v = []"
    by (rule publish_recv_roundtrip) (simp_all add: small_facts roomy_def unat_max)
  then show ?thesis by blast
qed

theorem publish_oversize_overruns_witness:
  "\<exists>w' i off len. publish [] (0, 0) (replicate (2 ^ 32 + 10) 7) 40 (small_writer 2) = Some (w', Ok i) \<and>
    last (ready_queue w') = (i, off, len, 40) \<and> unat len = 10 \<and>
    live (w_allocator w') i = Some (off, ucast len) \<and> arena w' (unat off + (2 ^ 32 + 9)) = 7"
proof -
  let ?p = "replicate (2 ^ 32 + 10) (7 :: u8)"
  have "\<exists>w' i off len. publish [] (0, 0) ?p 40 (small_writer 2) = Some (w', Ok i) \<and>
    last (ready_queue w') = (i, off, len, 40) \<and> live (w_allocator w') i = Some (off, ucast len) \<and>
    unat len = length ?p mod 2 ^ 32 \<and> unat len + 2 ^ 32 \<le> length ?p \<and>
    (\<forall>j<length ?p. arena w' (unat off + j) = ?p ! j)"
    by (rule publish_oversize_overruns) (simp_all add: small_facts roomy_def unat_max)
  then obtain w' i off len where r: "publish [] (0, 0) ?p 40 (small_writer 2) = Some (w', Ok i)"
    "last (ready_queue w') = (i, off, len, 40)" "unat len = length ?p mod 2 ^ 32"
    "\<forall>j<length ?p. arena w' (unat off + j) = ?p ! j" "live (w_allocator w') i = Some (off, ucast len)" by blast
  have j: "2 ^ 32 + 9 < length ?p" by (simp only: length_replicate)
  then have "arena w' (unat off + (2 ^ 32 + 9)) = ?p ! (2 ^ 32 + 9)" using r(4) by blast
  also have "\<dots> = 7" using j by (simp only: length_replicate nth_replicate)
  finally have "arena w' (unat off + (2 ^ 32 + 9)) = 7" .
  moreover have "unat len = 10" using r(3) by (simp only: length_replicate) simp
  ultimately show ?thesis using r(1,2,5) by blast
qed

text \<open>A ring of one entry, occupied.\<close>

definition one_slot_writer :: writer where
  "one_slot_writer = full_writer\<lparr>h_ready_capacity := 1, ready := [hd (ready full_writer)]\<rparr>"

theorem stale_return_frees_new_lease_witness:
  "\<exists>w1 l w2 w3 w4 l'. alloc_lease held_writer 100 64 = (w1, Ok l) \<and>
    recycle_desc_try 1 0 4096 0 w1 = Some (w2, Ok ()) \<and> drain_recycles w2 = (w3, Ok ()) \<and>
    live (w_allocator w3) (ls_buffer_id l) = None \<and>
    alloc_lease w3 100 64 = (w4, Ok l') \<and> ls_offset l' = ls_offset l"
proof -
  let ?d = "\<lparr>rv_seq = 1, rv_buffer_id = 1, rv_pts_ns = 5, rv_dts_ns = 5, rv_duration_ns = 0, rv_flags = 0,
    rv_offset = 0, rv_len = 4096\<rparr>"
  have "alloc (w_allocator held_writer) 100 64 = None"
    by (simp add: alloc_carve held_writer_def full_writer_def)
  then have "\<exists>w1 l w2 w3 w4 l'. alloc_lease held_writer 100 64 = (w1, Ok l) \<and>
    live (w_allocator w1) (ls_buffer_id l) = Some (ls_offset l, ucast (100 :: u32)) \<and>
    recycle_desc_try (rv_buffer_id ?d) (rv_offset ?d) (rv_len ?d) 0 w1 = Some (w2, Ok ()) \<and>
    drain_recycles w2 = (w3, Ok ()) \<and> live (w_allocator w3) (ls_buffer_id l) = None \<and>
    alloc_lease w3 100 64 = (w4, Ok l') \<and> ls_offset l' = ls_offset l \<and> ls_len l' = ls_len l"
    by (intro stale_return_frees_new_lease) (simp_all add: full_writer_ok roomy_def unat_max)
  then show ?thesis by (simp only: received_desc.simps) blast
qed

text \<open>A lease and its publication as calm steps from the new region.\<close>

lemma demo_path:
  obtains s1 s2 l where "reachable (small_writer 2) s1" "sy_pending s1 = [l]" "lease_buffer l = (1, 0, 100)"
    "reachable (small_writer 2) s2" "sy_pending s2 = []" "ready_queue (sy_writer s2) = [(1, 0, 100, 7)]"
    "sy_held s2 = []" "h_ready_head (sy_writer s2) = 1" "h_rec_head (sy_writer s2) = 0"
proof -
  let ?w = "small_writer 2"
  let ?s0 = "\<lparr>sy_writer = ?w, sy_pending = [], sy_held = []\<rparr>"
  have r0: "reachable ?w ?s0" by (rule reachable.created [OF small_create]) simp_all
  let ?y = "take_block (new_allocator 4096) 100 0 [(100, 3996)]"
  have "w_allocator ?w = new_allocator 4096" using small_ok(4) [of 2] by (simp add: small_arena)
  then have "alloc (w_allocator ?w) 100 64 = Some ?y" by (simp add: alloc_new_allocator)
  then have al: "alloc_lease ?w 100 64 = alloc_result ?w ?w ?y" by (rule alloc_lease_fits)
  let ?l = "lease_of ?w (snd ?y)" and ?w1 = "?w\<lparr>w_allocator := fst ?y\<rparr>"
  let ?s1 = "\<lparr>sy_writer = ?w1, sy_pending = [?l], sy_held = []\<rparr>"
  have e1: "sys_exec (Lease 100 64) ?s0 = Some ?s1" by (simp add: al alloc_result_def)
  have "calm (Lease 100 64) ?s0"
    using small_ok(3,4) [of 2]
    by (simp add: calm_def small_facts al alloc_result_def roomy_def unat_max)
  from reachable.step [OF r0 this e1] have r1: "reachable ?w ?s1" .
  have lb: "lease_buffer ?l = (1, 0, 100)" by (simp add: lease_buffer_def lease_of_def take_block_def)
  have q1: "ready_queue ?w1 = []" using small_writer_ok(2) by (simp add: ready_queue_def ready_entries_def)
  have o1: "owned ?s1" by (rule reachable_owned [OF r1])
  then have ok1: "writer_ok ?w1" by (simp add: owned_def)
  have "publish_lease_try (0, 0) ?l 7 ?w1 \<noteq> None"
    by (simp add: publish_lease_try_None small_facts)
  then obtain w2 r where p: "publish_lease_try (0, 0) ?l 7 ?w1 = Some (w2, r)" by auto
  have wrap: "unat (h_ready_head ?w1) + 1 < 2 ^ 64" by (simp add: small_facts)
  note s = publish_step [OF ok1 wrap _ p]
  have lv: "live (w_allocator ?w1) (ls_buffer_id ?l) = Some (ls_offset ?l, ucast (ls_len ?l))"
    using owned_pending(1) [OF o1, of 0] by simp
  let ?s2 = "\<lparr>sy_writer = w2, sy_pending = [], sy_held = []\<rparr>"
  have e2: "sys_exec (Publish 0 7 (0, 0)) ?s1 = Some ?s2"
    using p s(1) [OF lv] by (simp add: vec_remove_def)
  have "calm (Publish 0 7 (0, 0)) ?s1" using q1 by (simp add: calm_def small_facts)
  from reachable.step [OF r1 this e2] have r2: "reachable ?w ?s2" .
  have "ready_queue w2 = [(1, 0, 100, 7)]"
    using s(3) [OF lv] q1 by (simp add: offered_frame_def lease_of_def take_block_def)
  moreover have "h_ready_head w2 = 1" "h_rec_head w2 = 0" using s(8,9) [OF lv] by (simp_all add: small_facts)
  ultimately show ?thesis using that [OF r1 _ lb r2] by simp
qed

theorem single_ownership_witness:
  "\<exists>s. reachable (small_writer 2) s \<and> leased (w_allocator (sy_writer s)) (1, 0, 100)"
proof (rule demo_path)
  fix s2 :: sys
  assume r: "reachable (small_writer 2) s2" "ready_queue (sy_writer s2) = [(1, 0, 100, 7)]"
  have "(1, 0, 100) \<in> set (circulating s2)" by (simp add: circulating_def r(2) frame_buffer_def)
  with single_ownership [OF r(1)] r(1) show ?thesis by blast
qed

theorem frame_payload_stable_witness:
  "\<exists>s s'. reachable (small_writer 2) s \<and> sys_exec Receive s = Some s' \<and>
    payload_bytes (sy_writer s') (1, 0, 100) = payload_bytes (sy_writer s) (1, 0, 100)"
proof (rule demo_path)
  fix s2 :: sys
  assume r: "reachable (small_writer 2) s2" "ready_queue (sy_writer s2) = [(1, 0, 100, 7)]"
    "h_ready_head (sy_writer s2) = 1" "h_rec_head (sy_writer s2) = 0"
  have "writer_ok (sy_writer s2)" using reachable_owned [OF r(1)] by (simp add: owned_def)
  then have ok: "ready_ok (sy_writer s2)" by (rule writer_okD(1))
  from r(2) obtain d where "ready_entries (sy_writer s2) = [d]" by (auto simp: ready_queue_def)
  from try_recv_desc_some(1) [OF ok this] obtain s' where e: "sys_exec Receive s2 = Some s'" by simp
  have c: "calm Receive s2" using r by (simp add: calm_def)
  from frame_payload_stable [OF r(1) c e, of "(1, 0, 100)"] r e show ?thesis
    by (auto simp: frame_buffer_def)
qed


end
