(* ===== verification/Text.thy ===== *)
theory Text
  imports Prelude
begin

text \<open>
  The operations on strings of the Rust standard library that the crate calls, on lists of
  characters: searching, splitting, replacing, joining, decimal numbers. A character stands for a
  code point below 256; the crate looks only at ASCII characters and at white space.
\<close>

section \<open>Searching\<close>

definition starts_with :: "string \<Rightarrow> string \<Rightarrow> bool" where
  "starts_with p s \<longleftrightarrow> take (length p) s = p"

text \<open>\<open>str::find\<close>: the position of the first occurrence.\<close>

fun find_str :: "string \<Rightarrow> string \<Rightarrow> nat option" where
  "find_str p [] = (if p = [] then Some 0 else None)"
| "find_str p (c # s) = (if starts_with p (c # s) then Some 0 else map_option Suc (find_str p s))"

text \<open>\<open>str::strip_prefix\<close> and \<open>str::contains\<close>.\<close>

definition strip_prefix :: "string \<Rightarrow> string \<Rightarrow> string option" where
  "strip_prefix p s = (if starts_with p s then Some (drop (length p) s) else None)"

definition contains_str :: "string \<Rightarrow> string \<Rightarrow> bool" where
  "contains_str p s \<longleftrightarrow> find_str p s \<noteq> None"

lemma starts_with_append [simp]: "starts_with p (p @ s)"
  by (simp add: starts_with_def)

lemma starts_with_iff: "starts_with p s \<longleftrightarrow> (\<exists>r. s = p @ r)"
  unfolding starts_with_def by (metis append_eq_conv_conj append_take_drop_id)

lemma strip_prefix_append [simp]: "strip_prefix p (p @ s) = Some s"
  by (simp add: strip_prefix_def)

lemma strip_prefix_Some: "strip_prefix p s = Some r \<longleftrightarrow> s = p @ r"
  by (auto simp: strip_prefix_def starts_with_iff)

lemma strip_prefix_None: "strip_prefix p s = None \<longleftrightarrow> (\<nexists>r. s = p @ r)"
  by (auto simp: strip_prefix_def starts_with_iff)

lemma find_str_Some:
  "find_str p s = Some n \<Longrightarrow> \<exists>rest. drop n s = p @ rest \<and> (\<forall>m<n. \<not> starts_with p (drop m s))"
proof (induction p s arbitrary: n rule: find_str.induct)
  case (1 p)
  then show ?case by (auto split: if_splits)
next
  case (2 p c s)
  show ?case
  proof (cases "starts_with p (c # s)")
    case True
    then have "n = 0" using "2.prems" by simp
    moreover have "c # s = p @ drop (length p) (c # s)"
      using True unfolding starts_with_def by (metis append_take_drop_id)
    ultimately show ?thesis by (metis drop0 not_less_zero)
  next
    case False
    with "2.prems" obtain k where k: "find_str p s = Some k" "n = Suc k" by auto
    from "2.IH" [OF False k(1)] obtain rest where "drop k s = p @ rest" "\<forall>m<k. \<not> starts_with p (drop m s)" by blast
    moreover have "\<not> starts_with p (drop m (c # s))" if "m < n" for m
      using that False calculation(2) k(2) by (cases m) auto
    ultimately show ?thesis using k(2) by auto
  qed
qed

lemma find_str_None: "find_str p s = None \<Longrightarrow> \<not> starts_with p (drop m s)"
proof (induction p s arbitrary: m rule: find_str.induct)
  case (1 p)
  then show ?case by (auto simp: starts_with_def split: if_splits)
next
  case (2 p c s)
  then show ?case by (cases m) (auto split: if_splits)
qed

lemma contains_str_iff: "contains_str p s \<longleftrightarrow> (\<exists>a b. s = a @ p @ b)"
proof
  assume "contains_str p s"
  then obtain n where "find_str p s = Some n" by (auto simp: contains_str_def)
  from find_str_Some [OF this] obtain r where "drop n s = p @ r" by blast
  then show "\<exists>a b. s = a @ p @ b" by (metis append_take_drop_id)
next
  assume "\<exists>a b. s = a @ p @ b"
  then obtain a b where "s = a @ p @ b" by blast
  then have "starts_with p (drop (length a) s)" by simp
  then show "contains_str p s" using find_str_None unfolding contains_str_def by blast
qed

section \<open>Splitting at a character\<close>

text \<open>\<open>str::split_once\<close> at the first occurrence, \<open>str::rsplit_once\<close> at the last.\<close>

fun split_once :: "char \<Rightarrow> string \<Rightarrow> (string \<times> string) option" where
  "split_once c [] = None"
| "split_once c (x # s) =
     (if x = c then Some ([], s) else map_option (\<lambda>(a, b). (x # a, b)) (split_once c s))"

definition rsplit_once :: "char \<Rightarrow> string \<Rightarrow> (string \<times> string) option" where
  "rsplit_once c s = map_option (\<lambda>(a, b). (rev b, rev a)) (split_once c (rev s))"

lemma split_once_append: "c \<notin> set a \<Longrightarrow> split_once c (a @ c # b) = Some (a, b)"
  by (induction a) auto

lemma split_once_Some: "split_once c s = Some (a, b) \<longleftrightarrow> s = a @ c # b \<and> c \<notin> set a"
proof (induction s arbitrary: a)
  case (Cons x s)
  show ?case
  proof (cases "x = c")
    case True
    then show ?thesis by (cases a) auto
  next
    case False
    have "split_once c (x # s) = Some (a, b) \<longleftrightarrow> (\<exists>a'. a = x # a' \<and> split_once c s = Some (a', b))"
      using False by auto
    also have "\<dots> \<longleftrightarrow> x # s = a @ c # b \<and> c \<notin> set a"
      using False by (cases a) (auto simp: Cons.IH)
    finally show ?thesis .
  qed
qed simp

lemma split_once_None: "split_once c s = None \<longleftrightarrow> c \<notin> set s"
  by (induction s) auto

lemma rsplit_once_Some: "rsplit_once c s = Some (a, b) \<longleftrightarrow> s = a @ c # b \<and> c \<notin> set b"
proof -
  have "rsplit_once c s = Some (a, b) \<longleftrightarrow> split_once c (rev s) = Some (rev b, rev a)"
    by (auto simp: rsplit_once_def)
  also have "\<dots> \<longleftrightarrow> rev s = rev b @ c # rev a \<and> c \<notin> set b" by (simp add: split_once_Some)
  also have "rev s = rev b @ c # rev a \<longleftrightarrow> s = a @ c # b" by (simp add: rev_swap)
  finally show ?thesis .
qed

lemma rsplit_once_None: "rsplit_once c s = None \<longleftrightarrow> c \<notin> set s"
  by (simp add: rsplit_once_def split_once_None)

section \<open>White space and words\<close>

text \<open>\<open>char::is_whitespace\<close> below code point 256.\<close>

definition is_whitespace :: "char \<Rightarrow> bool" where
  "is_whitespace c \<longleftrightarrow> (let n = of_char c :: nat in (9 \<le> n \<and> n \<le> 13) \<or> n = 32 \<or> n = 133 \<or> n = 160)"

text \<open>\<open>str::split_whitespace\<close>: the maximal runs of other characters. \<open>word\<close> is the run so far.\<close>

fun split_words :: "string \<Rightarrow> string \<Rightarrow> string list" where
  "split_words word [] = (if word = [] then [] else [word])"
| "split_words word (c # s) =
     (if is_whitespace c then (if word = [] then split_words [] s else word # split_words [] s)
      else split_words (word @ [c]) s)"

definition split_whitespace :: "string \<Rightarrow> string list" where
  "split_whitespace s = split_words [] s"

text \<open>\<open>[String]::join\<close>.\<close>

fun join :: "string \<Rightarrow> string list \<Rightarrow> string" where
  "join sep [] = []"
| "join sep [w] = w"
| "join sep (w # v # ws) = w @ sep @ join sep (v # ws)"

definition is_word :: "string \<Rightarrow> bool" where
  "is_word w \<longleftrightarrow> w \<noteq> [] \<and> (\<forall>c\<in>set w. \<not> is_whitespace c)"

lemma space_is_whitespace [simp]: "is_whitespace CHR '' ''"
  by (simp add: is_whitespace_def)

lemma split_words_run: "\<forall>c\<in>set w. \<not> is_whitespace c \<Longrightarrow> split_words v (w @ s) = split_words (v @ w) s"
  by (induction w arbitrary: v) simp_all

lemma split_words_words:
  "\<forall>c\<in>set w. \<not> is_whitespace c \<Longrightarrow> \<forall>v\<in>set (split_words w s). is_word v"
proof (induction w s rule: split_words.induct)
  case (2 word c s)
  have here: "is_word word" if "word \<noteq> []" using that 2(4) by (simp add: is_word_def)
  consider "is_whitespace c" "word = []" | "is_whitespace c" "word \<noteq> []" | "\<not> is_whitespace c" by blast
  then show ?case
  proof cases
    case 1
    then show ?thesis using 2(1) by simp
  next
    case 2: 2
    then show ?thesis using "2.IH"(2) here by simp
  next
    case 3
    then show ?thesis using "2.IH"(3) "2.prems" by simp
  qed
qed (simp add: is_word_def)

lemma split_whitespace_words: "v \<in> set (split_whitespace s) \<Longrightarrow> is_word v"
  using split_words_words [of "[]" s] by (simp add: split_whitespace_def)

text \<open>Joining words with single spaces and splitting again gives the words.\<close>

lemma split_join: "\<forall>w\<in>set ws. is_word w \<Longrightarrow> split_whitespace (join '' '' ws) = ws"
proof -
  have "\<forall>w\<in>set ws. is_word w \<Longrightarrow> split_words [] (join '' '' ws) = ws"
  proof (induction "'' ''" ws rule: join.induct)
    case (2 w)
    then show ?case using split_words_run [of w "[]" "[]"] by (simp add: is_word_def)
  next
    case (3 w v ws)
    then have "split_words [] (w @ '' '' @ join '' '' (v # ws)) = w # split_words [] (join '' '' (v # ws))"
      using split_words_run [of w "[]" "'' '' @ join '' '' (v # ws)"] by (simp add: is_word_def)
    with 3 show ?case by simp
  qed simp
  then show "\<forall>w\<in>set ws. is_word w \<Longrightarrow> ?thesis" by (simp add: split_whitespace_def)
qed

section \<open>Replacing\<close>

text \<open>\<open>str::replace\<close> of a non-empty pattern: left to right, without overlaps.\<close>

function replace_str :: "string \<Rightarrow> string \<Rightarrow> string \<Rightarrow> string" where
  "replace_str p q [] = []"
| "replace_str p q (c # s) =
     (if p \<noteq> [] \<and> starts_with p (c # s) then q @ replace_str p q (drop (length p) (c # s))
      else c # replace_str p q s)"
  by pat_completeness auto
termination
  by (relation "measure (\<lambda>(p, q, s). length s)") (auto simp: length_greater_0_conv [symmetric] simp del: length_greater_0_conv)

lemma replace_str_id: "\<not> contains_str p s \<Longrightarrow> replace_str p q s = s"
proof (induction p q s rule: replace_str.induct)
  case (2 p q c s)
  have "\<not> starts_with p (c # s)" "\<not> contains_str p s"
    using "2.prems" by (auto simp: contains_str_def split: if_splits)
  then show ?case using "2.IH"(2) by simp
qed simp

section \<open>Decimal numbers\<close>

definition digit_value :: "char \<Rightarrow> nat option" where
  "digit_value c = (let n = of_char c :: nat in if 48 \<le> n \<and> n \<le> 57 then Some (n - 48) else None)"

text \<open>
  \<open>str::parse\<close> for an unsigned type of the given range: an optional plus sign, then digits, at
  least one, with every product and sum checked.
\<close>

fun parse_digits :: "nat \<Rightarrow> nat \<Rightarrow> string \<Rightarrow> nat option" where
  "parse_digits bound acc [] = Some acc"
| "parse_digits bound acc (c # s) =
     (case digit_value c of
        None \<Rightarrow> None
      | Some d \<Rightarrow>
          if acc * 10 \<ge> bound then None
          else if acc * 10 + d \<ge> bound then None else parse_digits bound (acc * 10 + d) s)"

definition parse_uint :: "nat \<Rightarrow> string \<Rightarrow> nat option" where
  "parse_uint bound s =
     (if s = [] then None
      else if s = ''+'' \<or> s = ''-'' then None
      else if hd s = CHR ''+'' then parse_digits bound 0 (tl s)
      else parse_digits bound 0 s)"

text \<open>The decimal representation that \<open>format!\<close> prints.\<close>

fun show_nat :: "nat \<Rightarrow> string" where
  "show_nat n = (if n < 10 then [char_of (48 + n)] else show_nat (n div 10) @ [char_of (48 + n mod 10)])"

declare show_nat.simps [simp del]

lemma digit_value_char: "d < 10 \<Longrightarrow> digit_value (char_of (48 + d)) = Some d"
  by (simp add: digit_value_def)

lemma parse_digits_append:
  "parse_digits bound acc (s @ t) =
     (case parse_digits bound acc s of None \<Rightarrow> None | Some n \<Rightarrow> parse_digits bound n t)"
  by (induction s arbitrary: acc) (auto split: option.split)

lemma parse_show: "n < bound \<Longrightarrow> parse_digits bound 0 (show_nat n) = Some n"
proof (induction n rule: show_nat.induct)
  case (1 n)
  show ?case
  proof (cases "n < 10")
    case True
    then show ?thesis using 1 digit_value_char [of n] by (subst show_nat.simps) simp
  next
    case False
    have n: "n div 10 * 10 + n mod 10 = n" by simp
    have "n div 10 * 10 \<le> n" by simp
    then have "n div 10 * 10 < bound" "n div 10 < bound" using "1.prems" by linarith+
    then show ?thesis
      using False 1 n digit_value_char [of "n mod 10"] by (subst show_nat.simps) (simp add: parse_digits_append)
  qed
qed

lemma show_nat_digits: "c \<in> set (show_nat n) \<Longrightarrow> \<exists>d<10. c = char_of (48 + d :: nat)"
proof (induction n rule: show_nat.induct)
  case (1 n)
  have digits: "set (show_nat n) = (if n < 10 then {} else set (show_nat (n div 10))) \<union> {char_of (48 + n mod 10)}"
    by (subst show_nat.simps) simp
  show ?case
  proof (cases "c = char_of (48 + n mod 10)")
    case True
    then show ?thesis by (intro exI [of _ "n mod 10"]) simp
  next
    case False
    with 1(2) have "\<not> n < 10" "c \<in> set (show_nat (n div 10))" by (simp_all add: digits split: if_splits)
    then show ?thesis by (rule 1(1))
  qed
qed

lemma show_nat_ne: "show_nat n \<noteq> []"
  by (subst show_nat.simps) simp

lemma show_nat_no_sign: "CHR '':'' \<notin> set (show_nat n)" "CHR ''+'' \<notin> set (show_nat n)" "CHR ''-'' \<notin> set (show_nat n)"
proof -
  have "of_char CHR '':'' = (58 :: nat)" "of_char CHR ''+'' = (43 :: nat)" "of_char CHR ''-'' = (45 :: nat)" by simp_all
  moreover have "48 \<le> (of_char c :: nat) \<and> (of_char c :: nat) < 58" if "c \<in> set (show_nat n)" for c
    using show_nat_digits [OF that] by auto
  ultimately show "CHR '':'' \<notin> set (show_nat n)" "CHR ''+'' \<notin> set (show_nat n)" "CHR ''-'' \<notin> set (show_nat n)"
    by fastforce+
qed

lemma parse_uint_show: "n < bound \<Longrightarrow> parse_uint bound (show_nat n) = Some n"
proof -
  assume n: "n < bound"
  have "hd (show_nat n) \<in> set (show_nat n)" using show_nat_ne by (rule hd_in_set)
  then have "hd (show_nat n) \<noteq> CHR ''+''" "hd (show_nat n) \<noteq> CHR ''-''" using show_nat_no_sign by metis+
  then show ?thesis using parse_show [OF n] show_nat_ne by (auto simp: parse_uint_def)
qed

end
