(* ===== verification/Platform.thy ===== *)
theory Platform
  imports Transport Text
begin

text \<open>
  Choosing a backend (\<open>src/src/platform/mod.rs\<close>) and the POSIX file backend
  (\<open>src/src/platform/posix_file.rs\<close>). The target of the build (\<open>cfg(unix)\<close>, \<open>cfg(windows)\<close>) is an
  argument. The answers of the operating system are parameters, and the calls made to it are
  recorded in order, so that the lemmas can say which descriptors are open at the end.
\<close>

section \<open>Backend specifications\<close>

datatype target = Unix | Windows | Other_Target

datatype backend = PosixFileBackend | WindowsNamedBackend | WindowsIvshmemBackend

record backend_selection =
  bs_backend :: backend
  bs_name :: string

definition parse_scheme :: "string \<Rightarrow> (string \<times> string) option" where
  "parse_scheme spec =
     (case find_str ''://'' spec of None \<Rightarrow> None
      | Some pos \<Rightarrow> Some (take pos spec, drop (pos + 3) spec))"

definition normalize_windows_name :: "string \<Rightarrow> string" where
  "normalize_windows_name name = map (\<lambda>c. if c = CHR ''/'' then CHR 0x5C else c) name"

definition resolve_with_scheme :: "target \<Rightarrow> string \<Rightarrow> string \<Rightarrow> backend_selection res" where
  "resolve_with_scheme os scheme raw_name =
     (if scheme = ''shm'' then
        (if os = Unix then
           (if raw_name = [] then Err (InvalidBackendSpec ''shm:// URI requires a path'')
            else let path = (if starts_with ''/'' raw_name then raw_name else ''/'' @ raw_name)
                 in Ok \<lparr>bs_backend = PosixFileBackend, bs_name = path\<rparr>)
         else Err (UnsupportedBackend ''shm:// is only available on unix targets''))
      else if scheme = ''winshm'' then
        (if os = Windows then
           (if raw_name = [] then Err (InvalidBackendSpec ''winshm:// URI requires an object name'')
            else Ok \<lparr>bs_backend = WindowsNamedBackend, bs_name = normalize_windows_name raw_name\<rparr>)
         else Err (UnsupportedBackend ''winshm:// is only available on windows targets''))
      else if scheme = ''ivshmem'' then
        (if os = Windows then
           (if raw_name = [] then Err (InvalidBackendSpec ''ivshmem:// URI requires a device target'')
            else Ok \<lparr>bs_backend = WindowsIvshmemBackend, bs_name = raw_name\<rparr>)
         else Err (UnsupportedBackend ''ivshmem:// is only available on windows targets''))
      else Err (InvalidBackendSpec (''unsupported URI scheme '' @ [CHR 0x27] @ scheme @ [CHR 0x27])))"

definition resolve_backend :: "target \<Rightarrow> string \<Rightarrow> backend_selection res" where
  "resolve_backend os spec =
     (if spec = [] then Err (InvalidBackendSpec ''empty shm-path is not allowed'')
      else case parse_scheme spec of
        Some (scheme, raw_name) \<Rightarrow> resolve_with_scheme os scheme raw_name
      | None \<Rightarrow>
          (case os of
             Unix \<Rightarrow> Ok \<lparr>bs_backend = PosixFileBackend, bs_name = spec\<rparr>
           | Windows \<Rightarrow> Ok \<lparr>bs_backend = WindowsNamedBackend, bs_name = normalize_windows_name spec\<rparr>
           | Other_Target \<Rightarrow> Err (UnsupportedBackend ''no default backend for this target OS'')))"

section \<open>Backends and what they hold\<close>

text \<open>
  Every backend makes calls to its operating system. \<open>step\<close> says what a call does to the resources
  held, \<open>None\<close> for a call on something that is not held.
\<close>

fun run_calls :: "('c \<Rightarrow> 's \<Rightarrow> 's option) \<Rightarrow> 'c list \<Rightarrow> 's \<Rightarrow> 's option" where
  "run_calls step [] st = Some st"
| "run_calls step (c # cs) st = (case step c st of None \<Rightarrow> None | Some st1 \<Rightarrow> run_calls step cs st1)"

lemma run_calls_append:
  "run_calls step (cs @ ds) st = (case run_calls step cs st of None \<Rightarrow> None | Some st1 \<Rightarrow> run_calls step ds st1)"
  by (induction cs arbitrary: st) (auto split: option.split)

text \<open>Nothing is left over after a failure; a region holds something, and its destructor frees it.\<close>

definition tidy :: "('c \<Rightarrow> 's \<Rightarrow> 's option) \<Rightarrow> 's \<Rightarrow> ('r \<Rightarrow> 'c list) \<Rightarrow> 'c list \<times> 'r res \<Rightarrow> bool" where
  "tidy step idle region_drop outcome =
     (case snd outcome of
        Ok r \<Rightarrow> run_calls step (fst outcome) idle \<noteq> Some idle \<and>
               run_calls step (fst outcome @ region_drop r) idle = Some idle
      | Err e \<Rightarrow> run_calls step (fst outcome) idle = Some idle
      | Panic \<Rightarrow> False)"

text \<open>
  The loop of a consumer that attaches: it tries to open the region until that succeeds
  (\<open>bin/shm2_consumer.rs\<close>), and drops the region in the end. Each attempt meets other answers.
\<close>

fun attach_calls :: "('a \<Rightarrow> 'c list \<times> 'r res) \<Rightarrow> ('r \<Rightarrow> 'c list) \<Rightarrow> 'a list \<Rightarrow> 'c list" where
  "attach_calls attempt region_drop [] = []"
| "attach_calls attempt region_drop (x # xs) =
     (case attempt x of
        (calls, Ok r) \<Rightarrow> calls @ region_drop r
      | (calls, _) \<Rightarrow> calls @ attach_calls attempt region_drop xs)"

locale tidy_backend =
  fixes attempt :: "'a \<Rightarrow> 'c list \<times> 'r res"
    and region_drop :: "'r \<Rightarrow> 'c list"
    and step :: "'c \<Rightarrow> 's \<Rightarrow> 's option"
    and idle :: 's
    and documented :: "'a \<Rightarrow> bool"
  assumes attempt_tidy: "documented x \<Longrightarrow> tidy step idle region_drop (attempt x)"
begin

lemma attach_tidy:
  "\<forall>x\<in>set xs. documented x \<Longrightarrow> run_calls step (attach_calls attempt region_drop xs) idle = Some idle"
proof (induction xs)
  case (Cons x xs)
  obtain calls r where a: "attempt x = (calls, r)" by force
  have "tidy step idle region_drop (calls, r)" using attempt_tidy [of x] Cons.prems by (simp add: a)
  then show ?case using Cons by (cases r) (simp_all add: a tidy_def run_calls_append)
qed simp

end

section \<open>The POSIX file backend\<close>

text \<open>What the system calls answer. \<open>None\<close> of \<open>px_mmap\<close> is \<open>MAP_FAILED\<close>.\<close>

record posix =
  px_open :: "string \<Rightarrow> int \<Rightarrow> u32 \<Rightarrow> int"
  px_ftruncate :: "int \<Rightarrow> int \<Rightarrow> int"
  px_fstat :: "int \<Rightarrow> int"
  px_st_size :: "int \<Rightarrow> int"
  px_mmap :: "usize \<Rightarrow> int \<Rightarrow> usize option"
  px_errno :: int

text \<open>The calls made; \<open>open\<close> and \<open>mmap\<close> with what they returned.\<close>

datatype posix_call =
  C_open string int u32 int
| C_ftruncate int int
| C_fstat int
| C_mmap usize int "usize option"
| C_munmap usize usize
| C_close int

record posix_region =
  pr_ptr :: usize
  pr_len :: usize
  pr_fd :: int

text \<open>Linux values of the flags.\<close>

definition O_CREAT :: int where "O_CREAT = 64"
definition O_RDWR :: int where "O_RDWR = 2"
definition O_CLOEXEC :: int where "O_CLOEXEC = 524288"

definition open_internal ::
    "posix \<Rightarrow> string \<Rightarrow> int \<Rightarrow> u32 \<Rightarrow> usize option \<Rightarrow> posix_call list \<times> posix_region res" where
  "open_internal os path flags perms truncate_to =
     (if CHR 0x00 \<in> set path then ([], Err (InvalidConfig ''path contains embedded NUL byte''))
      else
        let fd = px_open os path flags perms;
            opened = [C_open path flags perms fd]
        in if fd < 0 then (opened, Err (Io (px_errno os)))
           else
             let resize = (case truncate_to of None \<Rightarrow> None | Some sz \<Rightarrow> Some (sint sz));
                 resized = opened @ (case resize of None \<Rightarrow> [] | Some n \<Rightarrow> [C_ftruncate fd n])
             in if (case resize of None \<Rightarrow> False | Some n \<Rightarrow> px_ftruncate os fd n < 0)
                then (resized @ [C_close fd], Err (Io (px_errno os)))
                else if px_fstat os fd < 0
                then (resized @ [C_fstat fd, C_close fd], Err (Io (px_errno os)))
                else if px_st_size os fd \<le> 0
                then (resized @ [C_fstat fd, C_close fd],
                      Err (InvalidConfig ''shared file is empty; expected initialized region''))
                else
                  let len = word_of_int (px_st_size os fd);
                      mapped = resized @ [C_fstat fd, C_mmap len fd (px_mmap os len fd)]
                  in (case px_mmap os len fd of
                        None \<Rightarrow> (mapped @ [C_close fd], Err (Io (px_errno os)))
                      | Some ptr \<Rightarrow>
                          if ptr = 0 then (mapped, Err (Protocol ''mmap returned null pointer''))
                          else (mapped, Ok \<lparr>pr_ptr = ptr, pr_len = len, pr_fd = fd\<rparr>)))"

definition posix_create :: "posix \<Rightarrow> string \<Rightarrow> usize \<Rightarrow> u32 \<Rightarrow> posix_call list \<times> posix_region res" where
  "posix_create os name sz perms =
     (if sz = 0 then ([], Err (InvalidConfig ''size must be non-zero''))
      else open_internal os name (O_CREAT + O_RDWR + O_CLOEXEC) perms (Some sz))"

definition posix_open :: "posix \<Rightarrow> string \<Rightarrow> posix_call list \<times> posix_region res" where
  "posix_open os name = open_internal os name (O_RDWR + O_CLOEXEC) 0 None"

text \<open>The destructor of a region.\<close>

definition posix_drop :: "posix_region \<Rightarrow> posix_call list" where
  "posix_drop r = [C_munmap (pr_ptr r) (pr_len r), C_close (pr_fd r)]"

text \<open>The open descriptors and the mappings.\<close>

fun posix_step :: "posix_call \<Rightarrow> int list \<times> usize list \<Rightarrow> (int list \<times> usize list) option" where
  "posix_step (C_open _ _ _ fd) (fds, ms) = Some (if fd < 0 then (fds, ms) else (fd # fds, ms))"
| "posix_step (C_ftruncate fd _) (fds, ms) = (if fd \<in> set fds then Some (fds, ms) else None)"
| "posix_step (C_fstat fd) (fds, ms) = (if fd \<in> set fds then Some (fds, ms) else None)"
| "posix_step (C_mmap _ fd r) (fds, ms) =
     (if fd \<in> set fds then Some (fds, case r of None \<Rightarrow> ms | Some p \<Rightarrow> p # ms) else None)"
| "posix_step (C_munmap p _) (fds, ms) = (if p \<in> set ms then Some (fds, remove1 p ms) else None)"
| "posix_step (C_close fd) (fds, ms) = (if fd \<in> set fds then Some (remove1 fd fds, ms) else None)"

text \<open>No mapping lies at address 0.\<close>

definition no_null_mapping :: "posix \<Rightarrow> bool" where
  "no_null_mapping os \<longleftrightarrow> (\<forall>len fd. px_mmap os len fd \<noteq> Some 0)"

lemma open_internal_tidy:
  "no_null_mapping os \<Longrightarrow> tidy posix_step ([], []) posix_drop (open_internal os path flags perms trunc)"
  by (auto simp: open_internal_def posix_drop_def tidy_def no_null_mapping_def Let_def split: option.splits)

interpretation posix_opening: tidy_backend "\<lambda>(os, path). posix_open os path" posix_drop posix_step "([], [])"
  "\<lambda>(os, path). no_null_mapping os"
  by unfold_locales (auto simp: posix_open_def open_internal_tidy)

interpretation posix_creating: tidy_backend "\<lambda>(os, path, sz, perms). posix_create os path sz perms" posix_drop
  posix_step "([], [])" "\<lambda>(os, path, sz, perms). no_null_mapping os"
  by unfold_locales (auto simp: posix_create_def open_internal_tidy tidy_def [of _ _ _ "([], Err e)" for e])

section \<open>Properties\<close>

text \<open>
  \<open>parse_scheme\<close> splits at the first \<open>://\<close>: it succeeds exactly on specifications that
  contain it, the two parts with \<open>://\<close> between them are the specification, and \<open>://\<close> occurs nowhere
  earlier.
\<close>

lemma parse_scheme_splits:
  "(case parse_scheme spec of
      Some (scheme, rest) \<Rightarrow> spec = scheme @ ''://'' @ rest \<and>
        (\<forall>m<length scheme. \<not> starts_with ''://'' (drop m spec))
    | None \<Rightarrow> \<forall>m. \<not> starts_with ''://'' (drop m spec))"
proof (cases "find_str ''://'' spec")
  case None
  then show ?thesis by (simp add: parse_scheme_def find_str_None)
next
  case (Some n)
  from find_str_Some [OF this] obtain rest where r: "drop n spec = ''://'' @ rest"
    "\<forall>m<n. \<not> starts_with ''://'' (drop m spec)" by blast
  have "drop (n + 3) spec = drop 3 (drop n spec)" by (simp add: add.commute)
  then have rest: "drop (n + 3) spec = rest" by (simp add: r(1))
  have n: "n \<le> length spec" using r(1) by (metis append_is_Nil_conv drop_all list.distinct(1) nat_le_linear)
  have "spec = take n spec @ drop n spec" by simp
  then have "spec = take n spec @ ''://'' @ rest" by (simp only: r(1))
  with Some rest r(2) n show ?thesis by (simp add: parse_scheme_def)
qed

text \<open>
  On a Unix target \<open>resolve_backend\<close> accepts exactly the plain non-empty paths and the
  \<open>shm://\<close> specifications with a non-empty path, always answers with the POSIX file backend, and
  leaves a plain path as it is; the path of \<open>shm://\<close> is made absolute.
\<close>

lemma resolve_backend_unix:
  "resolve_backend Unix spec =
     (case parse_scheme spec of
        None \<Rightarrow> if spec = [] then Err (InvalidBackendSpec ''empty shm-path is not allowed'')
                else Ok \<lparr>bs_backend = PosixFileBackend, bs_name = spec\<rparr>
      | Some (scheme, rest) \<Rightarrow>
          if scheme = ''shm'' \<and> rest \<noteq> [] then
            Ok \<lparr>bs_backend = PosixFileBackend,
                bs_name = (if hd rest = CHR ''/'' then rest else CHR ''/'' # rest)\<rparr>
          else if scheme = ''shm'' then Err (InvalidBackendSpec ''shm:// URI requires a path'')
          else if scheme = ''winshm'' then Err (UnsupportedBackend ''winshm:// is only available on windows targets'')
          else if scheme = ''ivshmem'' then Err (UnsupportedBackend ''ivshmem:// is only available on windows targets'')
          else Err (InvalidBackendSpec (''unsupported URI scheme '' @ [CHR 0x27] @ scheme @ [CHR 0x27])))"
proof -
  have "parse_scheme [] = None" by (simp add: parse_scheme_def)
  moreover have "starts_with ''/'' rest \<longleftrightarrow> hd rest = CHR ''/''" if "rest \<noteq> []" for rest
    using that by (cases rest) (auto simp: starts_with_def)
  ultimately show ?thesis
    by (auto simp: resolve_backend_def resolve_with_scheme_def split: option.split)
qed

text \<open>The descriptors that are open after a sequence of calls, when \<open>open\<close> answered \<open>fd\<close>.\<close>

fun still_open :: "int \<Rightarrow> posix_call list \<Rightarrow> bool" where
  "still_open fd [] = False"
| "still_open fd (c # cs) =
     (if C_close fd \<in> set cs then False else (case c of C_open _ _ _ _ \<Rightarrow> True | _ \<Rightarrow> still_open fd cs))"

text \<open>
  C32: \<open>open_internal\<close> keeps its descriptor exactly when it returns a region, with one exception: if
  \<open>mmap\<close> succeeds at address 0 the call fails with \<open>mmap returned null pointer\<close> and leaves both
  the descriptor and the mapping behind. Dropping a region unmaps its mapping and closes the
  descriptor, and if no mapping lies at address 0, a consumer that tries to open a region again and
  again and in the end drops it leaves nothing behind.
\<close>

theorem open_internal_closes:
  assumes "0 \<le> px_open os path flags perms" and "CHR 0x00 \<notin> set path"
    and "open_internal os path flags perms trunc = (calls, r)"
  shows "(still_open (px_open os path flags perms) calls \<longleftrightarrow>
      is_ok r \<or> r = Err (Protocol ''mmap returned null pointer'')) \<and>
    (\<forall>reg. r = Ok reg \<longrightarrow> C_mmap (pr_len reg) (px_open os path flags perms) (Some (pr_ptr reg)) \<in> set calls \<and>
      C_munmap (pr_ptr reg) (pr_len reg) \<in> set (posix_drop reg) \<and>
      \<not> still_open (px_open os path flags perms) (calls @ posix_drop reg)) \<and>
    ((\<forall>x\<in>set xs. no_null_mapping (fst x)) \<longrightarrow>
      run_calls posix_step (attach_calls (\<lambda>(os, path). posix_open os path) posix_drop xs) ([], []) = Some ([], []))"
proof -
  have "run_calls posix_step (attach_calls (\<lambda>(os, path). posix_open os path) posix_drop xs) ([], []) = Some ([], [])"
    if "\<forall>x\<in>set xs. no_null_mapping (fst x)"
    by (rule posix_opening.attach_tidy) (use that in \<open>simp add: case_prod_beta\<close>)
  then show ?thesis
    using assms by (auto simp: open_internal_def posix_drop_def Let_def split: if_splits option.splits)
qed

definition posix_demo :: "usize option \<Rightarrow> posix" where
  "posix_demo m = \<lparr>px_open = (\<lambda>_ _ _. 3), px_ftruncate = (\<lambda>_ _. 0), px_fstat = (\<lambda>_. 0),
     px_st_size = (\<lambda>_. 12288), px_mmap = (\<lambda>_ _. m), px_errno = 12\<rparr>"

theorem open_internal_closes_witness:
  "\<not> still_open 3 (fst (posix_create (posix_demo None) ''/dev/shm/x'' 12288 432)) \<and>
   still_open 3 (fst (posix_create (posix_demo (Some 0)) ''/dev/shm/x'' 12288 432))"
proof -
  have "still_open 3 (fst (posix_create (posix_demo m) ''/dev/shm/x'' 12288 432)) \<longleftrightarrow>
     is_ok (snd (posix_create (posix_demo m) ''/dev/shm/x'' 12288 432)) \<or>
     snd (posix_create (posix_demo m) ''/dev/shm/x'' 12288 432) = Err (Protocol ''mmap returned null pointer'')" for m
  proof -
    let ?r = "open_internal (posix_demo m) ''/dev/shm/x'' (O_CREAT + O_RDWR + O_CLOEXEC) 432 (Some 12288)"
    have "px_open (posix_demo m) ''/dev/shm/x'' (O_CREAT + O_RDWR + O_CLOEXEC) 432 = 3" by (simp add: posix_demo_def)
    then show ?thesis
      using open_internal_closes [of "posix_demo m" "''/dev/shm/x''" "O_CREAT + O_RDWR + O_CLOEXEC" 432
          "Some 12288" "fst ?r" "snd ?r"]
      by (simp add: posix_create_def)
  qed
  from this [of None] this [of "Some 0"] show ?thesis
    by (simp add: posix_create_def open_internal_def posix_demo_def Let_def)
qed

text \<open>
  When the operating system does as documented (\<open>ftruncate\<close> sets the size that \<open>fstat\<close> then
  reports, and mappings do not lie at address 0), a region made by the POSIX backend has exactly the
  requested length, and so has the region a later \<open>open\<close> of the same file returns: the length that
  \<open>validate_header\<close> compares with the configured size.
\<close>

lemma posix_create_then_open:
  assumes "0 \<le> px_open os path (O_CREAT + O_RDWR + O_CLOEXEC) perms" and "CHR 0x00 \<notin> set path"
    and "0 < sint sz" and "px_ftruncate os fd (sint sz) = 0" and "px_fstat os fd = 0"
    and "px_st_size os fd = sint sz" and "px_mmap os sz fd = Some ptr" and "ptr \<noteq> 0"
    and "fd = px_open os path (O_CREAT + O_RDWR + O_CLOEXEC) perms"
    and "0 \<le> fd'" and "fd' = px_open os path (O_RDWR + O_CLOEXEC) 0" and "px_fstat os fd' = 0"
    and "px_st_size os fd' = sint sz" and "px_mmap os sz fd' = Some ptr'" and "ptr' \<noteq> 0"
  shows "snd (posix_create os path sz perms) = Ok \<lparr>pr_ptr = ptr, pr_len = sz, pr_fd = fd\<rparr> \<and>
    snd (posix_open os path) = Ok \<lparr>pr_ptr = ptr', pr_len = sz, pr_fd = fd'\<rparr>"
proof -
  have "sz \<noteq> 0" using assms(3) by auto
  moreover have "word_of_int (sint sz) = sz" by simp
  ultimately show ?thesis
    using assms by (simp add: posix_create_def posix_open_def open_internal_def Let_def)
qed

end
