(* ===== verification/Gst.thy ===== *)
theory Gst
  imports Prelude
begin

text \<open>
  What both elements take from GStreamer: the flow result of a streaming function and the values
  that properties are set to. GStreamer itself is a parameter of the model; these are only the
  types its interface passes.
\<close>

section \<open>Flow results\<close>

text \<open>\<open>Result<T, gst::FlowError>\<close>, with the errors the code returns, and a panic.\<close>

datatype flow_error = Flushing | Flow_Error | Eos

datatype 'a flow = Flow 'a | No_Flow flow_error | Flow_Panic

section \<open>Property values\<close>

text \<open>
  A \<open>glib::Value\<close> of one of the types the elements ask for. \<open>value.get::<T>()\<close> fails on a value
  of another type. A string property may be unset.
\<close>

datatype gvalue = V_String "string option" | V_U64 u64 | V_U32 u32 | V_Bool bool

primrec get_string :: "gvalue \<Rightarrow> string option option" where
  "get_string (V_String v) = Some v"
| "get_string (V_U64 v) = None"
| "get_string (V_U32 v) = None"
| "get_string (V_Bool v) = None"

primrec get_u64 :: "gvalue \<Rightarrow> u64 option" where
  "get_u64 (V_String v) = None"
| "get_u64 (V_U64 v) = Some v"
| "get_u64 (V_U32 v) = None"
| "get_u64 (V_Bool v) = None"

primrec get_u32 :: "gvalue \<Rightarrow> u32 option" where
  "get_u32 (V_String v) = None"
| "get_u32 (V_U64 v) = None"
| "get_u32 (V_U32 v) = Some v"
| "get_u32 (V_Bool v) = None"

primrec get_bool :: "gvalue \<Rightarrow> bool option" where
  "get_bool (V_String v) = None"
| "get_bool (V_U64 v) = None"
| "get_bool (V_U32 v) = None"
| "get_bool (V_Bool v) = Some v"

text \<open>\<open>if let Ok(v) = value.get()\<close>: a value of the wrong type leaves the settings alone.\<close>

definition set_if :: "'v option \<Rightarrow> ('v \<Rightarrow> 's \<Rightarrow> 's) \<Rightarrow> 's \<Rightarrow> 's" where
  "set_if v f s = (case v of None \<Rightarrow> s | Some x \<Rightarrow> f x s)"

lemma set_if_simps [simp]: "set_if None f s = s" "set_if (Some x) f s = f x s"
  by (simp_all add: set_if_def)

text \<open>
  The contract of an element's properties, for one property with a setter, a getter and the
  correction the setter applies: what was set is read back, corrected; setting it twice is setting
  it once; another property is not affected.
\<close>

locale element_property =
  fixes set_value :: "'v \<Rightarrow> 's \<Rightarrow> 's" and get_value :: "'s \<Rightarrow> 'v" and fix_value :: "'v \<Rightarrow> 'v"
  assumes get_set: "get_value (set_value v s) = fix_value v"
    and set_set: "set_value u (set_value v s) = set_value u s"
    and fix_fix: "fix_value (fix_value v) = fix_value v"
begin

text \<open>Writing back what was read changes nothing that a reader of the property sees.\<close>

lemma write_back: "get_value (set_value (get_value (set_value v s)) s) = get_value (set_value v s)"
  by (simp add: get_set fix_fix)

lemma last_write_wins: "get_value (fold set_value (vs @ [v]) s) = fix_value v"
  by (simp add: get_set)

lemma writes_collapse: "fold set_value (vs @ [v]) s = set_value v s"
  by (induction vs arbitrary: s) (simp_all add: set_set)

end

end
