(* ===== verification/Sink.thy ===== *)
theory Sink
  imports Delivery Platform Gst
begin

text \<open>
  The sink element, \<open>src/src/shm2sink.rs\<close>: its settings and state, the tracker of the leases that
  upstream elements hold (\<open>AllocTracker\<close>) with the allocator that offers shared memory upstream,
  \<open>start\<close>, \<open>stop\<close>, \<open>unlock\<close>, \<open>unlock_stop\<close>, \<open>render\<close>, and the thread that collects returned
  buffers. GStreamer is a parameter: a buffer is what \<open>render\<close> looks at, its memories and its time
  stamp, and mapping it for reading succeeds. No lock is poisoned.
\<close>

section \<open>Settings\<close>

record sink_settings =
  sk_shm_path :: string
  sk_shm_size :: u64
  sk_perms :: u32
  sk_timeline_beacon_ms :: u32

definition SINK_DEFAULT_PATH :: "target \<Rightarrow> string" where
  "SINK_DEFAULT_PATH os =
     (case os of Windows \<Rightarrow> ''winshm://Local/gst-shm2-default'' | _ \<Rightarrow> ''/dev/shm/gst-shm2-default'')"

definition default_sink_settings :: "target \<Rightarrow> sink_settings" where
  "default_sink_settings os =
     \<lparr>sk_shm_path = SINK_DEFAULT_PATH os, sk_shm_size = 64 * 1024 * 1024, sk_perms = 432,
      sk_timeline_beacon_ms = 250\<rparr>"

text \<open>\<open>unreachable!()\<close> on any other name.\<close>

definition sink_set_property ::
    "target \<Rightarrow> string \<Rightarrow> gvalue \<Rightarrow> sink_settings \<Rightarrow> sink_settings res" where
  "sink_set_property os name value s =
     (if name = ''shm-path'' then
        Ok (set_if (get_string value)
              (\<lambda>v. sk_shm_path_update (\<lambda>_. case v of Some p \<Rightarrow> p | None \<Rightarrow> SINK_DEFAULT_PATH os)) s)
      else if name = ''shm-size'' then Ok (set_if (get_u64 value) (\<lambda>v. sk_shm_size_update (\<lambda>_. v)) s)
      else if name = ''perms'' then Ok (set_if (get_u32 value) (\<lambda>v. sk_perms_update (\<lambda>_. v)) s)
      else if name = ''timeline-beacon-ms'' then
        Ok (set_if (get_u32 value) (\<lambda>v. sk_timeline_beacon_ms_update (\<lambda>_. max v 1)) s)
      else Panic)"

definition sink_property :: "string \<Rightarrow> sink_settings \<Rightarrow> gvalue res" where
  "sink_property name s =
     (if name = ''shm-path'' then Ok (V_String (Some (sk_shm_path s)))
      else if name = ''shm-size'' then Ok (V_U64 (sk_shm_size s))
      else if name = ''perms'' then Ok (V_U32 (sk_perms s))
      else if name = ''timeline-beacon-ms'' then Ok (V_U32 (sk_timeline_beacon_ms s))
      else Panic)"

section \<open>The tracker of upstream leases\<close>

record pending_lease =
  pl_buffer_id :: u32
  pl_offset :: u64
  pl_len :: u32

text \<open>
  The tracker. Its writer is the very object (\<open>Arc<Mutex<Writer>>\<close>) of the element's state, so the
  operations below take that writer and return it; \<open>at_has_writer\<close> says whether the field is
  \<open>Some\<close>. The \<open>HashMap\<close> is a map.
\<close>

record alloc_tracker =
  at_has_writer :: bool
  at_pending :: "usize \<Rightarrow> pending_lease option"

definition pending_of :: "lease \<Rightarrow> pending_lease" where
  "pending_of l = \<lparr>pl_buffer_id = ls_buffer_id l, pl_offset = ls_offset l, pl_len = ls_len l\<rparr>"

text \<open>\<open>size as u32\<close> keeps the low 32 bits. \<open>None\<close> is the \<open>BoolError\<close>.\<close>

definition alloc_lease_for_upstream ::
    "usize \<Rightarrow> u64 \<Rightarrow> alloc_tracker \<Rightarrow> writer \<Rightarrow> (alloc_tracker \<times> writer) \<times> lease option res" where
  "alloc_lease_for_upstream sz align t w =
     (if \<not> at_has_writer t then ((t, w), Ok None)
      else case alloc_lease w (ucast sz) align of
        (w1, Ok lease) \<Rightarrow>
          ((t\<lparr>at_pending := (at_pending t)(ls_ptr lease \<mapsto> pending_of lease)\<rparr>, w1), Ok (Some lease))
      | (w1, Err e) \<Rightarrow> ((t, w1), Ok None)
      | (w1, Panic) \<Rightarrow> ((t, w1), Panic))"

definition release_unpublished :: "usize \<Rightarrow> alloc_tracker \<Rightarrow> writer \<Rightarrow> alloc_tracker \<times> writer" where
  "release_unpublished ptr t w =
     (case at_pending t ptr of
        None \<Rightarrow> (t, w)
      | Some pending \<Rightarrow>
          (t\<lparr>at_pending := (at_pending t)(ptr := None)\<rparr>,
           if at_has_writer t then fst (free_lease w (pl_buffer_id pending)) else w))"

definition mark_published :: "usize \<Rightarrow> usize \<Rightarrow> alloc_tracker \<Rightarrow> alloc_tracker \<times> lease option" where
  "mark_published ptr len t =
     (case at_pending t ptr of
        None \<Rightarrow> (t, None)
      | Some pending \<Rightarrow>
          let t1 = t\<lparr>at_pending := (at_pending t)(ptr := None)\<rparr>
          in if ucast (pl_len pending) \<noteq> len
             then (t1\<lparr>at_pending := (at_pending t1)(ptr \<mapsto> pending)\<rparr>, None)
             else (t1, Some \<lparr>ls_buffer_id = pl_buffer_id pending, ls_offset = pl_offset pending,
                             ls_len = pl_len pending, ls_ptr = ptr\<rparr>))"

section \<open>Buffers\<close>

text \<open>
  A memory of a buffer, mapped for reading. \<open>Shm_Memory\<close> is memory whose allocator is the
  element's own: the address and length of the mapped slice. Any other memory is its bytes. Mapping
  a buffer of several memories gives their bytes one after the other, in a copy.
\<close>

datatype gst_memory = Shm_Memory usize usize | Other_Memory "u8 list"

record gst_buffer =
  gb_memories :: "gst_memory list"
  gb_pts :: "u64 option"

definition memory_bytes :: "writer \<Rightarrow> gst_memory \<Rightarrow> u8 list" where
  "memory_bytes w m =
     (case m of Other_Memory bytes \<Rightarrow> bytes
      | Shm_Memory ptr len \<Rightarrow> read_bytes (unat (ptr - w_arena w)) (unat len) (arena w))"

text \<open>\<open>buffer.pts().map(|v| v.nseconds() as i64).unwrap_or(-1)\<close>\<close>

definition buffer_pts_ns :: "gst_buffer \<Rightarrow> i64" where
  "buffer_pts_ns b = (case gb_pts b of Some v \<Rightarrow> v | None \<Rightarrow> - 1)"

section \<open>The element's state\<close>

text \<open>
  The writer and the allocator of the state are \<open>Option\<close>s of shared objects: the two flags say
  whether they are \<open>Some\<close>, \<open>sk_writer\<close> is the object and \<open>sk_tracker\<close> the allocator's tracker,
  which upstream memories keep alive. \<open>sk_gc_thread\<close> is the handle of the collecting thread, with
  the value of the stop flag it watches; \<open>sk_gc_stop\<close> says whether the state still has that flag.
\<close>

record sink_state =
  sk_settings :: sink_settings
  sk_has_writer :: bool
  sk_writer :: writer
  sk_has_allocator :: bool
  sk_tracker :: alloc_tracker
  sk_align :: u64
  sk_unlocked :: bool
  sk_gc_stop :: bool
  sk_gc_thread :: "bool option"

text \<open>
  The allocator's \<open>alloc\<close>, called by upstream elements. \<open>None\<close> is the \<open>BoolError\<close>. The result is the
  slice that is wrapped into a memory, \<open>ShmWritableMemory\<close>: its address and length. Which allocator
  GStreamer records for the wrapping memory, and so which of the two kinds of memory \<open>render\<close> sees, is
  not for this code to say; what is stated of buffers distinguishes the two.
\<close>

definition allocator_alloc :: "usize \<Rightarrow> sink_state \<Rightarrow> sink_state \<times> (usize \<times> usize) option res" where
  "allocator_alloc sz st =
     (case alloc_lease_for_upstream sz (sk_align st) (sk_tracker st) (sk_writer st) of
        ((t, w), r) \<Rightarrow>
          (st\<lparr>sk_tracker := t, sk_writer := w\<rparr>,
           (case r of
              Ok (Some lease) \<Rightarrow> Ok (Some (ls_ptr lease, ucast (ls_len lease)))
            | Ok None \<Rightarrow> Ok None
            | Err e \<Rightarrow> Err e
            | Panic \<Rightarrow> Panic)))"

text \<open>Dropping such a memory (\<open>ShmWritableMemory::drop\<close>).\<close>

definition memory_drop :: "usize \<Rightarrow> sink_state \<Rightarrow> sink_state" where
  "memory_drop ptr st =
     (case release_unpublished ptr (sk_tracker st) (sk_writer st) of
        (t, w) \<Rightarrow> st\<lparr>sk_tracker := t, sk_writer := w\<rparr>)"

definition with_tracker :: "alloc_tracker \<Rightarrow> u64 \<Rightarrow> alloc_tracker \<times> u64" where
  "with_tracker t align = (t, max align 1)"

text \<open>The allocator goes to upstream with the allocation query.\<close>

definition propose_allocation :: "sink_state \<Rightarrow> bool" where
  "propose_allocation st = sk_has_allocator st"

section \<open>Starting and stopping\<close>

text \<open>\<open>start\<close> reports a failure of either call in a \<open>gst::ErrorMessage\<close> of its own kind.\<close>

datatype start_result = Started | Settings_Error shm_error | Open_Error shm_error | Start_Panic

text \<open>Joining the collecting thread returns unless the thread has not been told to stop.\<close>

definition gc_joins :: "sink_state \<Rightarrow> bool" where
  "gc_joins st \<longleftrightarrow> sk_gc_thread st \<noteq> Some False"

text \<open>
  \<open>backend_create\<close>: what \<open>create\<close> of each backend returns. \<open>None\<close>: \<open>start\<close> never returns.
\<close>

definition sink_start ::
    "target \<Rightarrow> (backend \<Rightarrow> string \<Rightarrow> usize \<Rightarrow> u32 \<Rightarrow> region res) \<Rightarrow> u32 \<Rightarrow> sink_state \<Rightarrow>
     (sink_state \<times> start_result) option" where
  "sink_start os backend_create process_id st =
     (let cfg = default_config
            \<lparr>cfg_total_size := sk_shm_size (sk_settings st),
             cfg_perms := sk_perms (sk_settings st),
             cfg_timeline_beacon_ms := sk_timeline_beacon_ms (sk_settings st)\<rparr>
      in case resolve_backend os (sk_shm_path (sk_settings st)) of
        Err e \<Rightarrow> Some (st, Settings_Error e)
      | Panic \<Rightarrow> Some (st, Start_Panic)
      | Ok selected \<Rightarrow>
          (case writer_create (backend_create (bs_backend selected)) process_id (bs_name selected) cfg of
             Err e \<Rightarrow> Some (st, Open_Error e)
           | Panic \<Rightarrow> Some (st, Start_Panic)
           | Ok writer \<Rightarrow>
               let (tracker, align) = with_tracker \<lparr>at_has_writer = True, at_pending = Map.empty\<rparr> 64;
                   st1 = st\<lparr>sk_has_writer := True, sk_writer := set_running writer,
                            sk_has_allocator := True, sk_tracker := tracker, sk_align := align,
                            sk_unlocked := False\<rparr>
               in if gc_joins st1
                  then Some (st1\<lparr>sk_gc_stop := True, sk_gc_thread := Some False\<rparr>, Started)
                  else None))"

definition sink_stop :: "sink_state \<Rightarrow> sink_state option" where
  "sink_stop st =
     (let st1 = (if sk_gc_stop st
                 then st\<lparr>sk_gc_stop := False, sk_gc_thread := map_option (\<lambda>_. True) (sk_gc_thread st)\<rparr>
                 else st)
      in if gc_joins st1
         then Some (st1\<lparr>sk_gc_thread := None,
                        sk_writer := (if sk_has_writer st1 then set_stopped (sk_writer st1) else sk_writer st1),
                        sk_has_allocator := False, sk_has_writer := False, sk_unlocked := False\<rparr>)
         else None)"

definition sink_unlock :: "sink_state \<Rightarrow> sink_state" where
  "sink_unlock st = st\<lparr>sk_unlocked := True\<rparr>"

definition sink_unlock_stop :: "sink_state \<Rightarrow> sink_state" where
  "sink_unlock_stop st = st\<lparr>sk_unlocked := False\<rparr>"

text \<open>One round of the collecting thread.\<close>

definition gc_collect :: "sink_state \<Rightarrow> sink_state" where
  "gc_collect st =
     (if sk_gc_thread st = Some False then st\<lparr>sk_writer := fst (drain_recycles (sk_writer st))\<rparr> else st)"

section \<open>Rendering a buffer\<close>

text \<open>\<open>buffer.map_readable()\<close>: the memory itself, or a copy when there are several.\<close>

definition map_readable :: "writer \<Rightarrow> gst_buffer \<Rightarrow> gst_memory" where
  "map_readable w b =
     (case gb_memories b of [m] \<Rightarrow> m | ms \<Rightarrow> Other_Memory (concat (map (memory_bytes w) ms)))"

text \<open>The fast path: the lease of a buffer that is one whole memory of our own allocator.\<close>

definition fast_lease :: "gst_buffer \<Rightarrow> gst_memory \<Rightarrow> sink_state \<Rightarrow> alloc_tracker \<times> lease option" where
  "fast_lease b mapped st =
     (if sk_has_allocator st \<and> length (gb_memories b) = 1 then
        (case mapped of
           Shm_Memory ptr len \<Rightarrow> mark_published ptr len (sk_tracker st)
         | Other_Memory bytes \<Rightarrow> (sk_tracker st, None))
      else (sk_tracker st, None))"

text \<open>
  One round of the loop of \<open>render\<close>. It holds the locks of the state and of the writer, so that
  while \<open>publish_lease\<close> polls only the consumer can act (\<open>env\<close>): \<open>None\<close> is a round still polling.
  Otherwise the round ends the call with a result, or (\<open>None\<close> inside) gives up the locks, sleeps
  and comes again.
\<close>

definition render_round ::
    "(writer \<Rightarrow> writer) list \<Rightarrow> u64 \<times> u64 \<Rightarrow> gst_buffer \<Rightarrow> gst_memory \<Rightarrow> sink_state \<Rightarrow>
     (sink_state \<times> unit flow option) option" where
  "render_round env clock b mapped st =
     (if sk_unlocked st then Some (st, Some (No_Flow Flushing))
      else if \<not> sk_has_writer st then Some (st, Some (No_Flow Flushing))
      else case fast_lease b mapped st of
        (t, Some lease) \<Rightarrow>
          (case publish_lease env clock lease (buffer_pts_ns b) (sk_writer st) of
             None \<Rightarrow> None
           | Some (w, r) \<Rightarrow>
               Some (st\<lparr>sk_tracker := t, sk_writer := w\<rparr>,
                     (case r of Ok _ \<Rightarrow> Some (Flow ()) | Err Exhausted \<Rightarrow> None
                      | Err _ \<Rightarrow> Some (No_Flow Flow_Error) | Panic \<Rightarrow> Some Flow_Panic)))
      | (t, None) \<Rightarrow>
          (case publish env clock (memory_bytes (sk_writer st) mapped) (buffer_pts_ns b) (sk_writer st) of
             None \<Rightarrow> None
           | Some (w, r) \<Rightarrow>
               Some (st\<lparr>sk_tracker := t, sk_writer := w\<rparr>,
                     (case r of Ok _ \<Rightarrow> Some (Flow ()) | Err Exhausted \<Rightarrow> None
                      | Err _ \<Rightarrow> Some (No_Flow Flow_Error) | Panic \<Rightarrow> Some Flow_Panic))))"

text \<open>
  The loop. For each round the environment says what the consumer does while the round polls and
  what anyone does to the element between the round and the next one.
\<close>

fun render_loop ::
    "((writer \<Rightarrow> writer) list \<times> (sink_state \<Rightarrow> sink_state)) list \<Rightarrow> u64 \<times> u64 \<Rightarrow> gst_buffer \<Rightarrow>
     gst_memory \<Rightarrow> sink_state \<Rightarrow> (sink_state \<times> unit flow) option" where
  "render_loop [] clock b mapped st = None"
| "render_loop ((inner, outer) # env) clock b mapped st =
     (case render_round inner clock b mapped st of
        None \<Rightarrow> None
      | Some (st1, Some r) \<Rightarrow> Some (st1, r)
      | Some (st1, None) \<Rightarrow> render_loop env clock b mapped (outer st1))"

definition render ::
    "((writer \<Rightarrow> writer) list \<times> (sink_state \<Rightarrow> sink_state)) list \<Rightarrow> u64 \<times> u64 \<Rightarrow> gst_buffer \<Rightarrow>
     sink_state \<Rightarrow> (sink_state \<times> unit flow) option" where
  "render env clock b st = render_loop env clock b (map_readable (sk_writer st) b) st"

section \<open>Properties of the settings\<close>

text \<open>The settings after a write, and what the element makes of a value it takes.\<close>

definition sink_set :: "target \<Rightarrow> string \<Rightarrow> gvalue \<Rightarrow> sink_settings \<Rightarrow> sink_settings" where
  "sink_set os name v s = (case sink_set_property os name v s of Ok s' \<Rightarrow> s' | _ \<Rightarrow> s)"

definition sink_takes :: "string \<Rightarrow> gvalue \<Rightarrow> bool" where
  "sink_takes name v \<longleftrightarrow>
     (name = ''shm-path'' \<and> get_string v \<noteq> None) \<or> (name = ''shm-size'' \<and> get_u64 v \<noteq> None) \<or>
     (name = ''perms'' \<and> get_u32 v \<noteq> None) \<or> (name = ''timeline-beacon-ms'' \<and> get_u32 v \<noteq> None)"

definition sink_corrected :: "target \<Rightarrow> string \<Rightarrow> gvalue \<Rightarrow> gvalue" where
  "sink_corrected os name v =
     (case v of
        V_String None \<Rightarrow> V_String (Some (SINK_DEFAULT_PATH os))
      | V_U32 n \<Rightarrow> V_U32 (if name = ''timeline-beacon-ms'' then max n 1 else n)
      | _ \<Rightarrow> v)"

interpretation sink_beacon: element_property
  "\<lambda>v. sink_set os ''timeline-beacon-ms'' (V_U32 v)" sk_timeline_beacon_ms "\<lambda>v. max v 1"
  by unfold_locales (simp_all add: sink_set_def sink_set_property_def)

interpretation sink_perms: element_property "\<lambda>v. sink_set os ''perms'' (V_U32 v)" sk_perms "\<lambda>v. v"
  by unfold_locales (simp_all add: sink_set_def sink_set_property_def)

interpretation sink_size: element_property "\<lambda>v. sink_set os ''shm-size'' (V_U64 v)" sk_shm_size "\<lambda>v. v"
  by unfold_locales (simp_all add: sink_set_def sink_set_property_def)

interpretation sink_path: element_property "\<lambda>v. sink_set os ''shm-path'' (V_String (Some v))" sk_shm_path "\<lambda>v. v"
  by unfold_locales (simp_all add: sink_set_def sink_set_property_def)

text \<open>
  The sink's properties. A value of the property's type is taken and read back, corrected: an
  unset path becomes the default path and a beacon period of zero becomes one. Every other property
  keeps its value, a value of another type changes nothing, and any other name panics. However
  often the beacon period is written, the last write decides.
\<close>

lemma sink_property_roundtrip:
  "(if name \<in> {''shm-path'', ''shm-size'', ''perms'', ''timeline-beacon-ms''} then
      \<exists>s'. sink_set_property os name v s = Ok s' \<and>
        sink_property name s' = (if sink_takes name v then Ok (sink_corrected os name v) else sink_property name s) \<and>
        (other = name \<or> sink_property other s' = sink_property other s)
    else sink_set_property os name v s = Panic \<and> sink_property name s = Panic) \<and>
   sink_property ''timeline-beacon-ms'' (fold (\<lambda>n. sink_set os ''timeline-beacon-ms'' (V_U32 n)) (ns @ [n]) s) =
     Ok (V_U32 (max n 1))"
proof -
  have last: "sk_timeline_beacon_ms (fold (\<lambda>n. sink_set os ''timeline-beacon-ms'' (V_U32 n)) (ns @ [n]) s) = max n 1"
    by (rule sink_beacon.last_write_wins)
  show ?thesis
    unfolding sink_property_def [of "''timeline-beacon-ms''"] last
    by (cases v) (auto simp: sink_set_property_def sink_property_def sink_takes_def sink_corrected_def
        split: option.splits)
qed

end
