(* ===== verification/Rendering.thy ===== *)
theory Rendering
  imports Sink
begin

text \<open>
  What \<open>render\<close> of the sink element does: the two ways a buffer takes into the region, waiting on a
  full ring, buffers that can never fit, and the life of a memory that upstream allocated.
\<close>

section \<open>The two paths\<close>

text \<open>An entry of the tracker as the lease it stands for, and its block.\<close>

definition tracked_lease :: "usize \<Rightarrow> pending_lease \<Rightarrow> lease" where
  "tracked_lease ptr p =
     \<lparr>ls_buffer_id = pl_buffer_id p, ls_offset = pl_offset p, ls_len = pl_len p, ls_ptr = ptr\<rparr>"

lemma tracked_lease_of [simp]:
  "tracked_lease (ls_ptr l) (pending_of l) = l" "pending_of (tracked_lease ptr p) = p"
  "ls_ptr (tracked_lease ptr p) = ptr" "ls_buffer_id (tracked_lease ptr p) = pl_buffer_id p"
  "ls_offset (tracked_lease ptr p) = pl_offset p" "ls_len (tracked_lease ptr p) = pl_len p"
  by (simp_all add: tracked_lease_def pending_of_def)

definition pending_block :: "pending_lease \<Rightarrow> buffer" where
  "pending_block p = (pl_buffer_id p, pl_offset p, pl_len p)"

text \<open>A tracked memory of its full length: the entry is live and lies at its address.\<close>

definition tracked :: "sink_state \<Rightarrow> usize \<Rightarrow> pending_lease \<Rightarrow> bool" where
  "tracked st ptr p \<longleftrightarrow> at_pending (sk_tracker st) ptr = Some p \<and>
     ptr = w_arena (sk_writer st) + pl_offset p \<and>
     leased (w_allocator (sk_writer st)) (pending_block p)"

definition accepting :: "sink_state \<Rightarrow> bool" where
  "accepting st \<longleftrightarrow> \<not> sk_unlocked st \<and> sk_has_writer st \<and> sk_has_allocator st \<and> writer_ok (sk_writer st)"

definition ring_room :: "writer \<Rightarrow> bool" where
  "ring_room w \<longleftrightarrow> length (ready_queue w) < unat (h_ready_capacity w) \<and> unat (h_ready_head w) + 1 < 2 ^ 64"

lemma mark_published_hit:
  "at_pending t ptr = Some p \<Longrightarrow>
   mark_published ptr (ucast (pl_len p)) t = (t\<lparr>at_pending := (at_pending t)(ptr := None)\<rparr>, Some (tracked_lease ptr p))"
  by (simp add: mark_published_def tracked_lease_def)

text \<open>A partial or unknown memory leaves the tracker as it was.\<close>

lemma fast_lease_tracked:
  assumes "accepting st" "at_pending (sk_tracker st) ptr = Some p" "length (gb_memories b) = 1"
  shows "fast_lease b (Shm_Memory ptr (ucast (pl_len p))) st =
    ((sk_tracker st)\<lparr>at_pending := (at_pending (sk_tracker st))(ptr := None)\<rparr>, Some (tracked_lease ptr p))"
  using assms by (simp add: fast_lease_def accepting_def mark_published_hit)

lemma render_round_fast:
  assumes acc: "accepting st" and tr: "tracked st ptr p" and room: "ring_room (sk_writer st)"
    and one: "length (gb_memories b) = 1"
  obtains w where
    "render_round env clock b (Shm_Memory ptr (ucast (pl_len p))) st =
       Some (st\<lparr>sk_tracker := (sk_tracker st)\<lparr>at_pending := (at_pending (sk_tracker st))(ptr := None)\<rparr>,
                sk_writer := w\<rparr>, Some (Flow ()))"
    "publish_lease_try clock (tracked_lease ptr p) (buffer_pts_ns b) (sk_writer st) = Some (w, Ok ())"
    "writer_ok w" "ready_queue w = ready_queue (sk_writer st) @ [(pl_buffer_id p, pl_offset p, pl_len p, buffer_pts_ns b)]"
    "rec_queue w = rec_queue (sk_writer st)" "w_allocator w = w_allocator (sk_writer st)"
    "arena w = arena (sk_writer st)" "w_arena w = w_arena (sk_writer st)"
    "h_ready_head w = h_ready_head (sk_writer st) + 1" "h_rec_head w = h_rec_head (sk_writer st)"
    "h_arena_size w = h_arena_size (sk_writer st)" "announces clock (buffer_pts_ns b) (sk_writer st) w"
proof -
  let ?w = "sk_writer st" and ?l = "tracked_lease ptr p"
  have ok: "writer_ok ?w" using acc by (simp add: accepting_def)
  have "publish_lease_try clock ?l (buffer_pts_ns b) ?w \<noteq> None"
    using ready_room_iff [OF writer_okD(1) [OF ok]] room by (simp add: publish_lease_try_None ring_room_def)
  then obtain w r where p: "publish_lease_try clock ?l (buffer_pts_ns b) ?w = Some (w, r)" by auto
  have lv: "live (w_allocator ?w) (ls_buffer_id ?l) = Some (ls_offset ?l, ucast (ls_len ?l))"
    using tr by (simp add: tracked_def leased_def pending_block_def)
  note s = publish_step [OF ok _ lv p]
  have wrap: "unat (h_ready_head ?w) + 1 < 2 ^ 64" using room by (simp add: ring_room_def)
  have pub: "publish_lease env clock ?l (buffer_pts_ns b) ?w = Some (w, Ok ())"
    unfolding publish_lease_def using poll_loop_now [where body = "publish_lease_try clock ?l (buffer_pts_ns b)", OF p] s(1) [OF wrap]
    by simp
  have pend: "at_pending (sk_tracker st) ptr = Some p" using tr unfolding tracked_def by blast
  have "render_round env clock b (Shm_Memory ptr (ucast (pl_len p))) st =
       Some (st\<lparr>sk_tracker := (sk_tracker st)\<lparr>at_pending := (at_pending (sk_tracker st))(ptr := None)\<rparr>,
                sk_writer := w\<rparr>, Some (Flow ()))"
    using acc by (simp add: render_round_def accepting_def fast_lease_tracked [OF acc pend one] pub)
  moreover have "announces clock (buffer_pts_ns b) ?w w"
    by (rule publish_try_announces [OF writer_okD(1) [OF ok] p]) (simp add: timeline_kept_def)
  ultimately show ?thesis
    by (intro that) (use s(2-) [OF wrap] s(1) [OF wrap] p in \<open>simp_all add: offered_frame_def\<close>)
qed

lemma render_round_copy:
  fixes bytes :: "u8 list"
  assumes acc: "accepting st" and room: "ring_room (sk_writer st)"
    and big: "length bytes < 2 ^ 32" "length bytes \<le> unat (h_arena_size (sk_writer st))"
    and ar: "roomy (h_arena_size (sk_writer st)) (max (w_allocator_align (sk_writer st)) 1)"
    and slow: "fast_lease b mapped st = (sk_tracker st, None)" and m: "memory_bytes (sk_writer st) mapped = bytes"
  obtains w i off k where
    "render_round env clock b mapped st = Some (st\<lparr>sk_writer := w\<rparr>, Some (Flow ()))" "writer_ok w"
    "ready_queue w = drop k (ready_queue (sk_writer st)) @ [(i, off, of_nat (length bytes), buffer_pts_ns b)]"
    "payload_bytes w (i, off, of_nat (length bytes)) = bytes" "announces clock (buffer_pts_ns b) (sk_writer st) w"
    "h_rec_head w = h_rec_head (sk_writer st) \<or> h_rec_head w = 0"
proof -
  let ?w = "sk_writer st" and ?sz = "of_nat (length bytes) :: u32"
  have u: "unat ?sz = length bytes" using big(1) by (simp add: unat_of_nat take_bit_nat_eq_self)
  have fits: "unat ?sz \<le> unat (h_arena_size ?w)" using big(2) by (simp add: u)
  have ok: "writer_ok ?w" using acc by (simp add: accepting_def)
  have r: "length (ready_queue ?w) < unat (h_ready_capacity ?w)" "unat (h_ready_head ?w) + 1 < 2 ^ 64"
    using room by (simp_all add: ring_room_def)
  obtain w and l :: lease and k where p: "publish env clock bytes (buffer_pts_ns b) ?w = Some (w, Ok (ls_buffer_id l))"
    "writer_ok w" "ready_queue w = drop k (ready_queue ?w) @ [(ls_buffer_id l, ls_offset l, ?sz, buffer_pts_ns b)]"
    "arena w = write_bytes (unat (ls_offset l)) bytes (arena ?w)" "announces clock (buffer_pts_ns b) ?w w"
    "same_limits ?w w"
    by (rule publish_ok [OF ok ar fits r, where env = env and clock = clock and pts = "buffer_pts_ns b"]) blast
  have "render_round env clock b mapped st = Some (st\<lparr>sk_writer := w\<rparr>, Some (Flow ()))"
    using acc by (simp add: render_round_def accepting_def slow m p(1))
  moreover have "payload_bytes w (ls_buffer_id l, ls_offset l, ?sz) = bytes"
    by (simp add: payload_bytes_def p(4) u)
  moreover have "h_rec_head w = h_rec_head ?w \<or> h_rec_head w = 0" using p(6) by (auto simp: same_limits_def)
  ultimately show ?thesis using that p(2,3,5) by blast
qed

lemma memory_bytes_tracked:
  assumes "tracked st ptr p"
  shows "memory_bytes (sk_writer st) (Shm_Memory ptr (ucast (pl_len p))) =
    payload_bytes (sk_writer st) (pending_block p)"
proof -
  have "ptr - w_arena (sk_writer st) = pl_offset p" using assms by (simp add: tracked_def)
  then show ?thesis by (simp add: memory_bytes_def payload_bytes_def pending_block_def)
qed

lemma render_first_round:
  "render_round inner clock b (map_readable (sk_writer st) b) st = Some (st', Some r) \<Longrightarrow>
   render ((inner, outer) # env) clock b st = Some (st', r)"
  by (simp add: render_def)

lemma map_readable_single [simp]:
  "map_readable w \<lparr>gb_memories = [m], gb_pts = pts\<rparr> = m"
  by (simp add: map_readable_def)

lemma buffer_pts_ns_same [simp]:
  "buffer_pts_ns \<lparr>gb_memories = ms, gb_pts = pts\<rparr> = (case pts of Some v \<Rightarrow> v | None \<Rightarrow> - 1)"
  by (simp add: buffer_pts_ns_def)

text \<open>
  C10: the fast path is equivalent to the copy path. A buffer whose only memory is a tracked block of
  the element's allocator and a buffer with the same bytes in other memory are both accepted in the
  first round, and each becomes the newest frame of the ready ring with the same length, the same
  time stamp and the same payload. The fast path is the cheaper one: it drops no queued frame,
  allocates nothing and writes no byte of the arena, and the tracker no longer holds the lease.
\<close>

theorem render_paths_agree:
  assumes "accepting st" and "tracked st ptr p" and "ring_room (sk_writer st)"
    and "roomy (h_arena_size (sk_writer st)) (max (w_allocator_align (sk_writer st)) 1)"
  defines "m \<equiv> Shm_Memory ptr (ucast (pl_len p))"
  defines "bytes \<equiv> memory_bytes (sk_writer st) m"
  shows "\<exists>st1 st2 f1 f2 k.
    render ((inner, outer) # env) clock \<lparr>gb_memories = [m], gb_pts = pts\<rparr> st = Some (st1, Flow ()) \<and>
    render ((inner, outer) # env) clock \<lparr>gb_memories = [Other_Memory bytes], gb_pts = pts\<rparr> st = Some (st2, Flow ()) \<and>
    ready_queue (sk_writer st1) = ready_queue (sk_writer st) @ [f1] \<and>
    ready_queue (sk_writer st2) = drop k (ready_queue (sk_writer st)) @ [f2] \<and>
    snd (snd f1) = snd (snd f2) \<and>
    payload_bytes (sk_writer st1) (frame_buffer f1) = bytes \<and>
    payload_bytes (sk_writer st2) (frame_buffer f2) = bytes \<and>
    arena (sk_writer st1) = arena (sk_writer st) \<and> w_allocator (sk_writer st1) = w_allocator (sk_writer st) \<and>
    at_pending (sk_tracker st1) ptr = None"
proof -
  let ?b1 = "\<lparr>gb_memories = [m], gb_pts = pts\<rparr>" and ?b2 = "\<lparr>gb_memories = [Other_Memory bytes], gb_pts = pts\<rparr>"
  have bytes: "bytes = payload_bytes (sk_writer st) (pending_block p)"
    unfolding bytes_def m_def by (rule memory_bytes_tracked [OF assms(2)])
  then have len: "length bytes = unat (pl_len p)" by (simp add: payload_bytes_def pending_block_def)
  have "alloc_wf (h_arena_size (sk_writer st)) (w_allocator (sk_writer st))"
    using assms(1) by (simp add: accepting_def writer_ok_def)
  moreover have "live (w_allocator (sk_writer st)) (pl_buffer_id p) = Some (pl_offset p, ucast (pl_len p))"
    using assms(2) by (simp add: tracked_def leased_def pending_block_def)
  ultimately have fits: "length bytes \<le> unat (h_arena_size (sk_writer st))"
    using alloc_wf_live_bounds by (fastforce simp: len in_bounds_def)
  have short: "length bytes < 2 ^ 32" using unat_u32_less [of "pl_len p"] by (simp add: len)
  have one: "length (gb_memories ?b1) = 1" by simp
  obtain w1 where r1: "render_round inner clock ?b1 (map_readable (sk_writer st) ?b1) st =
       Some (st\<lparr>sk_tracker := (sk_tracker st)\<lparr>at_pending := (at_pending (sk_tracker st))(ptr := None)\<rparr>,
                sk_writer := w1\<rparr>, Some (Flow ()))"
    and f1: "ready_queue w1 = ready_queue (sk_writer st) @ [(pl_buffer_id p, pl_offset p, pl_len p, buffer_pts_ns ?b1)]"
    and same: "w_allocator w1 = w_allocator (sk_writer st)" "arena w1 = arena (sk_writer st)"
    unfolding m_def map_readable_single
    by (rule render_round_fast [OF assms(1-3) one [unfolded m_def], where env = inner and clock = clock]) blast
  have slow: "fast_lease ?b2 (Other_Memory bytes) st = (sk_tracker st, None)" by (simp add: fast_lease_def)
  obtain w2 i off k where r2: "render_round inner clock ?b2 (map_readable (sk_writer st) ?b2) st =
       Some (st\<lparr>sk_writer := w2\<rparr>, Some (Flow ()))"
    and f2: "ready_queue w2 = drop k (ready_queue (sk_writer st)) @ [(i, off, of_nat (length bytes), buffer_pts_ns ?b2)]"
    and p2: "payload_bytes w2 (i, off, of_nat (length bytes)) = bytes"
    unfolding map_readable_single
    by (rule render_round_copy [OF assms(1,3) short fits assms(4) slow, where env = inner and clock = clock])
      (auto simp: memory_bytes_def)
  have "payload_bytes w1 (pl_buffer_id p, pl_offset p, pl_len p) = bytes"
    unfolding bytes by (simp add: payload_bytes_def pending_block_def same)
  moreover note render_first_round [OF r1, of outer env] render_first_round [OF r2, of outer env]
  ultimately show ?thesis
    using f1 f2 p2 same len
    by (intro exI [of _ k] exI conjI) (assumption | simp add: frame_buffer_def)+
qed

section \<open>A full ring\<close>

text \<open>What the consumer does while it takes no frame out of the ring.\<close>

definition idle_steps :: "(writer \<Rightarrow> writer) list \<Rightarrow> writer \<Rightarrow> bool" where
  "idle_steps env w \<longleftrightarrow> (\<forall>e\<in>set env. \<forall>v.
     ready_ok v \<and> ready_queue v = ready_queue w \<and> h_ready_capacity v = h_ready_capacity w \<longrightarrow>
     ready_ok (e v) \<and> ready_queue (e v) = ready_queue w \<and> h_ready_capacity (e v) = h_ready_capacity w)"

lemma publish_waits:
  assumes ok: "ready_ok w" and full: "length (ready_queue w) = unat (h_ready_capacity w)"
    and fits: "alloc (w_allocator w) (of_nat (length bytes)) (w_allocator_align w) \<noteq> None"
    and env: "idle_steps env w"
  shows "publish env clock bytes pts w = None"
proof -
  obtain a x where al: "alloc (w_allocator w) (of_nat (length bytes)) (w_allocator_align w) = Some (a, x)"
    using fits by auto
  let ?w = "copy_payload (lease_of w x) bytes (w\<lparr>w_allocator := a\<rparr>)"
  have same: "ready_ok ?w = ready_ok w \<and> ready_entries ?w = ready_entries w \<and> ready_queue ?w = ready_queue w"
    by (rule ready_ok_cong) (simp_all add: copy_payload_def)
  moreover have "h_ready_capacity ?w = h_ready_capacity w" by (simp add: copy_payload_def)
  ultimately have "publish_lease env clock (lease_of w x) pts ?w = None"
    using ok full env by (intro publish_lease_waits) (simp_all add: idle_steps_def)
  then show ?thesis by (simp add: publish_def alloc_lease_fits [OF al] alloc_result_def)
qed

text \<open>
  C27: while the ready ring is full, \<open>unlock\<close> cannot end \<open>render\<close>. The round polls inside
  \<open>publish_lease\<close> with the element's state locked, so as long as the consumer takes no frame out
  the call does not return, whatever is planned for the time after the round, \<open>unlock\<close> included.
  (The same \<open>unlock\<close> before the round makes \<open>render\<close> return Flushing at once.) This is so on the
  copy path, when the block fits, and on the fast path.
\<close>

theorem render_full_ring_ignores_unlock:
  assumes "accepting st" and "length (ready_queue (sk_writer st)) = unat (h_ready_capacity (sk_writer st))"
    and "idle_steps inner (sk_writer st)"
    and "alloc (w_allocator (sk_writer st)) (of_nat (length bytes)) (w_allocator_align (sk_writer st)) \<noteq> None"
    and "at_pending (sk_tracker st) ptr = Some p"
  shows "render ((inner, sink_unlock) # env) clock \<lparr>gb_memories = [Other_Memory bytes], gb_pts = pts\<rparr> st = None \<and>
    render ((inner, sink_unlock) # env) clock
      \<lparr>gb_memories = [Shm_Memory ptr (ucast (pl_len p))], gb_pts = pts\<rparr> st = None \<and>
    render ((inner, outer) # env) clock \<lparr>gb_memories = ms, gb_pts = pts\<rparr> (sink_unlock st) =
      Some (sink_unlock st, No_Flow Flushing)"
proof -
  have ok: "ready_ok (sk_writer st)" using assms(1) by (simp add: accepting_def writer_ok_def)
  note slow = publish_waits [OF ok assms(2,4,3)]
  have fast: "publish_lease inner clock l q (sk_writer st) = None" for l q
    by (rule publish_lease_waits [OF ok assms(2)]) (use assms(3) in \<open>simp add: idle_steps_def\<close>)
  let ?b = "\<lparr>gb_memories = [Other_Memory bytes], gb_pts = pts\<rparr>"
  let ?c = "\<lparr>gb_memories = [Shm_Memory ptr (ucast (pl_len p))], gb_pts = pts\<rparr>"
  have "render_round inner clock ?b (Other_Memory bytes) st = None"
    using assms(1) slow by (simp add: render_round_def accepting_def fast_lease_def memory_bytes_def)
  moreover have "render_round inner clock ?c (Shm_Memory ptr (ucast (pl_len p))) st = None"
    using assms(1) fast fast_lease_tracked [OF assms(1,5), of ?c] by (simp add: render_round_def accepting_def)
  moreover have "render_round inner clock b mapped (sink_unlock st) = Some (sink_unlock st, Some (No_Flow Flushing))"
    for b mapped by (simp add: render_round_def sink_unlock_def)
  ultimately show ?thesis by (simp add: render_def)
qed

section \<open>A buffer that can never fit\<close>

lemma render_round_too_big:
  fixes bytes :: "u8 list"
  assumes acc: "accepting st" and ar: "roomy (h_arena_size (sk_writer st)) (max (w_allocator_align (sk_writer st)) 1)"
    and big: "length bytes < 2 ^ 32" "unat (h_arena_size (sk_writer st)) < length bytes"
  obtains w where "render_round inner clock \<lparr>gb_memories = [Other_Memory bytes], gb_pts = pts\<rparr> (Other_Memory bytes) st =
      Some (st\<lparr>sk_writer := w\<rparr>, None)"
    "writer_ok w" "ready_queue w = []" "rec_queue w = []" "live (w_allocator w) = Map.empty"
    "h_arena_size w = h_arena_size (sk_writer st)" "w_allocator_align w = w_allocator_align (sk_writer st)"
    "h_timeline_gen w = h_timeline_gen (sk_writer st) + 1"
proof -
  let ?w = "sk_writer st" and ?sz = "of_nat (length bytes) :: u32" and ?al = "w_allocator_align (sk_writer st)"
  have u: "unat ?sz = length bytes" using big(1) by (simp add: unat_of_nat take_bit_nat_eq_self)
  then have sz: "unat (h_arena_size ?w) < unat ?sz" using big(2) by simp
  have ok: "writer_ok ?w" using acc by (simp add: accepting_def)
  obtain w r where r: "alloc_lease ?w ?sz ?al = (w, r)" by force
  note n = alloc_lease_no_room [OF ok alloc_lease_too_big [OF ok ar sz] r]
  have e: "r = Err Exhausted" "w_allocator w = new_allocator (h_arena_size ?w)"
    using n(13) sz by simp_all
  have align: "w_allocator_align w = ?al"
    using alloc_lease_align [of ?w ?sz ?al] by (simp add: r)
  have size: "h_arena_size w = h_arena_size ?w" using alloc_lease_arena_size [OF ok ar sz] by (simp add: r)
  have "render_round inner clock \<lparr>gb_memories = [Other_Memory bytes], gb_pts = pts\<rparr> (Other_Memory bytes) st =
      Some (st\<lparr>sk_writer := w\<rparr>, None)"
    using acc by (simp add: render_round_def accepting_def fast_lease_def memory_bytes_def publish_def r e(1))
  then show ?thesis by (rule that) (use n e align size in \<open>simp_all add: new_allocator_def\<close>)
qed

text \<open>
  C28: a buffer larger than the arena is retried for ever, at the consumer's expense. However many
  rounds pass, \<open>render\<close> neither returns nor reports an error; it ends only when \<open>unlock\<close> comes
  between two rounds. By then every queued frame and every returned buffer has been thrown away, no
  block is live any more, the blocks of frames in the consumer's hands included, and each
  round has begun a new timeline generation.
\<close>

theorem render_too_big_never_returns:
  fixes bytes :: "u8 list" and pts :: "u64 option"
  assumes "accepting st" and "roomy (h_arena_size (sk_writer st)) (max (w_allocator_align (sk_writer st)) 1)"
    and "length bytes < 2 ^ 32" and "unat (h_arena_size (sk_writer st)) < length bytes"
  defines "b \<equiv> \<lparr>gb_memories = [Other_Memory bytes], gb_pts = pts\<rparr>"
  shows "render (replicate n (inner, id)) clock b st = None \<and>
    (\<exists>st'. render (replicate n (inner, id) @ [(inner, sink_unlock), (inner, id)]) clock b st =
        Some (st', No_Flow Flushing) \<and>
      ready_queue (sk_writer st') = [] \<and> rec_queue (sk_writer st') = [] \<and>
      live (w_allocator (sk_writer st')) = Map.empty \<and>
      h_timeline_gen (sk_writer st') = h_timeline_gen (sk_writer st) + of_nat (Suc n))"
proof -
  have map: "map_readable w b = Other_Memory bytes" for w by (simp add: b_def)
  have "render_loop (replicate n (inner, id)) clock b (Other_Memory bytes) st = None \<and>
    (\<exists>st'. render_loop (replicate n (inner, id) @ [(inner, sink_unlock), (inner, id)]) clock b (Other_Memory bytes) st =
        Some (st', No_Flow Flushing) \<and>
      ready_queue (sk_writer st') = [] \<and> rec_queue (sk_writer st') = [] \<and>
      live (w_allocator (sk_writer st')) = Map.empty \<and>
      h_timeline_gen (sk_writer st') = h_timeline_gen (sk_writer st) + of_nat (Suc n))"
    using assms(1-4)
  proof (induction n arbitrary: st)
    case 0
    obtain w where w: "render_round inner clock b (Other_Memory bytes) st = Some (st\<lparr>sk_writer := w\<rparr>, None)"
      "ready_queue w = []" "rec_queue w = []" "live (w_allocator w) = Map.empty"
      "h_timeline_gen w = h_timeline_gen (sk_writer st) + 1"
      unfolding b_def by (rule render_round_too_big [OF 0, where inner = inner and clock = clock and pts = pts]) blast
    have "render_round inner clock b (Other_Memory bytes) (sink_unlock (st\<lparr>sk_writer := w\<rparr>)) =
        Some (sink_unlock (st\<lparr>sk_writer := w\<rparr>), Some (No_Flow Flushing))"
      by (simp add: render_round_def sink_unlock_def)
    then show ?case using w by (simp add: sink_unlock_def)
  next
    case (Suc n)
    obtain w where w: "render_round inner clock b (Other_Memory bytes) st = Some (st\<lparr>sk_writer := w\<rparr>, None)"
      "writer_ok w" "h_arena_size w = h_arena_size (sk_writer st)"
      "w_allocator_align w = w_allocator_align (sk_writer st)"
      "h_timeline_gen w = h_timeline_gen (sk_writer st) + 1"
      unfolding b_def by (rule render_round_too_big [OF Suc.prems, where inner = inner and clock = clock and pts = pts]) blast
    let ?st = "st\<lparr>sk_writer := w\<rparr>"
    have "accepting ?st" using Suc.prems(1) w(2) by (simp add: accepting_def)
    note ih = Suc.IH [OF this]
    show ?case using ih Suc.prems w by (simp add: add.assoc)
  qed
  then show ?thesis by (simp add: render_def map)
qed

section \<open>The life of an upstream memory\<close>

definition empty_arena :: "writer \<Rightarrow> bool" where
  "empty_arena w \<longleftrightarrow> writer_ok w \<and> fl_free (w_allocator w) = [(0, h_arena_size w)] \<and>
     fl_used (w_allocator w) = []"

text \<open>One block in use, at the start of the arena, and every other byte free.\<close>

definition sole_block :: "writer \<Rightarrow> pending_lease \<Rightarrow> bool" where
  "sole_block w p \<longleftrightarrow> writer_ok w \<and> alloc_complete (h_arena_size w) (w_allocator w) \<and> pl_offset p = 0 \<and>
     fl_used (w_allocator w) = [(pl_buffer_id p, (0, ucast (pl_len p)))]"

lemma free_sole_block:
  assumes s: "sole_block w p" and pos: "0 < unat (h_arena_size w)" and room: "roomy (h_arena_size w) 1"
  defines "a \<equiv> fst (free_by_id (w_allocator w) (pl_buffer_id p))"
  shows "fl_free a = [(0, h_arena_size w)]" and "fl_used a = []" and "alloc_wf (h_arena_size w) a"
proof -
  have wf: "alloc_wf (h_arena_size w) (w_allocator w)" using s by (simp add: sole_block_def writer_ok_def)
  have "0 < h_arena_size w" using pos by (simp add: word_less_nat_alt)
  from restores_arena [OF wf _ _ this, of "pl_buffer_id p" "(0, ucast (pl_len p))" 0 1] s room
  show "fl_free a = [(0, h_arena_size w)]" "fl_used a = []"
    by (simp_all add: sole_block_def a_def)
  show "alloc_wf (h_arena_size w) a" unfolding a_def by (rule alloc_wf_free [OF wf])
qed

lemma alloc_empty:
  assumes e: "empty_arena w" and room: "roomy (h_arena_size w) (max align 1)"
    and sz: "unat sz \<le> unat (h_arena_size w)"
  obtains a x where "alloc (w_allocator w) sz align = Some (a, x)" "al_offset x = 0" "al_len x = sz"
    "al_buffer_id x = fl_next_id (w_allocator w)" "fl_used a = [(al_buffer_id x, (0, ucast sz))]"
    "alloc_wf (h_arena_size w) a" "alloc_complete (h_arena_size w) a"
proof -
  let ?a = "w_allocator w"
  have wf: "alloc_wf (h_arena_size w) ?a" using e by (simp add: empty_arena_def writer_ok_def)
  have cand: "candidate ?a sz align 0" using e sz by (simp add: candidate_def empty_arena_def)
  obtain a x where al: "alloc ?a sz align = Some (a, x)"
    using alloc_None_candidate [OF wf room, of sz 0] cand by (cases "alloc ?a sz align") auto
  note s = alloc_Some [OF wf room al]
  have off: "al_offset x = 0" using alloc_lowest [OF wf room al cand] by (simp add: unat_eq_0)
  have "alloc_complete (h_arena_size w) ?a"
    using e by (auto simp: alloc_complete_def empty_arena_def range_bytes_def)
  moreover have "live ?a (fl_next_id ?a) = None" using e by (simp add: empty_arena_def)
  ultimately have cp: "alloc_complete (h_arena_size w) a" by (rule alloc_complete_alloc [OF wf room al])
  show ?thesis
    by (rule that [OF al off s(2,1) _ s(9) cp]) (use s(7) e off in \<open>simp add: s(1) empty_arena_def\<close>)
qed

lemma allocator_alloc_empty:
  fixes sz :: u32
  assumes e: "empty_arena (sk_writer st)" and t: "at_has_writer (sk_tracker st)"
    and room: "roomy (h_arena_size (sk_writer st)) (max (sk_align st) 1)"
    and sz: "unat sz \<le> unat (h_arena_size (sk_writer st))"
  defines "ptr \<equiv> w_arena (sk_writer st)"
  obtains a p where "allocator_alloc (ucast sz) st =
      (st\<lparr>sk_tracker := (sk_tracker st)\<lparr>at_pending := (at_pending (sk_tracker st))(ptr \<mapsto> p)\<rparr>,
          sk_writer := (sk_writer st)\<lparr>w_allocator := a\<rparr>\<rparr>, Ok (Some (ptr, ucast sz)))"
    "pl_len p = sz" "sole_block ((sk_writer st)\<lparr>w_allocator := a\<rparr>) p"
    "ready_queue ((sk_writer st)\<lparr>w_allocator := a\<rparr>) = ready_queue (sk_writer st)"
    "rec_queue ((sk_writer st)\<lparr>w_allocator := a\<rparr>) = rec_queue (sk_writer st)"
proof -
  let ?w = "sk_writer st"
  obtain a x where al: "alloc (w_allocator ?w) sz (sk_align st) = Some (a, x)" and x: "al_offset x = 0" "al_len x = sz"
    and a: "fl_used a = [(al_buffer_id x, (0, ucast sz))]" "alloc_wf (h_arena_size ?w) a" "alloc_complete (h_arena_size ?w) a"
    by (rule alloc_empty [OF e room sz]) blast
  let ?p = "pending_of (lease_of ?w x)"
  have fields: "ls_ptr (lease_of ?w x) = ptr" "ls_len (lease_of ?w x) = sz"
    by (simp_all add: lease_of_def x ptr_def)
  have "allocator_alloc (ucast sz) st =
      (st\<lparr>sk_tracker := (sk_tracker st)\<lparr>at_pending := (at_pending (sk_tracker st))(ptr \<mapsto> ?p)\<rparr>,
          sk_writer := ?w\<lparr>w_allocator := a\<rparr>\<rparr>, Ok (Some (ptr, ucast sz)))"
    using t by (simp add: allocator_alloc_def alloc_lease_for_upstream_def alloc_lease_fits [OF al] alloc_result_def fields)
  moreover have "writer_ok ?w" using e by (simp add: empty_arena_def)
  then have "writer_ok (?w\<lparr>w_allocator := a\<rparr>) \<and> ready_queue (?w\<lparr>w_allocator := a\<rparr>) = ready_queue ?w \<and>
      rec_queue (?w\<lparr>w_allocator := a\<rparr>) = rec_queue ?w"
    by (intro writer_ok_with_allocator writer_okD a(2))
  moreover from this have "sole_block (?w\<lparr>w_allocator := a\<rparr>) ?p"
    using a(1,3) by (simp add: sole_block_def pending_of_def lease_of_def x)
  moreover have "pl_len ?p = sz" by (simp add: pending_of_def fields)
  ultimately show ?thesis using that by blast
qed

text \<open>Freeing the only block leaves the arena empty again.\<close>

lemma empty_after_free:
  assumes s: "sole_block w p" and pos: "0 < unat (h_arena_size w)" and room: "roomy (h_arena_size w) 1"
  shows "empty_arena (fst (free_lease w (pl_buffer_id p)))"
proof -
  let ?a = "fst (free_by_id (w_allocator w) (pl_buffer_id p))"
  note f = free_sole_block [OF s pos room]
  have ok: "writer_ok w" using s by (simp add: sole_block_def)
  have "fst (free_lease w (pl_buffer_id p)) = w\<lparr>w_allocator := ?a\<rparr>\<lparr>h_arena_used_bytes := used_bytes ?a\<rparr>"
    by (simp add: free_lease_def Let_def case_prod_beta)
  moreover have "writer_ok (w\<lparr>w_allocator := ?a\<rparr>)"
    using writer_ok_with_allocator [OF writer_okD(1) [OF ok] writer_okD(2) [OF ok] f(3)] by simp
  moreover have "writer_ok (v\<lparr>h_arena_used_bytes := n\<rparr>) = writer_ok v" for v n
    by (simp add: writer_ok_def ready_ok_def rec_ok_def ready_entries_def desc_in_arena_def)
  ultimately show ?thesis by (simp add: empty_arena_def f)
qed

lemma sole_block_leased: "sole_block w p \<Longrightarrow> leased (w_allocator w) (pending_block p)"
  by (simp add: sole_block_def leased_def pending_block_def)

definition upstream_ready :: "sink_state \<Rightarrow> u32 \<Rightarrow> bool" where
  "upstream_ready st sz \<longleftrightarrow> at_has_writer (sk_tracker st) \<and>
     roomy (h_arena_size (sk_writer st)) (max (sk_align st) 1) \<and>
     0 < unat sz \<and> unat sz \<le> unat (h_arena_size (sk_writer st))"

lemma upstream_ready_room:
  assumes "upstream_ready st sz"
  shows "roomy (h_arena_size (sk_writer st)) 1" and "0 < unat (h_arena_size (sk_writer st))"
proof -
  show "roomy (h_arena_size (sk_writer st)) 1"
  proof -
    have "0 < unat (max (sk_align st) 1)" by (rule iffD2 [OF unat_gt_0 max_1_neq_0])
    moreover have "roomy (h_arena_size (sk_writer st)) (max (sk_align st) 1)"
      using assms by (simp add: upstream_ready_def)
    ultimately show ?thesis unfolding roomy_def by (simp only: unat_1)
  qed
  show "0 < unat (h_arena_size (sk_writer st))" using assms unfolding upstream_ready_def by linarith
qed

text \<open>
  A publication that has to reset: no block is left even without the queued frames. The new frame is
  the only one, and its block, with the first id, the only one in use.
\<close>

lemma publish_after_reset:
  fixes bytes :: "u8 list"
  defines "sz \<equiv> (of_nat (length bytes) :: u32)"
  assumes ok: "writer_ok w" and room: "roomy (h_arena_size w) (max (w_allocator_align w) 1)"
    and len: "length bytes < 2 ^ 32" "length bytes \<le> unat (h_arena_size w)"
    and full: "drops_needed w sz (w_allocator_align w) = None"
  obtains w' where "publish env clock bytes pts w = Some (w', Ok 1)"
    "sole_block w' \<lparr>pl_buffer_id = 1, pl_offset = 0, pl_len = sz\<rparr>" "ready_queue w' = [(1, 0, sz, pts)]" "rec_queue w' = []"
    "payload_bytes w' (1, 0, sz) = bytes" "h_timeline_gen w' = h_timeline_gen w + 1"
    "w_arena w' = w_arena w" "h_arena_size w' = h_arena_size w"
proof -
  let ?tot = "h_arena_size w" and ?al = "w_allocator_align w"
  have u: "unat sz = length bytes" using len(1) by (simp add: sz_def unat_of_nat take_bit_nat_eq_self)
  have sz: "unat sz \<le> unat ?tot" using len(2) by (simp add: u)
  obtain w1 r where r: "alloc_lease w sz ?al = (w1, r)" by force
  note n = alloc_lease_no_room [OF ok full r]
  let ?a = "fst (take_block (new_allocator ?tot) (ucast sz) 0 (if unat sz < unat ?tot then [(ucast sz, ?tot - ucast sz)] else []))"
  from n(14) [OF sz] obtain l where l: "r = Ok l" "ls_buffer_id l = 1" "ls_offset l = 0" "ls_len l = sz" "ls_ptr l = w_arena w"
    and a: "w_allocator w1 = ?a" by blast
  have used: "fl_used ?a = [(1, (0, ucast sz))]" by (simp add: take_block_def)
  have al0: "alloc (new_allocator ?tot) sz ?al = Some (?a, snd (take_block (new_allocator ?tot) (ucast sz) 0
      (if unat sz < unat ?tot then [(ucast sz, ?tot - ucast sz)] else [])))"
    by (simp add: alloc_new_allocator sz)
  have cp: "alloc_complete ?tot ?a"
    by (rule alloc_complete_alloc [OF alloc_wf_new room al0 alloc_complete_new]) simp
  let ?w2 = "copy_payload l bytes w1"
  have ok2: "writer_ok ?w2" using n(1) by (simp add: copy_payload_frame)
  have "h_ready_capacity ?w2 \<noteq> 0" using writer_okD(1) [OF ok2] by (simp add: ready_ok_def ring_ok_def)
  then have "length (ready_queue ?w2) < unat (h_ready_capacity ?w2)"
    by (simp add: copy_payload_frame n(2) unat_gt_0)
  then have "publish_lease_try clock l pts ?w2 \<noteq> None"
    using ready_room_iff [OF writer_okD(1) [OF ok2]] publish_lease_try_None [of clock l pts ?w2] by simp
  then obtain w' q where p: "publish_lease_try clock l pts ?w2 = Some (w', q)" by auto
  have "live ?a 1 = Some (0, ucast sz)" by (simp only: used) simp
  then have live: "live (w_allocator ?w2) (ls_buffer_id l) = Some (ls_offset l, ucast (ls_len l))"
    by (simp only: copy_payload_frame a l)
  have wrap: "unat (h_ready_head ?w2) + 1 < 2 ^ 64" by (simp add: copy_payload_frame n(9))
  note s = publish_step [OF ok2 wrap live p]
  have pub: "publish env clock bytes pts w = Some (w', Ok 1)"
    using poll_loop_now [where body = "publish_lease_try clock l pts", OF p] s(1)
    by (simp add: publish_def sz_def [symmetric] r l publish_lease_def)
  have mem: "arena w' = write_bytes 0 bytes (arena w1)"
    using s(7) by (simp add: copy_payload_def l n(12))
  have size: "h_arena_size w' = ?tot" using s(10) n(8) by (simp add: copy_payload_def)
  have "ts_generation (timeline_snapshot w') = h_timeline_gen ?w2"
    using publish_snapshot_when_due [OF writer_okD(1) [OF ok2] p] by (auto simp: timeline_snapshot_def split: if_splits)
  then have gen: "h_timeline_gen w' = h_timeline_gen w + 1" by (simp add: timeline_snapshot_def copy_payload_def n(4))
  have al': "w_allocator w' = ?a" using s(5) by (simp add: copy_payload_frame a)
  show ?thesis
  proof (rule that [OF pub])
    show "sole_block w' \<lparr>pl_buffer_id = 1, pl_offset = 0, pl_len = sz\<rparr>"
      unfolding sole_block_def al' size pending_lease.simps using s(2) cp used by blast
    show "payload_bytes w' (1, 0, sz) = bytes" by (simp add: payload_bytes_def mem u)
  qed (use s n gen size l in \<open>simp_all add: copy_payload_frame offered_frame_def\<close>)
qed

text \<open>
  C29: after a reset, a memory dropped late frees a frame that is not its own. Upstream holds a memory
  that has not been published, with the first buffer id. A buffer from elsewhere is rendered that
  does not fit even without the queued frames, so the region is reset: a new generation begins and
  ids start at 1 again, but the tracker keeps the entry of the old memory. The buffer is queued as
  the only frame, with id 1. When upstream drops its memory now, the frame's block is freed while the
  frame is still queued, and the next allocation is handed the bytes the consumer is going to read.
\<close>

theorem late_drop_frees_new_lease:
  fixes bytes :: "u8 list"
  defines "sz \<equiv> (of_nat (length bytes) :: u32)"
  assumes "accepting st" and "upstream_ready st sz"
    and "roomy (h_arena_size (sk_writer st)) (max (w_allocator_align (sk_writer st)) 1)" and "length bytes < 2 ^ 32"
    and "at_pending (sk_tracker st) ptr = Some p" and "pl_buffer_id p = 1"
    and "\<forall>k\<le>length (ready_queue (sk_writer st)).
      alloc (free_all (take k (map fst (ready_queue (sk_writer st)))) (w_allocator (sk_writer st)))
        sz (w_allocator_align (sk_writer st)) = None"
  shows "\<exists>st1 st2 st3 frame.
    render ((inner, outer) # env) clock \<lparr>gb_memories = [Other_Memory bytes], gb_pts = pts\<rparr> st = Some (st1, Flow ()) \<and>
    h_timeline_gen (sk_writer st1) = h_timeline_gen (sk_writer st) + 1 \<and>
    ready_queue (sk_writer st1) = [frame] \<and> frame_buffer frame = (1, 0, sz) \<and>
    payload_bytes (sk_writer st1) (frame_buffer frame) = bytes \<and> leased (w_allocator (sk_writer st1)) (frame_buffer frame) \<and>
    at_pending (sk_tracker st1) ptr = Some p \<and>
    st2 = memory_drop ptr st1 \<and> ready_queue (sk_writer st2) = [frame] \<and> live (w_allocator (sk_writer st2)) 1 = None \<and>
    allocator_alloc (ucast sz) st2 = (st3, Ok (Some (w_arena (sk_writer st), ucast sz))) \<and>
    ready_queue (sk_writer st3) = [frame]"
proof -
  let ?w = "sk_writer st" and ?b = "\<lparr>gb_memories = [Other_Memory bytes], gb_pts = pts\<rparr>"
  let ?p = "\<lparr>pl_buffer_id = 1, pl_offset = 0, pl_len = sz\<rparr>"
  have ok: "writer_ok ?w" using assms(2) by (simp add: accepting_def)
  have u: "unat sz = length bytes" using assms(5) by (simp add: sz_def unat_of_nat take_bit_nat_eq_self)
  have fits: "length bytes \<le> unat (h_arena_size ?w)" using assms(3) by (simp add: upstream_ready_def u)
  have "drops_needed ?w sz (w_allocator_align ?w) = None" using assms(8) by (simp only: drops_needed_None)
  from publish_after_reset [OF ok assms(4,5) fits this [unfolded sz_def], folded sz_def] obtain w1 where
    w1: "publish inner clock bytes (buffer_pts_ns ?b) ?w = Some (w1, Ok 1)" "sole_block w1 ?p"
      "ready_queue w1 = [(1, 0, sz, buffer_pts_ns ?b)]" "rec_queue w1 = []" "payload_bytes w1 (1, 0, sz) = bytes"
      "h_timeline_gen w1 = h_timeline_gen ?w + 1" "w_arena w1 = w_arena ?w" "h_arena_size w1 = h_arena_size ?w"
    by blast
  let ?st1 = "st\<lparr>sk_writer := w1\<rparr>" and ?frame = "(1, 0, sz, buffer_pts_ns ?b)"
  have "render_round inner clock ?b (map_readable ?w ?b) st = Some (?st1, Some (Flow ()))"
    using assms(2) w1(1) by (simp add: render_round_def accepting_def fast_lease_def memory_bytes_def)
  then have render: "render ((inner, outer) # env) clock ?b st = Some (?st1, Flow ())" by (rule render_first_round)
  have l1: "leased (w_allocator w1) (1, 0, sz)" using sole_block_leased [OF w1(2)] by (simp add: pending_block_def)
  have up1: "upstream_ready ?st1 sz" using assms(3) w1(8) by (simp add: upstream_ready_def)
  note pos = upstream_ready_room [OF up1]
  let ?w2 = "fst (free_lease w1 1)"
  have e2: "empty_arena ?w2" using empty_after_free [OF w1(2)] pos by simp
  have same: "w_arena ?w2 = w_arena ?w" "ready_queue ?w2 = ready_queue w1" "h_arena_size ?w2 = h_arena_size ?w"
    using w1(7,8) by (simp_all add: free_lease_def Let_def case_prod_beta w_arena_def ready_queue_def ready_entries_def)
  let ?st2 = "?st1\<lparr>sk_tracker := (sk_tracker st)\<lparr>at_pending := (at_pending (sk_tracker st))(ptr := None)\<rparr>, sk_writer := ?w2\<rparr>"
  have st2: "memory_drop ptr ?st1 = ?st2"
    using assms(6,7) up1 by (simp add: memory_drop_def release_unpublished_def upstream_ready_def)
  have "empty_arena (sk_writer ?st2)" "at_has_writer (sk_tracker ?st2)"
    "roomy (h_arena_size (sk_writer ?st2)) (max (sk_align ?st2) 1)" "unat sz \<le> unat (h_arena_size (sk_writer ?st2))"
    using e2 assms(3) same(3) by (simp_all add: upstream_ready_def)
  then obtain st3 where st3: "allocator_alloc (ucast sz) ?st2 = (st3, Ok (Some (w_arena (sk_writer ?st2), ucast sz)))"
    "ready_queue (sk_writer st3) = ready_queue (sk_writer ?st2)"
    by (rule allocator_alloc_empty) fastforce
  have "live (w_allocator ?w2) 1 = None" using e2 by (simp add: empty_arena_def)
  then show ?thesis
    using render w1(3,5,6) l1 assms(6) st2 st3 same
    by (intro exI [of _ ?st1] exI [of _ ?st2] exI [of _ st3] exI [of _ ?frame]) (simp add: frame_buffer_def)
qed

section \<open>Concrete instances\<close>

text \<open>A running element on a given writer, with nothing handed out.\<close>

definition demo_sink :: "writer \<Rightarrow> sink_state" where
  "demo_sink w =
     \<lparr>sk_settings = default_sink_settings Unix, sk_has_writer = True, sk_writer = w, sk_has_allocator = True,
      sk_tracker = \<lparr>at_has_writer = True, at_pending = Map.empty\<rparr>, sk_align = 64, sk_unlocked = False,
      sk_gc_stop = True, sk_gc_thread = Some False\<rparr>"

lemma demo_sink_ready:
  "accepting (demo_sink (small_writer 2))" "empty_arena (small_writer 2)"
  "upstream_ready (demo_sink (small_writer 2)) 100"
  using small_ok(3,4) [of 2]
  by (simp_all add: demo_sink_def accepting_def empty_arena_def upstream_ready_def small_facts roomy_def unat_max)

theorem render_paths_agree_witness:
  "\<exists>st ptr len m st1 st2 f1 f2. allocator_alloc 100 (demo_sink (small_writer 2)) = (st, Ok (Some (ptr, len))) \<and>
    m = Shm_Memory ptr len \<and> render [([], id)] (0, 0) \<lparr>gb_memories = [m], gb_pts = Some 7\<rparr> st = Some (st1, Flow ()) \<and>
    render [([], id)] (0, 0) \<lparr>gb_memories = [Other_Memory (memory_bytes (sk_writer st) m)], gb_pts = Some 7\<rparr> st =
      Some (st2, Flow ()) \<and>
    ready_queue (sk_writer st1) = [f1] \<and> ready_queue (sk_writer st2) = [f2] \<and>
    payload_bytes (sk_writer st1) (frame_buffer f1) = payload_bytes (sk_writer st2) (frame_buffer f2)"
proof -
  let ?start = "demo_sink (small_writer 2)"
  have pre: "empty_arena (sk_writer ?start)" "at_has_writer (sk_tracker ?start)"
    "roomy (h_arena_size (sk_writer ?start)) (max (sk_align ?start) 1)" "unat (100 :: u32) \<le> unat (h_arena_size (sk_writer ?start))"
    using demo_sink_ready(2,3) by (simp_all add: demo_sink_def upstream_ready_def)
  obtain st p where st: "allocator_alloc 100 ?start = (st, Ok (Some (w_arena (small_writer 2), ucast (pl_len p))))"
    and f: "accepting st" "tracked st (w_arena (small_writer 2)) p" "ring_room (sk_writer st)"
      "roomy (h_arena_size (sk_writer st)) (max (w_allocator_align (sk_writer st)) 1)" "ready_queue (sk_writer st) = []"
  proof (rule allocator_alloc_empty [OF pre])
    fix a p
    let ?w = "(sk_writer ?start)\<lparr>w_allocator := a\<rparr>"
    let ?st = "?start\<lparr>sk_tracker := (sk_tracker ?start)\<lparr>at_pending := (at_pending (sk_tracker ?start))
        (w_arena (sk_writer ?start) \<mapsto> p)\<rparr>, sk_writer := ?w\<rparr>"
    assume a: "allocator_alloc (ucast (100 :: u32)) ?start = (?st, Ok (Some (w_arena (sk_writer ?start), ucast (100 :: u32))))"
      "pl_len p = 100" "sole_block ?w p" "ready_queue ?w = ready_queue (sk_writer ?start)"
    have wa: "w_arena ?w = w_arena (small_writer 2)" by (simp add: demo_sink_def w_arena_def)
    have "writer_ok ?w" "pl_offset p = 0" using a(3) by (simp_all add: sole_block_def)
    show thesis
    proof (rule that)
      show "allocator_alloc 100 ?start = (?st, Ok (Some (w_arena (small_writer 2), ucast (pl_len p))))"
        using a(1,2) by (simp add: demo_sink_def)
      show "accepting ?st" using \<open>writer_ok ?w\<close> by (simp add: accepting_def demo_sink_def)
      show "tracked ?st (w_arena (small_writer 2)) p"
        using sole_block_leased [OF a(3)] wa \<open>pl_offset p = 0\<close> by (simp add: tracked_def demo_sink_def)
      show "ring_room (sk_writer ?st)" "ready_queue (sk_writer ?st) = []"
        using a(4) by (simp_all add: ring_room_def demo_sink_def small_facts)
    qed (simp_all add: demo_sink_def small_facts roomy_def unat_max)
  qed
  note w = render_paths_agree [OF f(1-4), of "[]" id "[]" "(0, 0)" "Some 7"]
  show ?thesis using w st f(5) by force
qed

text \<open>A ring of one entry, occupied, and most of the arena free.\<close>

definition busy_writer :: writer where
  "busy_writer = (small_writer 2)
     \<lparr>h_ready_capacity := 1,
      ready := [ready_entry 0 \<lparr>ls_buffer_id = 1, ls_offset = 0, ls_len = 64, ls_ptr = 0\<rparr> 5],
      h_ready_head := 1,
      w_allocator := \<lparr>fl_free = [(128, 3968)], fl_used = [(1, (0, 64)), (2, (64, 64))], fl_next_id = 3\<rparr>\<rparr>"

definition busy_sink :: sink_state where
  "busy_sink = (demo_sink busy_writer)
     \<lparr>sk_tracker := \<lparr>at_has_writer = True, at_pending = [77 \<mapsto> \<lparr>pl_buffer_id = 2, pl_offset = 64, pl_len = 64\<rparr>]\<rparr>\<rparr>"

theorem render_full_ring_ignores_unlock_witness:
  "render ((replicate 100 id, sink_unlock) # replicate 100 ([], sink_unlock)) (0, 0)
     \<lparr>gb_memories = [Other_Memory [1, 2, 3]], gb_pts = None\<rparr> busy_sink = None \<and>
   render [([], id)] (0, 0) \<lparr>gb_memories = [Other_Memory [1, 2, 3]], gb_pts = None\<rparr> (sink_unlock busy_sink) =
     Some (sink_unlock busy_sink, No_Flow Flushing)"
proof -
  have "writer_ok busy_writer"
    by (simp add: busy_writer_def small_facts writer_ok_def ready_ok_def rec_ok_def ring_ok_def
        ready_entries_def ring_list_def desc_in_arena_def ready_entry_def alloc_wf_def in_bounds_def
        used_disjoint_def disjoint_ranges_def ends_before_def rec_entries_def)
  moreover have "ready_queue busy_writer = [(1, 0, 64, 5)]" "h_ready_capacity busy_writer = 1"
    "w_allocator_align busy_writer = 64"
    by (simp_all add: busy_writer_def small_facts ready_queue_def ready_entries_def ring_list_def ready_entry_def
        frame_of_def)
  moreover have "alloc (w_allocator busy_writer) 3 64 \<noteq> None"
    by (simp add: busy_writer_def alloc_carve fits_def align_up_def Let_def word_le_nat_alt unat_max max_def)
  moreover have "idle_steps (replicate 100 id) busy_writer" "idle_steps [] busy_writer"
    by (simp_all add: idle_steps_def)
  ultimately show ?thesis
    using render_full_ring_ignores_unlock [of busy_sink "replicate 100 id" "[1, 2, 3]" 77
        "\<lparr>pl_buffer_id = 2, pl_offset = 64, pl_len = 64\<rparr>" "replicate 100 ([], sink_unlock)" "(0, 0)" None]
      render_full_ring_ignores_unlock [of busy_sink "[]" "[1, 2, 3]" 77
        "\<lparr>pl_buffer_id = 2, pl_offset = 64, pl_len = 64\<rparr>" "[]" "(0, 0)" None]
    by (simp add: busy_sink_def demo_sink_def accepting_def)
qed

theorem render_too_big_never_returns_witness:
  "render (replicate 1000 ([], id)) (0, 0) \<lparr>gb_memories = [Other_Memory (replicate 5000 0)], gb_pts = None\<rparr>
     (demo_sink full_writer) = None"
proof -
  have "w_allocator_align full_writer = 64" by (simp add: full_writer_def small_facts)
  then show ?thesis
    by (intro render_too_big_never_returns [THEN conjunct1])
      (simp_all add: demo_sink_def accepting_def full_writer_ok roomy_def unat_max)
qed

text \<open>An upstream memory of the whole arena.\<close>

definition lent_sink :: sink_state where
  "lent_sink = (demo_sink held_writer)
     \<lparr>sk_tracker := \<lparr>at_has_writer = True, at_pending = [4096 \<mapsto> \<lparr>pl_buffer_id = 1, pl_offset = 0, pl_len = 4096\<rparr>]\<rparr>\<rparr>"

theorem late_drop_frees_new_lease_witness:
  "\<exists>st1 frame. render [([], id)] (0, 0) \<lparr>gb_memories = [Other_Memory [1, 2, 3]], gb_pts = None\<rparr> lent_sink = Some (st1, Flow ()) \<and>
     ready_queue (sk_writer (memory_drop 4096 st1)) = [frame] \<and> frame_buffer frame = (1, 0, 3) \<and>
     live (w_allocator (sk_writer (memory_drop 4096 st1))) 1 = None"
proof -
  have "w_allocator_align held_writer = 64" by (simp add: held_writer_def full_writer_def small_facts)
  moreover have "alloc (w_allocator held_writer) 3 64 = None" by (simp add: alloc_carve held_writer_def full_writer_def)
  ultimately show ?thesis
    using late_drop_frees_new_lease [of lent_sink "[1, 2, 3]" 4096 "\<lparr>pl_buffer_id = 1, pl_offset = 0, pl_len = 4096\<rparr>" "[]" id "[]" "(0, 0)" None]
    by (auto simp: lent_sink_def demo_sink_def accepting_def upstream_ready_def full_writer_ok roomy_def unat_max)
qed

end
