(* ===== verification/Upstream.thy ===== *)
theory Upstream
  imports Rendering
begin

text \<open>
  The sink element as a producer of the transport. Upstream elements allocate, write and drop
  memories; the element renders buffers; the collecting thread drains; the consumer does what it
  does. Each of these is a sequence of the steps of theory \<open>Ownership\<close>, with the tracker as the list
  of leases not yet published, so what holds of every calm run there holds of the element.
\<close>

section \<open>Runs of the transport\<close>

primrec calm_run :: "sys \<Rightarrow> sys_op list \<Rightarrow> sys \<Rightarrow> bool" where
  "calm_run s [] s' \<longleftrightarrow> s' = s"
| "calm_run s (x # xs) s' \<longleftrightarrow> calm x s \<and> (case sys_exec x s of None \<Rightarrow> False | Some s1 \<Rightarrow> calm_run s1 xs s')"

lemma calm_run_owned: "owned s \<Longrightarrow> calm_run s xs s' \<Longrightarrow> owned s'"
  by (induction xs arbitrary: s) (auto intro: owned_step split: option.splits)

lemma calm_run_single: "calm x s \<Longrightarrow> sys_exec x s = Some s' \<Longrightarrow> calm_run s [x] s'"
  by simp

section \<open>The element's steps\<close>

datatype sink_op =
    Up_Alloc usize
  | Up_Fill usize "u8 list"
  | Up_Drop usize
  | Render gst_buffer "u64 \<times> u64"
  | Collect
  | Consumer sys_op

type_synonym sink_sys = "sink_state \<times> received_desc list"

primrec consumer_op :: "sys_op \<Rightarrow> bool" where
  "consumer_op (Lease sz align) = False"
| "consumer_op (Fill k bytes) = False"
| "consumer_op (Publish k pts clock) = False"
| "consumer_op (Cancel k) = False"
| "consumer_op Drain = False"
| "consumer_op Receive = True"
| "consumer_op Receive_Latest = True"
| "consumer_op (Give_Back k status) = True"
| "consumer_op Attach = True"

text \<open>
  \<open>None\<close>: the step waits, fails with a panic, or does not apply. Upstream writes only into memory
  whose lease it holds, and into all of it.
\<close>

fun sink_exec :: "sink_op \<Rightarrow> sink_sys \<Rightarrow> sink_sys option" where
  "sink_exec (Up_Alloc sz) (st, held) =
     (case allocator_alloc sz st of (st', Ok _) \<Rightarrow> Some (st', held) | _ \<Rightarrow> None)"
| "sink_exec (Up_Fill ptr bytes) (st, held) =
     (case at_pending (sk_tracker st) ptr of
        None \<Rightarrow> None
      | Some p \<Rightarrow>
          if length bytes = unat (pl_len p)
          then Some (st\<lparr>sk_writer := copy_payload (tracked_lease ptr p) bytes (sk_writer st)\<rparr>, held) else None)"
| "sink_exec (Up_Drop ptr) (st, held) = Some (memory_drop ptr st, held)"
| "sink_exec (Render b clock) (st, held) =
     (case render_round [] clock b (map_readable (sk_writer st) b) st of
        Some (st', Some (Flow _)) \<Rightarrow> Some (st', held) | _ \<Rightarrow> None)"
| "sink_exec Collect (st, held) = Some (gc_collect st, held)"
| "sink_exec (Consumer x) (st, held) =
     (if consumer_op x then
        (case sys_exec x \<lparr>sy_writer = sk_writer st, sy_pending = [], sy_held = held\<rparr> of
           None \<Rightarrow> None | Some s \<Rightarrow> Some (st\<lparr>sk_writer := sy_writer s\<rparr>, sy_held s))
      else None)"

text \<open>
  A calm step of the element: its allocations are calm, an upstream allocation is not empty, and a
  copied payload is shorter than 4 GiB.
\<close>

definition calm_lease :: "writer \<Rightarrow> u32 \<Rightarrow> u64 \<Rightarrow> bool" where
  "calm_lease w sz align \<longleftrightarrow> calm (Lease sz align) \<lparr>sy_writer = w, sy_pending = [], sy_held = []\<rparr>"

definition sink_calm :: "sink_op \<Rightarrow> sink_state \<Rightarrow> bool" where
  "sink_calm x st \<longleftrightarrow> counters_low (sk_writer st) \<and>
     (case x of
        Up_Alloc sz \<Rightarrow> (ucast sz :: u32) \<noteq> 0 \<and> calm_lease (sk_writer st) (ucast sz) (sk_align st)
      | Render b clock \<Rightarrow>
          (case fast_lease b (map_readable (sk_writer st) b) st of
             (t, Some lease) \<Rightarrow> True
           | (t, None) \<Rightarrow>
               (let bytes = memory_bytes (sk_writer st) (map_readable (sk_writer st) b)
                in length bytes < 2 ^ 32 \<and>
                   calm_lease (sk_writer st) (of_nat (length bytes)) (w_allocator_align (sk_writer st))))
      | _ \<Rightarrow> True)"

section \<open>The simulation\<close>

definition lease_entry :: "lease \<Rightarrow> usize \<times> pending_lease" where
  "lease_entry l = (ls_ptr l, pending_of l)"

definition sink_sim :: "sink_sys \<Rightarrow> sys \<Rightarrow> bool" where
  "sink_sim c s \<longleftrightarrow> sy_writer s = sk_writer (fst c) \<and> sy_held s = snd c \<and>
     at_has_writer (sk_tracker (fst c)) \<and> distinct (map ls_ptr (sy_pending s)) \<and>
     (\<forall>l\<in>set (sy_pending s). ls_len l \<noteq> 0) \<and>
     at_pending (sk_tracker (fst c)) = map_of (map lease_entry (sy_pending s))"

lemma calm_lease_iff: "calm_lease (sy_writer s) sz align = calm (Lease sz align) s"
  by (simp add: calm_lease_def calm_def split: res.split prod.split)

lemma calm_other:
  assumes "counters_low (sy_writer s)"
  shows "calm (Fill k bytes) s" "calm (Publish k pts clock) s" "calm (Cancel k) s" "calm Drain s"
    "consumer_op x \<Longrightarrow> calm x s"
  using assms by (simp_all add: calm_def counters_low_def) (cases x; simp)

lemma sim_lookup:
  assumes "sink_sim (st, held) s" "at_pending (sk_tracker st) ptr = Some p"
  obtains k where "k < length (sy_pending s)" "sy_pending s ! k = tracked_lease ptr p"
proof -
  have "(ptr, p) \<in> set (map lease_entry (sy_pending s))" using assms by (auto simp: sink_sim_def dest: map_of_SomeD)
  then obtain l where l: "l \<in> set (sy_pending s)" "ptr = ls_ptr l" "p = pending_of l" by (auto simp: lease_entry_def)
  then show ?thesis using that by (auto simp: in_set_conv_nth)
qed

lemma map_of_vec_remove:
  assumes "k < length ls" "distinct (map ls_ptr ls)"
  shows "map_of (map lease_entry (vec_remove k ls)) = (map_of (map lease_entry ls))(ls_ptr (ls ! k) := None)"
proof -
  have split: "ls = take k ls @ ls ! k # drop (Suc k) ls" using assms(1) by (simp add: id_take_nth_drop)
  let ?a = "take k ls" and ?b = "drop (Suc k) ls"
  have d: "ls_ptr (ls ! k) \<notin> ls_ptr ` set ?a" "ls_ptr (ls ! k) \<notin> ls_ptr ` set ?b"
    using assms(2) by (subst (asm) split, simp)+
  have keys: "fst ` set (map lease_entry xs) = ls_ptr ` set xs" for xs
    by (auto simp: lease_entry_def image_image)
  have "map_of (map lease_entry ?a) (ls_ptr (ls ! k)) = None" "map_of (map lease_entry ?b) (ls_ptr (ls ! k)) = None"
    using d by (simp_all only: map_of_eq_None_iff keys not_False_eq_True)
  moreover have "map_of (map lease_entry ls) =
      map_of (map lease_entry (?a @ ls ! k # ?b))" using split by (rule arg_cong)
  ultimately show ?thesis
    by (auto simp: vec_remove_def map_add_def fun_eq_iff lease_entry_def split: option.split)
qed

lemma vec_remove_map: "map f (vec_remove k xs) = vec_remove k (map f xs)"
  by (simp add: vec_remove_def take_map drop_map)

lemma distinct_vec_remove: "distinct xs \<Longrightarrow> distinct (vec_remove k xs)"
  by (auto simp: vec_remove_def distinct_take distinct_drop dest: set_take_disj_set_drop_if_distinct [of xs k "Suc k"])

text \<open>Removing one lease from both sides.\<close>

lemma sim_remove:
  assumes sim: "sink_sim (st, held) s" and k: "k < length (sy_pending s)"
    and new: "at_pending t = (at_pending (sk_tracker st))(ls_ptr (sy_pending s ! k) := None)" "at_has_writer t"
  shows "sink_sim (st\<lparr>sk_tracker := t, sk_writer := w\<rparr>, held)
    (s\<lparr>sy_writer := w, sy_pending := vec_remove k (sy_pending s)\<rparr>)"
proof -
  have "distinct (map ls_ptr (vec_remove k (sy_pending s)))"
    using sim by (simp add: sink_sim_def vec_remove_map distinct_vec_remove)
  moreover have "map_of (map lease_entry (vec_remove k (sy_pending s))) = at_pending t"
    using sim map_of_vec_remove [OF k] by (simp add: sink_sim_def new)
  ultimately show ?thesis
    using sim new set_vec_remove [of k "sy_pending s"] by (auto simp: sink_sim_def)
qed

text \<open>A calm allocation succeeds and leaves the counters and the rest of the region alone.\<close>

lemma calm_lease_result:
  assumes o: "owned s" and c: "calm (Lease sz align) s"
  obtains w l where "alloc_lease (sy_writer s) sz align = (w, Ok l)" "ls_len l = sz"
    "counters_low (sy_writer s) \<Longrightarrow> counters_low w"
proof -
  let ?w = "sy_writer s"
  have ok: "writer_ok ?w" using o by (simp add: owned_def)
  have room: "roomy (h_arena_size ?w) (max align 1)" using c by (simp add: calm_def)
  obtain w r where r: "alloc_lease ?w sz align = (w, r)" by force
  have gen: "h_timeline_gen w = h_timeline_gen ?w" using c by (simp add: calm_def r)
  obtain k where k: "drops_needed ?w sz align = Some k"
  proof (cases "drops_needed ?w sz align")
    case None
    from alloc_lease_no_room(4) [OF ok None r] gen show ?thesis by simp
  qed (rule that)
  show ?thesis
  proof (rule alloc_lease_room [OF ok room k r])
    fix l
    assume l: "r = Ok l" "ls_len l = sz" "ready_queue w = drop k (ready_queue ?w)" "same_region ?w w"
    show ?thesis
      by (rule that [of w l]) (use r l in \<open>auto simp: counters_low_def same_region_def\<close>)
  qed
qed

section \<open>Each step is simulated\<close>

definition simulated :: "sys \<Rightarrow> sink_sys \<Rightarrow> bool" where
  "simulated s c \<longleftrightarrow> (\<exists>xs s'. calm_run s xs s' \<and> sink_sim c s')"

lemma simulatedI: "calm_run s xs s' \<Longrightarrow> sink_sim c s' \<Longrightarrow> simulated s c"
  by (auto simp: simulated_def)

lemma simulated_refl: "sink_sim c s \<Longrightarrow> simulated s c"
  by (rule simulatedI [of s "[]"]) simp_all

text \<open>A new lease has an address of its own.\<close>

lemma fresh_address:
  assumes o: "owned s'" and p: "sy_pending s' = ls @ [l]" and pos: "\<forall>l'\<in>set (ls @ [l]). ls_len l' \<noteq> 0"
  shows "ls_ptr l \<notin> ls_ptr ` set ls"
proof
  assume "ls_ptr l \<in> ls_ptr ` set ls"
  then obtain l' where l': "l' \<in> set ls" "ls_ptr l' = ls_ptr l" by force
  have ptr: "ls_ptr m = w_arena (sy_writer s') + ls_offset m" if "m \<in> set (ls @ [l])" for m
    using o that by (auto simp: owned_def p)
  then have off: "ls_offset l' = ls_offset l" using l' by (metis UnI1 add_left_cancel in_set_conv_decomp set_append)
  have c: "lease_buffer l' \<in> set (circulating s')" "lease_buffer l \<in> set (circulating s')"
    using l'(1) by (auto simp: circulating_def p)
  have "distinct (map fst (map lease_buffer (ls @ [l])))" using o by (simp add: owned_def circulating_def p)
  then have "fst (lease_buffer l') \<noteq> fst (lease_buffer l)" using l'(1) by (auto simp: image_iff)
  moreover have "alloc_wf (h_arena_size (sy_writer s')) (w_allocator (sy_writer s'))"
    using o by (simp add: owned_def writer_ok_def)
  ultimately have "disjoint_ranges (buffer_range (lease_buffer l')) (buffer_range (lease_buffer l))"
    using leased_disjoint [of _ _ "lease_buffer l'" "lease_buffer l"] o c by (auto simp: owned_def)
  moreover have "ls_len l' \<noteq> 0" "ls_len l \<noteq> 0" using pos l'(1) by auto
  ultimately show False by (simp add: disjoint_ranges_def buffer_range_def lease_buffer_def off unat_eq_0)
qed

lemma simulate_alloc:
  assumes sim: "sink_sim (st, held) s" and o: "owned s" and calm: "sink_calm (Up_Alloc sz) st"
    and x: "sink_exec (Up_Alloc sz) (st, held) = Some c"
  shows "simulated s c"
proof -
  have w: "sk_writer st = sy_writer s" using sim by (simp add: sink_sim_def)
  have cl: "calm (Lease (ucast sz) (sk_align st)) s" and nz: "(ucast sz :: u32) \<noteq> 0"
    using calm by (simp_all add: sink_calm_def w calm_lease_iff)
  obtain w1 l where r: "alloc_lease (sy_writer s) (ucast sz) (sk_align st) = (w1, Ok l)" and len: "ls_len l = ucast sz"
    by (rule calm_lease_result [OF o cl]) blast
  let ?s = "s\<lparr>sy_writer := w1, sy_pending := sy_pending s @ [l]\<rparr>"
  let ?t = "(sk_tracker st)\<lparr>at_pending := (at_pending (sk_tracker st))(ls_ptr l \<mapsto> pending_of l)\<rparr>"
  have e: "sys_exec (Lease (ucast sz) (sk_align st)) s = Some ?s" by (simp add: r)
  have c: "c = (st\<lparr>sk_tracker := ?t, sk_writer := w1\<rparr>, held)"
    using x sim by (simp add: sink_sim_def allocator_alloc_def alloc_lease_for_upstream_def w r)
  have pos: "\<forall>l'\<in>set (sy_pending s @ [l]). ls_len l' \<noteq> 0" using sim nz by (auto simp: sink_sim_def len)
  have "owned ?s" by (rule owned_step [OF o cl e])
  then have fresh: "ls_ptr l \<notin> ls_ptr ` set (sy_pending s)" by (rule fresh_address) (use pos in simp_all)
  have "map_of (map lease_entry (sy_pending s)) (ls_ptr l) = None"
    using fresh by (simp add: map_of_eq_None_iff lease_entry_def image_image)
  then have "map_of (map lease_entry (sy_pending s @ [l])) = (map_of (map lease_entry (sy_pending s)))(ls_ptr l \<mapsto> pending_of l)"
    by (auto simp: map_add_def lease_entry_def fun_eq_iff split: option.split)
  then have "sink_sim c ?s" using sim fresh pos by (auto simp: c sink_sim_def)
  with calm_run_single [OF cl e] show ?thesis by (rule simulatedI)
qed

lemma simulate_fill:
  assumes sim: "sink_sim (st, held) s" and calm: "sink_calm (Up_Fill ptr bytes) st"
    and x: "sink_exec (Up_Fill ptr bytes) (st, held) = Some c"
  shows "simulated s c"
proof -
  from x obtain p where p: "at_pending (sk_tracker st) ptr = Some p" "length bytes = unat (pl_len p)"
    and c: "c = (st\<lparr>sk_writer := copy_payload (tracked_lease ptr p) bytes (sk_writer st)\<rparr>, held)"
    by (auto split: option.splits if_splits)
  obtain k where k: "k < length (sy_pending s)" "sy_pending s ! k = tracked_lease ptr p" by (rule sim_lookup [OF sim p(1)])
  have "calm (Fill k bytes) s" using calm_other(1) calm sim by (simp add: sink_calm_def sink_sim_def)
  moreover have "sys_exec (Fill k bytes) s = Some (s\<lparr>sy_writer := copy_payload (tracked_lease ptr p) bytes (sy_writer s)\<rparr>)"
    using k p(2) by simp
  ultimately show ?thesis
    by (rule simulatedI [OF calm_run_single]) (use sim in \<open>simp add: c sink_sim_def\<close>)
qed

lemma simulate_drop:
  assumes sim: "sink_sim (st, held) s" and calm: "sink_calm (Up_Drop ptr) st"
    and x: "sink_exec (Up_Drop ptr) (st, held) = Some c"
  shows "simulated s c"
proof (cases "at_pending (sk_tracker st) ptr")
  case None
  then have "c = (st\<lparr>sk_tracker := sk_tracker st, sk_writer := sk_writer st\<rparr>, held)"
    using x by (auto simp: memory_drop_def release_unpublished_def)
  then show ?thesis using sim by (intro simulated_refl) (simp add: sink_sim_def)
next
  case (Some p)
  obtain k where k: "k < length (sy_pending s)" "sy_pending s ! k = tracked_lease ptr p" by (rule sim_lookup [OF sim Some])
  let ?t = "(sk_tracker st)\<lparr>at_pending := (at_pending (sk_tracker st))(ptr := None)\<rparr>"
  let ?w = "fst (free_lease (sy_writer s) (pl_buffer_id p))"
  have c: "c = (st\<lparr>sk_tracker := ?t, sk_writer := ?w\<rparr>, held)"
    using x sim by (auto simp: memory_drop_def release_unpublished_def Some sink_sim_def)
  have e: "sys_exec (Cancel k) s = Some (s\<lparr>sy_writer := ?w, sy_pending := vec_remove k (sy_pending s)\<rparr>)"
    using k by simp
  have "calm (Cancel k) s" using calm_other(3) calm sim by (simp add: sink_calm_def sink_sim_def)
  from calm_run_single [OF this e] show ?thesis unfolding c
    by (rule simulatedI) (rule sim_remove [OF sim k(1)], use sim k(2) in \<open>simp_all add: sink_sim_def\<close>)
qed

lemma simulate_collect:
  assumes sim: "sink_sim (st, held) s" and o: "owned s" and calm: "sink_calm Collect st"
    and x: "sink_exec Collect (st, held) = Some c"
  shows "simulated s c"
proof (cases "sk_gc_thread st = Some False")
  case True
  have "rec_ok (sy_writer s)" using o by (simp add: owned_def writer_ok_def)
  from drain_loop_all [OF this] obtain w where d: "drain_recycles (sy_writer s) = (w, Ok ())"
    by (simp add: drain_recycles_def)
  have "sys_exec Drain s = Some (s\<lparr>sy_writer := w\<rparr>)" by (simp add: d)
  moreover have "calm Drain s" using calm_other(4) calm sim by (simp add: sink_calm_def sink_sim_def)
  moreover have "sink_sim c (s\<lparr>sy_writer := w\<rparr>)" using x sim True d by (auto simp: gc_collect_def sink_sim_def)
  ultimately show ?thesis by (metis simulatedI calm_run_single)
next
  case False
  then show ?thesis using x sim by (intro simulated_refl) (auto simp: gc_collect_def)
qed

lemma consumer_frame:
  "consumer_op x \<Longrightarrow> sys_exec x s =
     map_option (\<lambda>s'. s'\<lparr>sy_pending := sy_pending s\<rparr>)
       (sys_exec x \<lparr>sy_writer = sy_writer s, sy_pending = [], sy_held = sy_held s\<rparr>)"
  by (cases x) (auto simp: Let_def split: prod.split res.split option.split)

lemma simulate_consumer:
  assumes sim: "sink_sim (st, held) s" and calm: "sink_calm (Consumer y) st"
    and x: "sink_exec (Consumer y) (st, held) = Some c"
  shows "simulated s c"
proof -
  have same: "sk_writer st = sy_writer s" "held = sy_held s" using sim by (simp_all add: sink_sim_def)
  have y: "consumer_op y" using x by (simp split: if_splits)
  obtain s1 where e: "sys_exec y \<lparr>sy_writer = sy_writer s, sy_pending = [], sy_held = sy_held s\<rparr> = Some s1"
    and c: "c = (st\<lparr>sk_writer := sy_writer s1\<rparr>, sy_held s1)"
    using x y by (cases "sys_exec y \<lparr>sy_writer = sy_writer s, sy_pending = [], sy_held = sy_held s\<rparr>") (simp_all add: same)
  have "sys_exec y s = Some (s1\<lparr>sy_pending := sy_pending s\<rparr>)" by (subst consumer_frame [OF y]) (simp add: e)
  moreover have "calm y s" using calm_other(5) [OF _ y] calm by (simp add: sink_calm_def same)
  moreover have "sink_sim c (s1\<lparr>sy_pending := sy_pending s\<rparr>)" using sim by (simp add: c sink_sim_def)
  ultimately show ?thesis by (metis simulatedI calm_run_single)
qed

lemma mark_published_Some:
  assumes "mark_published ptr len t = (t', Some l)"
  shows "\<exists>p. at_pending t ptr = Some p \<and> l = tracked_lease ptr p \<and>
    t' = t\<lparr>at_pending := (at_pending t)(ptr := None)\<rparr>"
proof (cases "at_pending t ptr")
  case None
  then show ?thesis using assms by (simp add: mark_published_def)
next
  case (Some p)
  then show ?thesis using assms
    by (cases "ucast (pl_len p) = len") (simp_all add: mark_published_def Let_def tracked_lease_def)
qed

lemma fast_lease_Some:
  assumes "fast_lease b m st = (t, Some l)"
  obtains p where "at_pending (sk_tracker st) (ls_ptr l) = Some p" "l = tracked_lease (ls_ptr l) p"
    "t = (sk_tracker st)\<lparr>at_pending := (at_pending (sk_tracker st))(ls_ptr l := None)\<rparr>"
proof -
  from assms obtain ptr len where "mark_published ptr len (sk_tracker st) = (t, Some l)"
    by (auto simp: fast_lease_def split: if_splits gst_memory.splits)
  from mark_published_Some [OF this] obtain p where p: "at_pending (sk_tracker st) ptr = Some p" "l = tracked_lease ptr p"
    "t = (sk_tracker st)\<lparr>at_pending := (at_pending (sk_tracker st))(ptr := None)\<rparr>" by blast
  then have "ls_ptr l = ptr" by simp
  with p show ?thesis by (intro that) simp_all
qed

lemma fast_lease_None:
  assumes "fast_lease b m st = (t, None)"
  shows "t = sk_tracker st"
  using assms
  by (auto simp: fast_lease_def mark_published_def Let_def fun_upd_idem
      split: if_splits gst_memory.splits option.splits)

lemma simulate_render_fast:
  assumes sim: "sink_sim (st, held) s" and low: "counters_low (sk_writer st)"
    and fast: "fast_lease b m st = (t, Some l)"
    and p: "publish_lease_try clock l pts (sk_writer st) = Some (w, Ok ())"
  shows "simulated s (st\<lparr>sk_tracker := t, sk_writer := w\<rparr>, held)"
proof -
  obtain p where p': "at_pending (sk_tracker st) (ls_ptr l) = Some p" "l = tracked_lease (ls_ptr l) p"
    "t = (sk_tracker st)\<lparr>at_pending := (at_pending (sk_tracker st))(ls_ptr l := None)\<rparr>"
    by (rule fast_lease_Some [OF fast])
  obtain k where k: "k < length (sy_pending s)" "sy_pending s ! k = l"
    using sim_lookup [OF sim p'(1)] p'(2) by metis
  have w: "sk_writer st = sy_writer s" using sim by (simp add: sink_sim_def)
  have e: "sys_exec (Publish k pts clock) s = Some (s\<lparr>sy_writer := w, sy_pending := vec_remove k (sy_pending s)\<rparr>)"
    using k p by (simp add: w)
  have "calm (Publish k pts clock) s" using calm_other(2) low by (simp add: w)
  from calm_run_single [OF this e] show ?thesis
    by (rule simulatedI) (rule sim_remove [OF sim k(1)], use sim in \<open>simp_all add: sink_sim_def k(2) p'(3)\<close>)
qed

lemma simulate_render_copy:
  assumes sim: "sink_sim (st, held) s" and o: "owned s" and low: "counters_low (sk_writer st)"
    and len: "length bytes < 2 ^ 32"
    and cl: "calm_lease (sk_writer st) (of_nat (length bytes)) (w_allocator_align (sk_writer st))"
    and p: "publish [] clock bytes pts (sk_writer st) = Some (w, Ok i)"
  shows "simulated s (st\<lparr>sk_tracker := sk_tracker st, sk_writer := w\<rparr>, held)"
proof -
  let ?sz = "of_nat (length bytes) :: u32" and ?al = "w_allocator_align (sk_writer st)" and ?n = "length (sy_pending s)"
  have wr: "sk_writer st = sy_writer s" using sim by (simp add: sink_sim_def)
  have cl': "calm (Lease ?sz ?al) s" using cl unfolding wr calm_lease_iff .
  obtain w1 l where r: "alloc_lease (sy_writer s) ?sz ?al = (w1, Ok l)" and l: "ls_len l = ?sz" and c1: "counters_low w1"
    by (rule calm_lease_result [OF o cl']) (use low in \<open>simp add: wr\<close>)
  let ?w2 = "copy_payload l bytes w1"
  have pub: "publish_lease_try clock l pts ?w2 = Some (w, Ok ())"
    using p r by (auto simp: publish_def publish_lease_def wr split: option.splits prod.splits res.splits)
  have u: "length bytes = unat (ls_len l)" using len by (simp add: l unat_of_nat take_bit_nat_eq_self)
  let ?s1 = "s\<lparr>sy_writer := w1, sy_pending := sy_pending s @ [l]\<rparr>" and ?s2 = "s\<lparr>sy_writer := ?w2, sy_pending := sy_pending s @ [l]\<rparr>"
  have run: "sys_exec (Lease ?sz ?al) s = Some ?s1" "sys_exec (Fill ?n bytes) ?s1 = Some ?s2"
    "sys_exec (Publish ?n pts clock) ?s2 = Some (s\<lparr>sy_writer := w\<rparr>)"
    using r u pub by (simp_all add: vec_remove_def)
  have "counters_low ?w2" using c1 by (simp add: counters_low_def copy_payload_frame) (simp add: copy_payload_def)
  then have "calm (Fill ?n bytes) ?s1" "calm (Publish ?n pts clock) ?s2"
    using calm_other c1 by simp_all
  with cl' run have "calm_run s [Lease ?sz ?al, Fill ?n bytes, Publish ?n pts clock] (s\<lparr>sy_writer := w\<rparr>)"
    by (simp only: calm_run.simps option.case simp_thms)
  then show ?thesis by (rule simulatedI) (use sim in \<open>simp add: sink_sim_def\<close>)
qed

lemma simulate_render:
  assumes sim: "sink_sim (st, held) s" and o: "owned s" and calm: "sink_calm (Render b clock) st"
    and x: "sink_exec (Render b clock) (st, held) = Some c"
  shows "simulated s c"
proof -
  let ?m = "map_readable (sk_writer st) b"
  have low: "counters_low (sk_writer st)" using calm by (simp add: sink_calm_def)
  obtain t r where f: "fast_lease b ?m st = (t, r)" by force
  show ?thesis
  proof (cases r)
    case (Some l)
    with x f obtain w where "publish_lease_try clock l (buffer_pts_ns b) (sk_writer st) = Some (w, Ok ())"
      and c: "c = (st\<lparr>sk_tracker := t, sk_writer := w\<rparr>, held)"
      by (auto simp: render_round_def publish_lease_def split: if_splits option.splits prod.splits res.splits
          flow.splits shm_error.splits)
    with simulate_render_fast [OF sim low f [unfolded Some]] show ?thesis by simp
  next
    case None
    have t: "t = sk_tracker st" using fast_lease_None f None by blast
    from x f None obtain w i where p: "publish [] clock (memory_bytes (sk_writer st) ?m) (buffer_pts_ns b) (sk_writer st) = Some (w, Ok i)"
      and c: "c = (st\<lparr>sk_tracker := t, sk_writer := w\<rparr>, held)"
      by (auto simp: render_round_def split: if_splits option.splits prod.splits res.splits flow.splits shm_error.splits)
    show ?thesis unfolding c t
      by (rule simulate_render_copy [OF sim o low _ _ p]) (use calm f None in \<open>simp_all add: sink_calm_def Let_def\<close>)
  qed
qed

lemma sink_step_simulated:
  assumes "sink_sim (st, held) s" "owned s" "sink_calm x st" "sink_exec x (st, held) = Some c"
  shows "simulated s c"
  using assms
  by (cases x) (blast intro: simulate_alloc simulate_fill simulate_drop simulate_render simulate_collect
      simulate_consumer)+

text \<open>
  C7: the element refines the transport. Every calm step of the element (an upstream allocation,
  write or drop, a rendered buffer on either path, a round of the collecting thread, or an action of
  the consumer) is a calm run of the transport's steps from any related state to a related state, in
  which every buffer still has one owner. A buffer on the copy path is a lease, a fill and a
  publication; on the fast path it is a publication only; a drop of a tracked memory cancels its
  lease, and a drop of any other memory does nothing.
\<close>

theorem sink_refines_transport:
  assumes "sink_sim (st, held) s" and "owned s" and "sink_calm x st" and "sink_exec x (st, held) = Some c"
  shows "\<exists>xs s'. calm_run s xs s' \<and> sink_sim c s' \<and> owned s'"
  using sink_step_simulated [OF assms] calm_run_owned [OF assms(2)] unfolding simulated_def by blast

section \<open>Starting and stopping\<close>

lemma set_running_frame:
  "writer_ok (set_running w) = writer_ok w" "ready_queue (set_running w) = ready_queue w"
  "rec_queue (set_running w) = rec_queue w" "w_allocator (set_running w) = w_allocator w"
  "h_arena_size (set_running w) = h_arena_size w" "w_arena (set_running w) = w_arena w"
  "h_ready_head (set_running w) = h_ready_head w" "h_rec_head (set_running w) = h_rec_head w"
  "h_ready_capacity (set_running w) = h_ready_capacity w" "h_state (set_running w) = STATE_RUNNING"
  by (simp_all add: set_running_def writer_ok_def ready_ok_def rec_ok_def ready_queue_def rec_queue_def
      ready_entries_def rec_entries_def desc_in_arena_def w_arena_def)

lemma sink_start_StartedE:
  assumes "sink_start os bc pid st = Some (st', Started)"
  obtains sel w cfg where "resolve_backend os (sk_shm_path (sk_settings st)) = Ok sel"
    "writer_create (bc (bs_backend sel)) pid (bs_name sel) cfg = Ok w" "sk_gc_thread st \<noteq> Some False"
    "st' = st\<lparr>sk_has_writer := True, sk_writer := set_running w, sk_has_allocator := True,
      sk_tracker := \<lparr>at_has_writer = True, at_pending = Map.empty\<rparr>, sk_align := 64, sk_unlocked := False,
      sk_gc_stop := True, sk_gc_thread := Some False\<rparr>"
proof -
  have "max (64 :: u64) 1 = 64" by (simp add: max_def word_le_nat_alt)
  then show ?thesis
    using assms that
    by (auto simp: sink_start_def Let_def with_tracker_def gc_joins_def split: res.splits if_splits)
qed

lemma started_sink:
  assumes "sink_start os bc pid st0 = Some (st, Started)"
  shows "accepting st" "empty_arena (sk_writer st)" "ready_queue (sk_writer st) = []" "rec_queue (sk_writer st) = []"
    "h_ready_head (sk_writer st) = 0" "h_rec_head (sk_writer st) = 0" "sk_gc_thread st = Some False" "sk_gc_stop st"
    "sk_tracker st = \<lparr>at_has_writer = True, at_pending = Map.empty\<rparr>" "sk_align st = 64"
    "h_state (sk_writer st) = STATE_RUNNING" "fl_next_id (w_allocator (sk_writer st)) = 1"
    "sk_settings st = sk_settings st0"
proof -
  obtain sel :: backend_selection and w cfg where w: "writer_create (bc (bs_backend sel)) pid (bs_name sel) cfg = Ok w"
    and st: "st = st0\<lparr>sk_has_writer := True, sk_writer := set_running w, sk_has_allocator := True,
      sk_tracker := \<lparr>at_has_writer = True, at_pending = Map.empty\<rparr>, sk_align := 64, sk_unlocked := False,
      sk_gc_stop := True, sk_gc_thread := Some False\<rparr>"
    by (rule sink_start_StartedE [OF assms]) blast
  note f = writer_create_fields [OF w]
  show "accepting st" "empty_arena (sk_writer st)" "ready_queue (sk_writer st) = []" "rec_queue (sk_writer st) = []"
    "h_ready_head (sk_writer st) = 0" "h_rec_head (sk_writer st) = 0" "fl_next_id (w_allocator (sk_writer st)) = 1"
    using f by (simp_all add: st accepting_def empty_arena_def set_running_frame)
  show "sk_gc_thread st = Some False" "sk_gc_stop st" "sk_align st = 64" "h_state (sk_writer st) = STATE_RUNNING"
    "sk_tracker st = \<lparr>at_has_writer = True, at_pending = Map.empty\<rparr>" "sk_settings st = sk_settings st0"
    by (simp_all add: st set_running_frame)
qed

lemma sink_start_gc:
  assumes "sk_settings st' = sk_settings st"
  shows "sk_gc_thread st' \<noteq> Some False \<Longrightarrow> sink_start os bc pid st = Some (st1, Started) \<Longrightarrow>
      \<exists>st2. sink_start os bc pid st' = Some (st2, Started)"
    and "sk_gc_thread st' = Some False \<Longrightarrow> sink_start os bc pid st = Some (st1, Started) \<Longrightarrow>
      sink_start os bc pid st' = None"
  using assms by (auto simp: sink_start_def Let_def with_tracker_def gc_joins_def split: res.splits if_splits)

text \<open>
  C30: starting and stopping. A started element is running on a new, empty region: it accepts
  buffers, offers an allocator that has handed out nothing, and its collecting thread runs.
  \<open>stop\<close> always returns, ends the thread, marks the region stopped and takes writer and allocator
  away, so that \<open>render\<close> returns Flushing; after it the element starts again as before. A second
  \<open>start\<close> without \<open>stop\<close> never returns: it joins the thread of the first, which no one has told to
  stop.
\<close>

theorem sink_start_stop:
  assumes "sink_start os bc pid st0 = Some (st, Started)"
  shows "accepting st \<and> empty_arena (sk_writer st) \<and> ready_queue (sk_writer st) = [] \<and>
    at_pending (sk_tracker st) = Map.empty \<and> propose_allocation st \<and> h_state (sk_writer st) = STATE_RUNNING \<and>
    sink_start os bc pid st = None \<and>
    (\<exists>st1 st2. sink_stop st = Some st1 \<and> sk_gc_thread st1 = None \<and> \<not> propose_allocation st1 \<and>
       h_state (sk_writer st1) = STATE_STOPPED \<and>
       render (([], id) # env) clock b st1 = Some (st1, No_Flow Flushing) \<and>
       sink_start os bc pid st1 = Some (st2, Started))"
proof -
  note s = started_sink [OF assms]
  let ?st1 = "st\<lparr>sk_gc_stop := False, sk_gc_thread := None, sk_writer := set_stopped (sk_writer st),
      sk_has_allocator := False, sk_has_writer := False, sk_unlocked := False\<rparr>"
  have stop: "sink_stop st = Some ?st1"
    using s(1,7,8) by (simp add: sink_stop_def gc_joins_def accepting_def)
  have "sink_start os bc pid st = None" by (rule sink_start_gc(2) [OF s(13,7) assms])
  moreover have "\<exists>st2. sink_start os bc pid ?st1 = Some (st2, Started)"
    by (rule sink_start_gc(1) [OF _ _ assms]) (simp_all add: s(13))
  then obtain st2 where "sink_start os bc pid ?st1 = Some (st2, Started)" by blast
  moreover have "render (([], id) # env) clock b ?st1 = Some (?st1, No_Flow Flushing)"
    by (simp add: render_def render_round_def)
  moreover have "h_state (sk_writer ?st1) = STATE_STOPPED" by (simp add: set_stopped_def)
  moreover have "propose_allocation st" using s(1) by (simp add: propose_allocation_def accepting_def)
  moreover have "\<not> propose_allocation ?st1" "sk_gc_thread ?st1 = None" by (simp_all add: propose_allocation_def)
  ultimately show ?thesis using s(1-3,9,11) stop by (intro conjI exI) simp_all
qed

section \<open>Reachable states of the element\<close>

inductive sink_reachable :: "sink_sys \<Rightarrow> bool" where
  started: "sink_start os bc pid st0 = Some (st, Started) \<Longrightarrow> sink_reachable (st, [])"
| step: "sink_reachable (st, held) \<Longrightarrow> sink_calm x st \<Longrightarrow> sink_exec x (st, held) = Some c \<Longrightarrow> sink_reachable c"

lemma sink_reachable_sim: "sink_reachable c \<Longrightarrow> \<exists>s. sink_sim c s \<and> owned s"
proof (induction rule: sink_reachable.induct)
  case (started os bc pid st0 st)
  note s = started_sink [OF this]
  have "owned \<lparr>sy_writer = sk_writer st, sy_pending = [], sy_held = []\<rparr>"
    using s(1,3,4) by (simp add: owned_def circulating_def accepting_def)
  moreover have "sink_sim (st, []) \<lparr>sy_writer = sk_writer st, sy_pending = [], sy_held = []\<rparr>"
    using s(9) by (simp add: sink_sim_def)
  ultimately show ?case by blast
next
  case (step st held x c)
  then show ?case using sink_step_simulated calm_run_owned unfolding simulated_def by blast
qed

definition outside_tracker :: "sink_state \<Rightarrow> received_desc list \<Rightarrow> buffer set" where
  "outside_tracker st held =
     set (map frame_buffer (ready_queue (sk_writer st)) @ map held_buffer held @
          map returned_buffer (rec_queue (sk_writer st)))"

text \<open>
  The entries of the tracker. In every state the element reaches by calm steps, an entry is a live
  block of its length that lies at the address it is filed under, and its bytes belong to no other
  entry and to no frame that is queued, in the consumer's hands or on its way back.
\<close>

lemma tracked_exclusive:
  assumes "sink_reachable (st, held)" and "at_pending (sk_tracker st) ptr = Some p"
  shows "tracked st ptr p \<and>
    (\<forall>ptr' p'. at_pending (sk_tracker st) ptr' = Some p' \<and> ptr' \<noteq> ptr \<longrightarrow>
       disjoint_ranges (buffer_range (pending_block p)) (buffer_range (pending_block p'))) \<and>
    (\<forall>b\<in>outside_tracker st held. disjoint_ranges (buffer_range (pending_block p)) (buffer_range b))"
proof -
  obtain s where sim: "sink_sim (st, held) s" and o: "owned s" using sink_reachable_sim [OF assms(1)] by blast
  have w: "sk_writer st = sy_writer s" "held = sy_held s" using sim by (simp_all add: sink_sim_def)
  obtain k where k: "k < length (sy_pending s)" "sy_pending s ! k = tracked_lease ptr p" by (rule sim_lookup [OF sim assms(2)])
  have tr: "tracked st ptr p"
    using owned_pending [OF o k(1)] assms(2) by (simp add: tracked_def leased_def pending_block_def k(2) w)
  have wf: "alloc_wf (h_arena_size (sy_writer s)) (w_allocator (sy_writer s))" using o by (simp add: owned_def writer_ok_def)
  have dist: "distinct (map fst (circulating s))" and lsd: "\<forall>b\<in>set (circulating s). leased (w_allocator (sy_writer s)) b"
    using o by (simp_all add: owned_def)
  have blk: "lease_buffer (tracked_lease q r) = pending_block r" for q r by (simp add: lease_buffer_def pending_block_def)
  have pin: "pending_block p \<in> set (map lease_buffer (sy_pending s))"
    using k by (metis blk nth_mem image_eqI set_map)
  have apart: "disjoint_ranges (buffer_range (pending_block p)) (buffer_range b)"
    if "b \<in> set (circulating s)" "fst b \<noteq> fst (pending_block p)" for b
    using leased_disjoint [OF wf] lsd that pin by (simp add: circulating_def)
  have "disjoint_ranges (buffer_range (pending_block p)) (buffer_range (pending_block p'))"
    if e: "at_pending (sk_tracker st) ptr' = Some p'" "ptr' \<noteq> ptr" for ptr' p'
  proof -
    obtain j where j: "j < length (sy_pending s)" "sy_pending s ! j = tracked_lease ptr' p'" by (rule sim_lookup [OF sim e(1)])
    have "j \<noteq> k" using j(2) k(2) e(2) by (metis tracked_lease_of(3))
    moreover have "distinct (map (fst \<circ> lease_buffer) (sy_pending s))" using dist by (simp add: circulating_def)
    ultimately have "fst (pending_block p') \<noteq> fst (pending_block p)"
      using j k nth_eq_iff_index_eq [of "map (fst \<circ> lease_buffer) (sy_pending s)" j k] by (simp add: blk)
    moreover have "pending_block p' \<in> set (map lease_buffer (sy_pending s))"
      using j by (metis blk nth_mem image_eqI set_map)
    then have "pending_block p' \<in> set (circulating s)" by (simp add: circulating_def)
    ultimately show ?thesis by (intro apart)
  qed
  moreover have "disjoint_ranges (buffer_range (pending_block p)) (buffer_range b)" if b: "b \<in> outside_tracker st held" for b
  proof (rule apart)
    show "b \<in> set (circulating s)" using b by (auto simp: outside_tracker_def circulating_def w)
    have "fst ` set (map lease_buffer (sy_pending s)) \<inter> fst ` outside_tracker st held = {}"
      using dist unfolding circulating_def outside_tracker_def w by (simp only: map_append distinct_append set_append set_map image_Un)
    with b pin show "fst b \<noteq> fst (pending_block p)" by (metis IntI empty_iff imageI)
  qed
  ultimately show ?thesis using tr by blast
qed

section \<open>The memories upstream holds\<close>

text \<open>
  A memory that lives at upstream: its address, its length, and whether \<open>render\<close> has published it. A
  published memory lives on until upstream drops it; only then does \<open>ShmWritableMemory::drop\<close> run.
  The steps are those of the element, with the memories of upstream: an allocation that succeeds
  makes one, and upstream drops only what it has.
\<close>

type_synonym up_mem = "usize \<times> usize \<times> bool"
type_synonym up_sys = "sink_sys \<times> up_mem list"

definition mark_mem :: "usize \<Rightarrow> up_mem list \<Rightarrow> up_mem list" where
  "mark_mem ptr ms = map (\<lambda>(q, len, published). (q, len, published \<or> q = ptr)) ms"

definition drop_mem :: "usize \<Rightarrow> up_mem list \<Rightarrow> up_mem list" where
  "drop_mem ptr ms = filter (\<lambda>m. fst m \<noteq> ptr) ms"

fun up_mems :: "sink_op \<Rightarrow> sink_state \<Rightarrow> up_mem list \<Rightarrow> up_mem list" where
  "up_mems (Up_Alloc sz) st ms =
     (case snd (allocator_alloc sz st) of Ok (Some (ptr, len)) \<Rightarrow> ms @ [(ptr, len, False)] | _ \<Rightarrow> ms)"
| "up_mems (Up_Drop ptr) st ms = drop_mem ptr ms"
| "up_mems (Render b clock) st ms =
     (case snd (fast_lease b (map_readable (sk_writer st) b) st) of
        Some lease \<Rightarrow> mark_mem (ls_ptr lease) ms | None \<Rightarrow> ms)"
| "up_mems x st ms = ms"

text \<open>
  The tracker is searched by address only: dropping a memory frees the lease that is filed under its
  address at that time, even if the memory's own lease was published long ago and the address has
  been handed out again.
\<close>

lemma drop_takes_entry:
  assumes "at_pending (sk_tracker st) ptr = Some p" "at_has_writer (sk_tracker st)"
  shows "live (w_allocator (sk_writer (memory_drop ptr st))) (pl_buffer_id p) = None"
  using assms
  by (simp add: memory_drop_def release_unpublished_def free_lease_def Let_def case_prod_beta free_by_id_live)

text \<open>
  A prompt step: upstream has dropped a published memory by the time its block is handed out again, so
  that an allocation never returns the address of a memory that still lives; and it drops a memory
  it has.
\<close>

fun prompt :: "sink_op \<Rightarrow> sink_state \<Rightarrow> up_mem list \<Rightarrow> bool" where
  "prompt (Up_Alloc sz) st ms \<longleftrightarrow>
     (case snd (allocator_alloc sz st) of Ok (Some (ptr, len)) \<Rightarrow> ptr \<notin> fst ` set ms | _ \<Rightarrow> True)"
| "prompt (Up_Drop ptr) st ms \<longleftrightarrow> ptr \<in> fst ` set ms"
| "prompt x st ms \<longleftrightarrow> True"

inductive up_reachable :: "up_sys \<Rightarrow> bool" where
  up_started: "sink_start os bc pid st0 = Some (st, Started) \<Longrightarrow> up_reachable ((st, []), [])"
| up_step: "up_reachable ((st, held), ms) \<Longrightarrow> sink_calm x st \<Longrightarrow> prompt x st ms \<Longrightarrow>
    sink_exec x (st, held) = Some c \<Longrightarrow> up_reachable (c, up_mems x st ms)"

lemma up_sink_reachable: "up_reachable u \<Longrightarrow> sink_reachable (fst u)"
  by (induction rule: up_reachable.induct) (auto intro: sink_reachable.intros)

text \<open>The tracker holds the memories that have not been published, and nothing else.\<close>

definition mems_tracked :: "(usize \<Rightarrow> pending_lease option) \<Rightarrow> up_mem list \<Rightarrow> bool" where
  "mems_tracked pend ms \<longleftrightarrow> distinct (map fst ms) \<and>
     (\<forall>ptr len. (ptr, len, False) \<in> set ms \<longleftrightarrow> (\<exists>p. pend ptr = Some p \<and> ucast (pl_len p) = len))"

lemma mems_tracked_alloc:
  "mems_tracked pend ms \<Longrightarrow> ls_ptr l \<notin> fst ` set ms \<Longrightarrow>
   mems_tracked (pend(ls_ptr l \<mapsto> pending_of l)) (ms @ [(ls_ptr l, ucast (ls_len l), False)])"
  by (force simp: mems_tracked_def pending_of_def)

lemma mems_tracked_drop: "mems_tracked pend ms \<Longrightarrow> mems_tracked (pend(ptr := None)) (drop_mem ptr ms)"
  by (auto simp: mems_tracked_def drop_mem_def distinct_map_filter)

lemma mems_tracked_mark:
  assumes "mems_tracked pend ms"
  shows "mems_tracked (pend(ptr := None)) (mark_mem ptr ms)"
proof -
  have "(q, n, False) \<in> set (mark_mem ptr ms) \<longleftrightarrow> (q, n, False) \<in> set ms \<and> q \<noteq> ptr" for q n
    by (force simp: mark_mem_def)
  moreover have "map fst (mark_mem ptr ms) = map fst ms" by (simp add: mark_mem_def case_prod_beta o_def)
  ultimately show ?thesis using assms by (simp add: mems_tracked_def)
qed

lemma consumer_tracker: "sink_exec (Consumer y) (st, held) = Some c \<Longrightarrow> sk_tracker (fst c) = sk_tracker st"
  by (auto split: if_splits option.splits)

lemma render_tracker:
  assumes "sink_exec (Render b clock) (st, held) = Some c"
  shows "sk_tracker (fst c) = fst (fast_lease b (map_readable (sk_writer st) b) st)"
  using assms
  by (auto simp: render_round_def split: if_splits option.splits prod.splits res.splits flow.splits shm_error.splits)

lemma up_step_tracked:
  assumes "mems_tracked (at_pending (sk_tracker st)) ms" "prompt x st ms" "sink_exec x (st, held) = Some c"
  shows "mems_tracked (at_pending (sk_tracker (fst c))) (up_mems x st ms)"
proof (cases x)
  case (Up_Alloc sz)
  show ?thesis
  proof (cases "at_has_writer (sk_tracker st)")
    case False
    then show ?thesis using assms by (auto simp: Up_Alloc allocator_alloc_def alloc_lease_for_upstream_def)
  next
    case True
    then show ?thesis using assms
      by (auto simp: Up_Alloc allocator_alloc_def alloc_lease_for_upstream_def
          intro!: mems_tracked_alloc split: prod.splits res.splits)
  qed
next
  case (Up_Fill ptr bytes)
  then show ?thesis using assms by (auto split: option.splits if_splits)
next
  case (Up_Drop ptr)
  have "at_pending (fst (release_unpublished ptr t w)) = (at_pending t)(ptr := None)" for t w
    by (auto simp: release_unpublished_def split: option.split)
  then have "at_pending (sk_tracker (fst c)) = (at_pending (sk_tracker st))(ptr := None)"
    using assms(3) by (auto simp: Up_Drop memory_drop_def case_prod_beta)
  then show ?thesis using mems_tracked_drop [OF assms(1)] by (simp add: Up_Drop)
next
  case (Render b clock)
  obtain t r where f: "fast_lease b (map_readable (sk_writer st) b) st = (t, r)" by force
  have t: "sk_tracker (fst c) = t" using render_tracker assms(3) f unfolding Render by fastforce
  show ?thesis
  proof (cases r)
    case None
    then show ?thesis using fast_lease_None f assms(1) t by (auto simp: Render)
  next
    case (Some l)
    from fast_lease_Some [OF f [unfolded Some]]
    have "t = (sk_tracker st)\<lparr>at_pending := (at_pending (sk_tracker st))(ls_ptr l := None)\<rparr>" by blast
    then show ?thesis using mems_tracked_mark [OF assms(1)] t by (simp add: Render f Some)
  qed
next
  case Collect
  then show ?thesis using assms by (auto simp: gc_collect_def)
next
  case (Consumer y)
  then show ?thesis using assms consumer_tracker by fastforce
qed

lemma up_reachable_tracked: "up_reachable u \<Longrightarrow> mems_tracked (at_pending (sk_tracker (fst (fst u)))) (snd u)"
proof (induction rule: up_reachable.induct)
  case (up_started os bc pid st0 st)
  then show ?case using started_sink(9) by (simp add: mems_tracked_def)
next
  case (up_step st held ms x c)
  then show ?case using up_step_tracked by fastforce
qed

text \<open>The bytes of a memory, as offset and length in the arena.\<close>

definition mem_range :: "writer \<Rightarrow> up_mem \<Rightarrow> range" where
  "mem_range w m = (fst m - w_arena w, fst (snd m))"

text \<open>
  C8: a memory upstream writes into is its own. Take any calm run in which upstream has dropped a
  published memory by the time its block is handed out again, and a memory that lives at upstream
  and has not been published. Its bytes are a live block of its length at its address; they belong
  to no other live memory that has not been published, and to no frame that is queued, in the
  consumer's hands or on its way back. So upstream can fill it without touching anything the
  consumer reads or another unpublished memory holds.
\<close>

theorem upstream_memory_exclusive:
  assumes "up_reachable ((st, held), ms)" and "k < length ms" and "ms ! k = (ptr, len, False)"
  shows "(\<exists>p. tracked st ptr p \<and> ucast (pl_len p) = len) \<and>
    (\<forall>j<length ms. j \<noteq> k \<and> \<not> snd (snd (ms ! j)) \<longrightarrow>
       disjoint_ranges (mem_range (sk_writer st) (ms ! k)) (mem_range (sk_writer st) (ms ! j))) \<and>
    (\<forall>b\<in>outside_tracker st held. disjoint_ranges (mem_range (sk_writer st) (ms ! k)) (buffer_range b))"
proof -
  have sr: "sink_reachable (st, held)" using up_sink_reachable [OF assms(1)] by simp
  have mt: "mems_tracked (at_pending (sk_tracker st)) ms" using up_reachable_tracked [OF assms(1)] by simp
  have entry: "\<exists>p. at_pending (sk_tracker st) q = Some p \<and> mem_range (sk_writer st) (ms ! j) = buffer_range (pending_block p) \<and>
      tracked st q p \<and> ucast (pl_len p) = n" if j: "j < length ms" "ms ! j = (q, n, False)" for j q n
  proof -
    have "(q, n, False) \<in> set ms" using j by (metis nth_mem)
    then obtain p where p: "at_pending (sk_tracker st) q = Some p" "ucast (pl_len p) = n" using mt by (auto simp: mems_tracked_def)
    have tr: "tracked st q p" by (rule conjunct1 [OF tracked_exclusive [OF sr p(1)]])
    then have "q - w_arena (sk_writer st) = pl_offset p" by (simp add: tracked_def)
    then show ?thesis using p tr j(2) by (simp add: mem_range_def buffer_range_def pending_block_def)
  qed
  obtain p where p: "at_pending (sk_tracker st) ptr = Some p" "mem_range (sk_writer st) (ms ! k) = buffer_range (pending_block p)"
    "tracked st ptr p" "ucast (pl_len p) = len" using entry [OF assms(2,3)] by blast
  note ex = tracked_exclusive [OF sr p(1)]
  have "disjoint_ranges (mem_range (sk_writer st) (ms ! k)) (mem_range (sk_writer st) (ms ! j))"
    if j: "j < length ms" "j \<noteq> k" "\<not> snd (snd (ms ! j))" for j
  proof -
    obtain q n where q: "ms ! j = (q, n, False)" using j(3) by (metis prod.collapse)
    obtain p' where p': "at_pending (sk_tracker st) q = Some p'" "mem_range (sk_writer st) (ms ! j) = buffer_range (pending_block p')"
      using entry [OF j(1) q] by blast
    have "map fst ms ! j \<noteq> map fst ms ! k"
      using mt j(1,2) assms(2) nth_eq_iff_index_eq [of "map fst ms" j k] by (simp add: mems_tracked_def)
    then have "q \<noteq> ptr" using j(1) assms(2,3) q by simp
    then show ?thesis using ex p'(1) unfolding p(2) p'(2) by blast
  qed
  then show ?thesis using p ex by (auto simp only: p(2))
qed

section \<open>Concrete instances\<close>

definition stopped_sink :: sink_state where
  "stopped_sink = (demo_sink (small_writer 2))
     \<lparr>sk_has_writer := False, sk_has_allocator := False, sk_gc_stop := False, sk_gc_thread := None\<rparr>"

lemma started_default:
  obtains st where "sink_start Unix (\<lambda>_. small_backend) 42 stopped_sink = Some (st, Started)"
    "upstream_ready st 100" "h_arena_size (sk_writer st) = 66580480"
proof -
  let ?cfg = "default_config\<lparr>cfg_total_size := 67108864, cfg_perms := 432, cfg_timeline_beacon_ms := 250\<rparr>"
  let ?p = "''/dev/shm/gst-shm2-default''"
  have r: "resolve_backend Unix ?p = Ok \<lparr>bs_backend = PosixFileBackend, bs_name = ?p\<rparr>"
    by (simp add: resolve_backend_def parse_scheme_def starts_with_def eval_nat_numeral)
  have a: "arena_start 4096 4096 = 528384" by (simp add: arena_start_def align_up_nat_def)
  obtain w where w: "writer_create small_backend 42 ?p ?cfg = Ok w" and sz: "h_arena_size w = 66580480"
    by (simp add: writer_create_def small_backend_def default_config_def map_layout_eq a create_defs)
  obtain st where st: "sink_start Unix (\<lambda>_. small_backend) 42 stopped_sink = Some (st, Started)"
    and ws: "sk_writer st = set_running w"
    using r w by (simp add: sink_start_def stopped_sink_def demo_sink_def default_sink_settings_def
        SINK_DEFAULT_PATH_def with_tracker_def gc_joins_def)
  have "h_arena_size (sk_writer st) = 66580480" by (simp add: ws set_running_frame sz)
  moreover from this have "upstream_ready st 100"
    using started_sink(9,10) [OF st] by (simp add: upstream_ready_def roomy_def unat_max)
  ultimately show ?thesis using that st by blast
qed

theorem sink_start_stop_witness:
  "\<exists>st st1. sink_start Unix (\<lambda>_. small_backend) 42 stopped_sink = Some (st, Started) \<and>
     sink_start Unix (\<lambda>_. small_backend) 42 st = None \<and> sink_stop st = Some st1 \<and>
     h_state (sk_writer st1) = STATE_STOPPED"
proof (rule started_default)
  fix st
  assume s: "sink_start Unix (\<lambda>_. small_backend) 42 stopped_sink = Some (st, Started)"
  from sink_start_stop [OF this] s show ?thesis by blast
qed

lemma calm_lease_empty:
  assumes "empty_arena w" "roomy (h_arena_size w) (max align 1)" "unat sz \<le> unat (h_arena_size w)" "counters_low w"
  shows "calm_lease w sz align"
proof (rule alloc_empty [OF assms(1-3)])
  fix a x
  assume al: "alloc (w_allocator w) sz align = Some (a, x)"
  have "live (w_allocator w) i = None" for i using assms(1) by (simp add: empty_arena_def)
  then show ?thesis
    using assms(2,4) by (simp add: calm_lease_def calm_def counters_low_def alloc_lease_fits [OF al] alloc_result_def)
qed

text \<open>A started element that has handed one memory of 100 bytes to upstream.\<close>

lemma first_memory:
  obtains st st1 ptr p where "sink_reachable (st, [])" "sink_calm (Up_Alloc 100) st"
    "sink_exec (Up_Alloc 100) (st, []) = Some (st1, [])" "sink_reachable (st1, [])"
    "at_pending (sk_tracker st1) ptr = Some p" "pl_len p = 100"
    "sink_sim (st, []) \<lparr>sy_writer = sk_writer st, sy_pending = [], sy_held = []\<rparr>"
    "owned \<lparr>sy_writer = sk_writer st, sy_pending = [], sy_held = []\<rparr>"
proof (rule started_default)
  fix st
  assume s: "sink_start Unix (\<lambda>_. small_backend) 42 stopped_sink = Some (st, Started)" and up: "upstream_ready st 100"
  note f = started_sink [OF s]
  have room: "roomy (h_arena_size (sk_writer st)) (max (sk_align st) 1)" "unat (100 :: u32) \<le> unat (h_arena_size (sk_writer st))"
    using up by (simp_all add: upstream_ready_def)
  have low: "counters_low (sk_writer st)" using f(3-6) by (simp add: counters_low_def)
  have r: "sink_reachable (st, [])" by (rule sink_reachable.started [OF s])
  have has: "at_has_writer (sk_tracker st)" by (simp add: f(9))
  obtain st1 ptr p where al: "allocator_alloc (ucast (100 :: u32)) st = (st1, Ok (Some (ptr, ucast (100 :: u32))))"
    and p: "at_pending (sk_tracker st1) ptr = Some p" "pl_len p = 100"
    by (rule allocator_alloc_empty [OF f(2) has room]) (simp add: fun_upd_same)
  have x: "sink_exec (Up_Alloc 100) (st, []) = Some (st1, [])" using al by simp
  have c: "sink_calm (Up_Alloc 100) st"
    using calm_lease_empty [OF f(2) room low] low by (simp add: sink_calm_def)
  have o: "owned \<lparr>sy_writer = sk_writer st, sy_pending = [], sy_held = []\<rparr>"
    using f(1,3,4) by (simp add: owned_def circulating_def accepting_def)
  have sim: "sink_sim (st, []) \<lparr>sy_writer = sk_writer st, sy_pending = [], sy_held = []\<rparr>"
    using f(9) by (simp add: sink_sim_def)
  show ?thesis by (rule that [OF r c x sink_reachable.step [OF r c x] p sim o])
qed

theorem upstream_memory_exclusive_witness:
  "\<exists>st ptr p. up_reachable ((st, []), [(ptr, 100, False)]) \<and> tracked st ptr p \<and> ucast (pl_len p) = (100 :: usize)"
proof (rule started_default)
  fix st
  assume s: "sink_start Unix (\<lambda>_. small_backend) 42 stopped_sink = Some (st, Started)" and up: "upstream_ready st 100"
  note f = started_sink [OF s]
  have room: "roomy (h_arena_size (sk_writer st)) (max (sk_align st) 1)" "unat (100 :: u32) \<le> unat (h_arena_size (sk_writer st))"
    using up by (simp_all add: upstream_ready_def)
  have low: "counters_low (sk_writer st)" using f(3-6) by (simp add: counters_low_def)
  have has: "at_has_writer (sk_tracker st)" by (simp add: f(9))
  obtain st1 ptr where al: "allocator_alloc (ucast (100 :: u32)) st = (st1, Ok (Some (ptr, ucast (100 :: u32))))"
    by (rule allocator_alloc_empty [OF f(2) has room])
  have r: "up_reachable ((st, []), [])" by (rule up_started [OF s])
  have "sink_calm (Up_Alloc 100) st"
    using calm_lease_empty [OF f(2) room low] low by (simp add: sink_calm_def)
  moreover have "prompt (Up_Alloc 100) st []" by (simp split: res.splits option.splits)
  moreover have "sink_exec (Up_Alloc 100) (st, []) = Some (st1, [])" using al by simp
  ultimately have "up_reachable ((st1, []), up_mems (Up_Alloc 100) st [])" by (rule up_step [OF r])
  then have r1: "up_reachable ((st1, []), [(ptr, 100, False)])" using al by simp
  show ?thesis using upstream_memory_exclusive [OF r1, of 0 ptr 100] r1 by auto
qed

theorem sink_refines_transport_witness:
  "\<exists>st s c xs s'. sink_exec (Up_Alloc 100) (st, []) = Some c \<and> calm_run s xs s' \<and> sink_sim c s' \<and> owned s'"
proof (rule first_memory)
  fix st st1 :: sink_state
  let ?s = "\<lparr>sy_writer = sk_writer st, sy_pending = [], sy_held = []\<rparr>"
  assume "sink_sim (st, []) ?s" "owned ?s" "sink_calm (Up_Alloc 100) st"
    and x: "sink_exec (Up_Alloc 100) (st, []) = Some (st1, [])"
  from sink_refines_transport [OF this] x show ?thesis by blast
qed

end
