(* ===== verification/Source.thy ===== *)
theory Source
  imports Reception Platform Gst
begin

text \<open>
  The source element, \<open>src/src/shm2src.rs\<close>: its timeline state, the clock correction
  \<open>update_clock_sync\<close>, \<open>start\<close>, \<open>stop\<close>, \<open>unlock\<close> and \<open>unlock_stop\<close>, and \<open>create\<close>, which takes a
  frame off the ring and stamps it. GStreamer is a parameter: the running time of the element's
  clock is an argument, the buffer handed downstream is what the code sets on it. 128-bit
  intermediate values are integers.
\<close>

section \<open>State\<close>

record src_settings =
  ss_shm_path :: string
  ss_is_live :: bool
  ss_live_only :: bool
  ss_latest_only :: bool

definition default_src_settings :: src_settings where
  "default_src_settings =
     \<lparr>ss_shm_path = ''/dev/shm/gst-shm2-default'', ss_is_live = False, ss_live_only = True,
      ss_latest_only = True\<rparr>"

record timeline_state =
  tl_expected_gen :: u64
  tl_offset_valid :: bool
  tl_offset_ns :: i64
  tl_last_snapshot_seq :: u64
  tl_sink_mono_at_snap :: u64
  tl_producer_pts_at_snap :: i64
  tl_need_discont :: bool
  tl_last_late_log_ns :: u64

text \<open>
  The element's state and the region its reader has mapped. \<open>sr_reader\<close> says whether there is a
  reader.
\<close>

record src_state =
  sr_settings :: src_settings
  sr_reader :: bool
  sr_unlocked :: bool
  sr_timeline :: timeline_state
  sr_region :: shm

section \<open>Properties of the element\<close>

text \<open>
  \<open>set_property\<close>, on a Unix target: the new settings, and what \<open>set_live\<close> of the base class is
  called with, if it is. \<open>unreachable!()\<close> on any other name.
\<close>

definition src_set_property :: "string \<Rightarrow> gvalue \<Rightarrow> src_settings \<Rightarrow> (src_settings \<times> bool option) res" where
  "src_set_property name value s =
     (if name = ''shm-path'' then
        Ok (set_if (get_string value)
              (\<lambda>v. ss_shm_path_update (\<lambda>_. case v of Some p \<Rightarrow> p | None \<Rightarrow> ''/dev/shm/gst-shm2-default'')) s, None)
      else if name = ''is-live'' then
        Ok (set_if (get_bool value) (\<lambda>v. ss_is_live_update (\<lambda>_. v)) s, get_bool value)
      else if name = ''live-only'' then
        Ok (set_if (get_bool value) (\<lambda>v. ss_live_only_update (\<lambda>_. v)) s, None)
      else if name = ''latest-only'' then
        Ok (set_if (get_bool value) (\<lambda>v. ss_latest_only_update (\<lambda>_. v)) s, None)
      else Panic)"

definition src_property :: "string \<Rightarrow> src_settings \<Rightarrow> gvalue res" where
  "src_property name s =
     (if name = ''shm-path'' then Ok (V_String (Some (ss_shm_path s)))
      else if name = ''is-live'' then Ok (V_Bool (ss_is_live s))
      else if name = ''live-only'' then Ok (V_Bool (ss_live_only s))
      else if name = ''latest-only'' then Ok (V_Bool (ss_latest_only s))
      else Panic)"

definition src_set :: "string \<Rightarrow> gvalue \<Rightarrow> src_settings \<Rightarrow> src_settings" where
  "src_set name v s = (case src_set_property name v s of Ok (s', _) \<Rightarrow> s' | _ \<Rightarrow> s)"

interpretation src_live_only: element_property "\<lambda>v. src_set ''live-only'' (V_Bool v)" ss_live_only "\<lambda>v. v"
  by unfold_locales (simp_all add: src_set_def src_set_property_def)

interpretation src_latest_only: element_property "\<lambda>v. src_set ''latest-only'' (V_Bool v)" ss_latest_only "\<lambda>v. v"
  by unfold_locales (simp_all add: src_set_def src_set_property_def)

interpretation src_is_live: element_property "\<lambda>v. src_set ''is-live'' (V_Bool v)" ss_is_live "\<lambda>v. v"
  by unfold_locales (simp_all add: src_set_def src_set_property_def)

section \<open>Clock synchronisation\<close>

definition clamp :: "int \<Rightarrow> int \<Rightarrow> int \<Rightarrow> int" where
  "clamp lo hi x = (if x < lo then lo else if hi < x then hi else x)"

definition update_clock_sync :: "timeline_state \<Rightarrow> snapshot \<Rightarrow> u64 \<Rightarrow> timeline_state" where
  "update_clock_sync ts snap local_now_ns =
     (if \<not> ts_valid snap \<or> sint (ts_producer_pts_ns snap) < 0 then ts
      else if ts_seq snap = tl_last_snapshot_seq ts then ts
      else
        let desired = clamp (- (2 ^ 63)) (2 ^ 63 - 1) (uint local_now_ns - uint (ts_sink_mono_ns snap));
            ts1 = (if \<not> tl_offset_valid ts
                   then ts\<lparr>tl_offset_ns := word_of_int desired, tl_offset_valid := True\<rparr>
                   else
                     let err = desired - sint (tl_offset_ns ts);
                         step = clamp (- 2000000) 2000000 err
                     in ts\<lparr>tl_offset_ns := word_of_int (sint (tl_offset_ns ts) + step)\<rparr>)
        in ts1\<lparr>tl_last_snapshot_seq := ts_seq snap,
               tl_sink_mono_at_snap := ts_sink_mono_ns snap,
               tl_producer_pts_at_snap := ts_producer_pts_ns snap\<rparr>)"

section \<open>Starting and stopping\<close>

definition fresh_timeline :: "u64 \<Rightarrow> timeline_state \<Rightarrow> timeline_state" where
  "fresh_timeline generation t =
     t\<lparr>tl_expected_gen := generation, tl_offset_valid := False, tl_offset_ns := 0,
       tl_last_snapshot_seq := 0, tl_sink_mono_at_snap := 0, tl_producer_pts_at_snap := 0,
       tl_need_discont := True, tl_last_late_log_ns := 0\<rparr>"

text \<open>
  Opening the region: \<open>resolve_backend\<close> on the configured path, then \<open>Reader::open\<close> with the backend
  and the name it gives. \<open>backend_open\<close>: what \<open>open\<close> of each backend returns.
\<close>

definition src_open ::
    "target \<Rightarrow> (backend \<Rightarrow> string \<Rightarrow> (region \<times> 'a shm_scheme) res) \<Rightarrow> string \<Rightarrow> 'a shm_scheme res" where
  "src_open os backend_open path =
     res_bind (resolve_backend os path) (\<lambda>selected.
     res_bind (reader_open (backend_open (bs_backend selected)) (bs_name selected)) (\<lambda>(layout, region). Ok region))"

text \<open>
  The rest of \<open>start\<close>, from what \<open>src_open\<close> returned (\<open>opened\<close>): the code is \<open>src_start (src_open os
  backend_open)\<close>.
\<close>

definition src_start :: "(string \<Rightarrow> shm res) \<Rightarrow> src_state \<Rightarrow> src_state \<times> unit res" where
  "src_start opened st =
     (case opened (ss_shm_path (sr_settings st)) of
        Ok region \<Rightarrow>
          let region' = sync_startup_state region;
              snap = timeline_snapshot region'
          in (st\<lparr>sr_region := region', sr_reader := True, sr_unlocked := False,
                 sr_timeline := fresh_timeline (ts_generation snap) (sr_timeline st)\<rparr>, Ok ())
      | Err e \<Rightarrow> (st, Err e)
      | Panic \<Rightarrow> (st, Panic))"

definition src_stop :: "src_state \<Rightarrow> src_state" where
  "src_stop st =
     st\<lparr>sr_reader := False, sr_unlocked := False, sr_timeline := fresh_timeline 0 (sr_timeline st)\<rparr>"

definition src_unlock :: "src_state \<Rightarrow> src_state" where
  "src_unlock st = st\<lparr>sr_unlocked := True\<rparr>"

definition src_unlock_stop :: "src_state \<Rightarrow> src_state" where
  "src_unlock_stop st = st\<lparr>sr_unlocked := False\<rparr>"

section \<open>Producing a buffer\<close>

text \<open>The buffer: time stamp and flags the code sets, and the frame its memory wraps.\<close>

record out_buffer =
  ob_pts :: "u64 option"
  ob_discont :: bool
  ob_desc :: received_desc

text \<open>\<open>i64::saturating_add\<close>.\<close>

definition saturating_add_i64 :: "i64 \<Rightarrow> i64 \<Rightarrow> i64" where
  "saturating_add_i64 a b = word_of_int (clamp (- (2 ^ 63)) (2 ^ 63 - 1) (sint a + sint b))"

text \<open>The time stamp of a frame, when there is an offset to compute it from.\<close>

definition out_pts :: "timeline_state \<Rightarrow> received_desc \<Rightarrow> u64 option" where
  "out_pts ts desc =
     (if tl_offset_valid ts \<and> 0 \<le> sint (rv_pts_ns desc) then
        let sink_time = rv_pts_ns desc + (tl_sink_mono_at_snap ts - tl_producer_pts_at_snap ts);
            out = saturating_add_i64 sink_time (tl_offset_ns ts)
        in if 0 \<le> sint out then Some out else None
      else None)"

text \<open>
  The end of \<open>create\<close>: from the frame, the snapshot, the count of dropped frames and the running
  time (if the element has a clock) to the new timeline state and the buffer.
\<close>

definition stamp ::
    "src_settings \<Rightarrow> timeline_state \<Rightarrow> received_desc \<Rightarrow> snapshot \<Rightarrow> u64 \<Rightarrow> u64 option \<Rightarrow>
     timeline_state \<times> out_buffer" where
  "stamp cfg old desc snap dropped now_rt =
     (let ts0 = (if ts_generation snap \<noteq> tl_expected_gen old
                 then old\<lparr>tl_expected_gen := ts_generation snap, tl_offset_valid := False,
                         tl_last_snapshot_seq := 0, tl_need_discont := True\<rparr>
                 else old)
      in if ss_live_only cfg then
           (let ts1 = (case now_rt of Some now \<Rightarrow> update_clock_sync ts0 snap now | None \<Rightarrow> ts0);
                pts = out_pts ts1 desc;
                discont = (tl_need_discont ts1 \<or> dropped > 0);
                ts2 = (if discont then ts1\<lparr>tl_need_discont := False\<rparr> else ts1);
                ts3 = (case (pts, now_rt) of
                         (Some p, Some now) \<Rightarrow>
                           if now > saturating_add p 50000000 \<and>
                              saturating_sub now (tl_last_late_log_ns ts2) > 1000000000
                           then ts2\<lparr>tl_last_late_log_ns := now\<rparr> else ts2
                       | _ \<Rightarrow> ts2)
            in (ts3, \<lparr>ob_pts = pts, ob_discont = discont, ob_desc = desc\<rparr>))
         else
           (old, \<lparr>ob_pts = (if 0 \<le> sint (rv_pts_ns desc) then Some (rv_pts_ns desc) else None),
                 ob_discont = False, ob_desc = desc\<rparr>))"

text \<open>One round of the loop of \<open>create\<close>; \<open>None\<close>: no frame, poll again.\<close>

definition create_take ::
    "src_state \<Rightarrow> (src_state \<times> (received_desc \<times> snapshot \<times> u64) flow) option" where
  "create_take st =
     (if sr_unlocked st then Some (st, No_Flow Flushing)
      else
        let taken = (if ss_latest_only (sr_settings st) then try_recv_latest_desc (sr_region st)
                     else (case try_recv_desc (sr_region st) of
                             (s, Ok (Some d)) \<Rightarrow> (s, Ok (Some (d, 0)))
                           | (s, Ok None) \<Rightarrow> (s, Ok None)
                           | (s, Err e) \<Rightarrow> (s, Err e)
                           | (s, Panic) \<Rightarrow> (s, Panic)))
        in (case taken of
              (s, Ok None) \<Rightarrow> None
            | (s, Ok (Some (desc, dropped))) \<Rightarrow>
                (case payload_ptr s desc of
                   Ok ptr \<Rightarrow> Some (st\<lparr>sr_region := s\<rparr>, Flow (desc, timeline_snapshot s, dropped))
                 | Err e \<Rightarrow> Some (st\<lparr>sr_region := s\<rparr>, No_Flow Flow_Error)
                 | Panic \<Rightarrow> Some (st\<lparr>sr_region := s\<rparr>, Flow_Panic))
            | (s, Err e) \<Rightarrow> Some (st\<lparr>sr_region := s\<rparr>, No_Flow Flow_Error)
            | (s, Panic) \<Rightarrow> Some (st\<lparr>sr_region := s\<rparr>, Flow_Panic)))"

definition create ::
    "(src_state \<Rightarrow> src_state) list \<Rightarrow> u64 option \<Rightarrow> src_state \<Rightarrow> (src_state \<times> out_buffer flow) option" where
  "create env now_rt st =
     (if sr_unlocked st then Some (st, No_Flow Flushing)
      else if \<not> sr_reader st then Some (st, No_Flow Flushing)
      else case poll_loop create_take env st of
        None \<Rightarrow> None
      | Some (st1, No_Flow e) \<Rightarrow> Some (st1, No_Flow e)
      | Some (st1, Flow_Panic) \<Rightarrow> Some (st1, Flow_Panic)
      | Some (st1, Flow (desc, snap, dropped)) \<Rightarrow>
          (case stamp (sr_settings st1) (sr_timeline st1) desc snap dropped now_rt of
             (new, buf) \<Rightarrow> Some (st1\<lparr>sr_timeline := new\<rparr>, Flow buf)))"

text \<open>Dropping the buffer's memory (\<open>ShmReadWrap\<close>) gives the frame back.\<close>

definition wrap_drop :: "(shm \<Rightarrow> shm) list \<Rightarrow> received_desc \<Rightarrow> shm \<Rightarrow> (shm \<times> unit res) option" where
  "wrap_drop env desc s = recycle_desc env (rv_buffer_id desc) (rv_offset desc) (rv_len desc) 0 s"

section \<open>Properties of the clock correction\<close>

lemma sint_i64_range: "- (2 ^ 63) \<le> sint x" "sint x < 2 ^ 63" for x :: i64
  using sint_ge [of x] sint_less [of x] by simp_all

lemma sint_of_int_i64: "- (2 ^ 63) \<le> n \<Longrightarrow> n < 2 ^ 63 \<Longrightarrow> sint (word_of_int n :: i64) = n"
  by (simp add: sint_word_ariths signed_take_bit_int_eq_self sint_sbintrunc')

lemma uint_of_nonneg: "0 \<le> sint x \<Longrightarrow> uint x = sint x" for x :: i64
  using sint_i64_range(2) [of x] by (simp add: uint_sint take_bit_int_eq_self)

definition desired_offset :: "snapshot \<Rightarrow> u64 \<Rightarrow> int" where
  "desired_offset snap now = clamp (- (2 ^ 63)) (2 ^ 63 - 1) (uint now - uint (ts_sink_mono_ns snap))"

lemma clamp_range: "lo \<le> hi \<Longrightarrow> lo \<le> clamp lo hi x \<and> clamp lo hi x \<le> hi"
  by (simp add: clamp_def)

lemma clamp_id: "lo \<le> x \<Longrightarrow> x \<le> hi \<Longrightarrow> clamp lo hi x = x"
  by (simp add: clamp_def)

definition usable :: "timeline_state \<Rightarrow> snapshot \<Rightarrow> bool" where
  "usable ts snap \<longleftrightarrow> ts_valid snap \<and> 0 \<le> sint (ts_producer_pts_ns snap) \<and>
     ts_seq snap \<noteq> tl_last_snapshot_seq ts"

lemma update_clock_sync_unusable: "\<not> usable ts snap \<Longrightarrow> update_clock_sync ts snap now = ts"
  by (auto simp: update_clock_sync_def usable_def)

lemma update_clock_sync_fields:
  assumes "usable ts snap"
  shows "tl_last_snapshot_seq (update_clock_sync ts snap now) = ts_seq snap"
    and "tl_sink_mono_at_snap (update_clock_sync ts snap now) = ts_sink_mono_ns snap"
    and "tl_producer_pts_at_snap (update_clock_sync ts snap now) = ts_producer_pts_ns snap"
    and "tl_offset_valid (update_clock_sync ts snap now)"
    and "tl_need_discont (update_clock_sync ts snap now) = tl_need_discont ts"
    and "tl_expected_gen (update_clock_sync ts snap now) = tl_expected_gen ts"
  using assms by (auto simp: update_clock_sync_def usable_def Let_def)

lemma update_clock_sync_first:
  assumes "usable ts snap" "\<not> tl_offset_valid ts"
  shows "sint (tl_offset_ns (update_clock_sync ts snap now)) = desired_offset snap now"
proof -
  have "- (2 ^ 63) \<le> desired_offset snap now" "desired_offset snap now < 2 ^ 63"
    using clamp_range [of "- (2 ^ 63)" "2 ^ 63 - 1" "uint now - uint (ts_sink_mono_ns snap)"]
    by (simp_all add: desired_offset_def)
  from sint_of_int_i64 [OF this] show ?thesis
    using assms by (simp add: update_clock_sync_def usable_def desired_offset_def Let_def)
qed

lemma update_clock_sync_slew:
  assumes "usable ts snap" "tl_offset_valid ts"
  shows "sint (tl_offset_ns (update_clock_sync ts snap now)) =
    sint (tl_offset_ns ts) + clamp (- 2000000) 2000000 (desired_offset snap now - sint (tl_offset_ns ts))"
proof -
  let ?d = "desired_offset snap now" and ?o = "sint (tl_offset_ns ts)"
  have d: "- (2 ^ 63) \<le> ?d" "?d < 2 ^ 63"
    using clamp_range [of "- (2 ^ 63)" "2 ^ 63 - 1" "uint now - uint (ts_sink_mono_ns snap)"]
    by (simp_all add: desired_offset_def)
  have "- (2 ^ 63) \<le> ?o + clamp (- 2000000) 2000000 (?d - ?o)" "?o + clamp (- 2000000) 2000000 (?d - ?o) < 2 ^ 63"
    using d sint_i64_range [of "tl_offset_ns ts"] by (auto simp: clamp_def)
  from sint_of_int_i64 [OF this] show ?thesis
    using assms by (simp add: update_clock_sync_def usable_def desired_offset_def Let_def)
qed

text \<open>
  The clock correction is slew limited. Once an offset is established, a new snapshot moves it
  by at most 2 ms, towards the offset the snapshot asks for and never past it; a snapshot within
  2 ms is adopted exactly, however small the difference. The 128-bit computation never leaves the
  64-bit range.
\<close>

lemma clock_slew_limited:
  fixes now :: u64
  assumes "usable ts snap" and "tl_offset_valid ts"
  defines "old \<equiv> sint (tl_offset_ns ts)" and "new \<equiv> sint (tl_offset_ns (update_clock_sync ts snap now))"
  shows "\<bar>new - old\<bar> \<le> 2000000 \<and>
    \<bar>desired_offset snap now - new\<bar> = max 0 (\<bar>desired_offset snap now - old\<bar> - 2000000)"
  using update_clock_sync_slew [OF assms(1,2), of now]
  unfolding old_def new_def by (auto simp: clamp_def)

text \<open>A run of beacons, each with a new sequence number, that all ask for the offset \<open>d\<close>.\<close>

fun beacons :: "int \<Rightarrow> u64 \<Rightarrow> (snapshot \<times> u64) list \<Rightarrow> bool" where
  "beacons d prev [] = True"
| "beacons d prev ((snap, now) # obs) =
     (ts_valid snap \<and> 0 \<le> sint (ts_producer_pts_ns snap) \<and> ts_seq snap \<noteq> prev \<and>
      desired_offset snap now = d \<and> beacons d (ts_seq snap) obs)"

definition follow :: "(snapshot \<times> u64) list \<Rightarrow> timeline_state \<Rightarrow> timeline_state" where
  "follow obs ts = fold (\<lambda>(snap, now) ts. update_clock_sync ts snap now) obs ts"

text \<open>
  C26: the correction converges. Over a run of beacons that ask for the same offset the distance to
  it shrinks by 2 ms per beacon until it is zero, so the offset is exact after at most
  one beacon per 2 ms of initial error, and it then stays.
\<close>

theorem clock_converges:
  assumes "tl_offset_valid ts" and "beacons d (tl_last_snapshot_seq ts) obs"
  shows "\<bar>d - sint (tl_offset_ns (follow obs ts))\<bar> =
    max 0 (\<bar>d - sint (tl_offset_ns ts)\<bar> - 2000000 * int (length obs))"
  using assms
proof (induction obs arbitrary: ts)
  case Nil
  then show ?case by (simp add: follow_def)
next
  case (Cons x obs)
  obtain snap now where x: "x = (snap, now)" by (cases x)
  let ?ts = "update_clock_sync ts snap now"
  have u: "usable ts snap" and d: "desired_offset snap now = d" and b: "beacons d (ts_seq snap) obs"
    using Cons.prems(2) by (simp_all add: x usable_def)
  have "\<bar>d - sint (tl_offset_ns ?ts)\<bar> = max 0 (\<bar>d - sint (tl_offset_ns ts)\<bar> - 2000000)"
    using update_clock_sync_slew [OF u Cons.prems(1), of now] by (auto simp: clamp_def d)
  moreover have "\<bar>d - sint (tl_offset_ns (follow obs ?ts))\<bar> =
      max 0 (\<bar>d - sint (tl_offset_ns ?ts)\<bar> - 2000000 * int (length obs))"
    by (rule Cons.IH) (use update_clock_sync_fields [OF u] b in simp_all)
  moreover have "0 \<le> 2000000 * int (length obs)" by simp
  ultimately show ?case by (simp add: x follow_def) linarith
qed

lemma saturating_add_i64_exact:
  assumes "- (2 ^ 63) \<le> sint a + sint b" "sint a + sint b < 2 ^ 63"
  shows "sint (saturating_add_i64 a b) = sint a + sint b"
  using assms sint_of_int_i64 [of "sint a + sint b"] by (simp add: saturating_add_i64_def clamp_id)

text \<open>
  The first snapshot of a generation aligns the two clocks. Right after it, a frame is stamped
  with the running time at which the snapshot was seen plus the frame's distance in producer time
  from the snapshot: the frame of the snapshot itself plays now, and order and distances of
  frames are kept (as long as the times involved fit into 63 bits).
\<close>

lemma first_snapshot_aligns:
  assumes "usable ts snap" and "\<not> tl_offset_valid ts" and "0 \<le> sint (rv_pts_ns desc)"
    and "uint now < 2 ^ 63" and "uint (ts_sink_mono_ns snap) < 2 ^ 63"
    and "0 \<le> sint (rv_pts_ns desc) + (uint (ts_sink_mono_ns snap) - sint (ts_producer_pts_ns snap))"
    and "sint (rv_pts_ns desc) + (uint (ts_sink_mono_ns snap) - sint (ts_producer_pts_ns snap)) < 2 ^ 63"
    and "0 \<le> uint now + (sint (rv_pts_ns desc) - sint (ts_producer_pts_ns snap))"
    and "uint now + (sint (rv_pts_ns desc) - sint (ts_producer_pts_ns snap)) < 2 ^ 63"
  shows "\<exists>p. out_pts (update_clock_sync ts snap now) desc = Some p \<and>
    uint p = uint now + (sint (rv_pts_ns desc) - sint (ts_producer_pts_ns snap))"
proof -
  let ?ts = "update_clock_sync ts snap now" and ?m = "ts_sink_mono_ns snap" and ?q = "ts_producer_pts_ns snap"
  let ?t = "sint (rv_pts_ns desc) + (uint ?m - sint ?q)"
  note f = update_clock_sync_fields [OF assms(1), of now]
  have off: "sint (tl_offset_ns ?ts) = uint now - uint ?m"
    unfolding update_clock_sync_first [OF assms(1,2)] desired_offset_def
    using assms(4,5) uint_ge_0 [of now] uint_ge_0 [of ?m] by (intro clamp_id) linarith+
  have "rv_pts_ns desc + (?m - ?q) = word_of_int ?t"
    by simp
  then have t: "sint (rv_pts_ns desc + (?m - ?q)) = ?t" using sint_of_int_i64 [of ?t] assms(6,7) by simp
  let ?out = "saturating_add_i64 (rv_pts_ns desc + (?m - ?q)) (tl_offset_ns ?ts)"
  have "sint ?out = uint now + (sint (rv_pts_ns desc) - sint ?q)"
    using assms(8,9) by (subst saturating_add_i64_exact) (simp_all add: t off)
  moreover from this have "uint ?out = sint ?out"
    using assms(8) uint_of_nonneg [of ?out] by simp
  ultimately show ?thesis
    using assms(3,8) f(2-4) by (simp add: out_pts_def)
qed

text \<open>A snapshot taken at 1 s of the sink's clock for a frame of 100 ms, in the concrete instances.\<close>

definition demo_snap :: "u64 \<Rightarrow> snapshot" where
  "demo_snap seq = \<lparr>ts_generation = 1, ts_snapshot_gen = 1, ts_valid = True, ts_seq = seq,
     ts_sink_mono_ns = 1000000000, ts_producer_pts_ns = 100000000, ts_ready_head = 1\<rparr>"

definition demo_timeline :: timeline_state where
  "demo_timeline = \<lparr>tl_expected_gen = 1, tl_offset_valid = True, tl_offset_ns = 0, tl_last_snapshot_seq = 0,
     tl_sink_mono_at_snap = 0, tl_producer_pts_at_snap = 0, tl_need_discont = True, tl_last_late_log_ns = 0\<rparr>"

theorem clock_converges_witness:
  "\<bar>5000000 - sint (tl_offset_ns (follow [(demo_snap 1, 1005000000), (demo_snap 2, 1005000000),
      (demo_snap 3, 1005000000)] demo_timeline))\<bar> = 0"
  using clock_converges [of demo_timeline 5000000 "[(demo_snap 1, 1005000000), (demo_snap 2, 1005000000),
      (demo_snap 3, 1005000000)]"]
  by (simp add: demo_snap_def demo_timeline_def desired_offset_def clamp_def)

section \<open>Properties of \<open>create\<close>\<close>

lemma update_clock_sync_keeps [simp]:
  "tl_need_discont (update_clock_sync ts snap now) = tl_need_discont ts"
  "tl_expected_gen (update_clock_sync ts snap now) = tl_expected_gen ts"
  by (cases "usable ts snap"; simp add: update_clock_sync_unusable update_clock_sync_fields)+

text \<open>
  In live-only mode a buffer carries DISCONT exactly when the element has just started or
  attached to a new timeline generation, or frames were dropped before it; the mark is then spent,
  and the generation of the snapshot is the expected one.
\<close>

lemma discont_marks_gaps:
  assumes "ss_live_only cfg"
  shows "(ob_discont (snd (stamp cfg old desc snap dropped now_rt)) \<longleftrightarrow>
      tl_need_discont old \<or> ts_generation snap \<noteq> tl_expected_gen old \<or> dropped > 0) \<and>
    \<not> tl_need_discont (fst (stamp cfg old desc snap dropped now_rt)) \<and>
    tl_expected_gen (fst (stamp cfg old desc snap dropped now_rt)) = ts_generation snap"
  using assms by (auto simp: stamp_def Let_def split: option.split)

lemma create_take_waits:
  assumes "\<not> sr_unlocked st" "ready_ok (sr_region st)" "ready_queue (sr_region st) = []"
  shows "create_take st = None"
  using assms by (simp add: create_take_def try_recv_latest_empty try_recv_desc_empty)

text \<open>
  \<open>unlock\<close> ends a waiting \<open>create\<close>. While no frame arrives it keeps polling, and in the first
  round after \<open>unlock\<close> it returns Flushing, taking nothing from the region.
\<close>

lemma unlock_ends_create:
  assumes "ready_ok (sr_region st)" and "ready_queue (sr_region st) = []"
    and "sr_reader st" and "\<not> sr_unlocked st"
  shows "create (replicate k id) now_rt st = None \<and>
    create (replicate k id @ src_unlock # env) now_rt st = Some (src_unlock st, No_Flow Flushing)"
proof -
  note w = create_take_waits [OF assms(4,1,2)]
  have stuck: "poll_loop create_take (replicate k id) st = None" by (induction k) (simp_all add: w)
  have un: "create_take (src_unlock st) = Some (src_unlock st, No_Flow Flushing)"
    by (simp add: create_take_def src_unlock_def)
  then have "poll_loop create_take (src_unlock # env) st = Some (src_unlock st, No_Flow Flushing)"
    by (simp add: w poll_loop_now [where body = create_take])
  then have "poll_loop create_take (replicate k id @ src_unlock # env) st = Some (src_unlock st, No_Flow Flushing)"
    by (induction k) (simp_all add: w)
  with stuck assms(3,4) show ?thesis by (simp add: create_def)
qed

lemma frame_in_arena:
  assumes "ready_ok s" "received_frame d \<in> set (ready_queue s)" "h_arena_size s' = h_arena_size s"
  shows "payload_ptr s' d = Ok (rv_offset d)"
proof -
  from assms(2) obtain e where e: "e \<in> set (ready_entries s)" "received_frame d = frame_of e"
    by (auto simp: ready_queue_def)
  from assms(1) e(1) have "desc_in_arena s e" by (simp add: ready_ok_def)
  with e(2) have "validate_bounds s' (rv_offset d) (ucast (rv_len d)) = Ok ()"
    by (simp add: validate_bounds_Ok desc_in_arena_def received_frame_def frame_of_def assms(3))
  then show ?thesis by (simp add: payload_ptr_def)
qed

lemma create_from_take:
  assumes "\<not> sr_unlocked st" "sr_reader st" "create_take st = Some (st', Flow (d, snap, dropped))"
  shows "\<exists>st'' buf. create env now_rt st = Some (st'', Flow buf) \<and> ob_desc buf = d"
proof -
  have "ob_desc (snd (stamp cfg old d snap dropped now_rt)) = d" for cfg old
    by (simp add: stamp_def Let_def)
  then show ?thesis
    using assms poll_loop_now [where body = create_take, OF assms(3), of env]
    by (auto simp: create_def split: prod.split) (metis snd_conv)
qed

text \<open>
  C25: with frames waiting, \<open>create\<close> returns a buffer at once, without waiting and without an error:
  in latest-only mode the second newest frame (the only one if there is just one), otherwise the
  oldest. The frame's payload is in bounds, and only in latest-only mode can frames be skipped.
\<close>

theorem create_hands_over:
  assumes "ready_ok (sr_region st)" and "rec_ok (sr_region st)" and "ready_queue (sr_region st) \<noteq> []"
    and "unat (h_rec_head (sr_region st)) + length (ready_queue (sr_region st)) < 2 ^ 64"
    and "sr_reader st" and "\<not> sr_unlocked st"
  shows "\<exists>st' buf. create env now_rt st = Some (st', Flow buf) \<and>
    received_frame (ob_desc buf) =
      (if ss_latest_only (sr_settings st)
       then ready_queue (sr_region st) ! (length (ready_queue (sr_region st)) - 2)
       else hd (ready_queue (sr_region st)))"
proof (cases "ss_latest_only (sr_settings st)")
  case True
  let ?s = "sr_region st" and ?q = "ready_queue (sr_region st)"
  obtain s' d where r: "try_recv_latest_desc ?s = (s', Ok (Some (d, of_nat (skip_count ?s))))"
    and d: "received_frame d = ?q ! (length ?q - 2)" and fr: "\<exists>s1 t. only_recycled ?s s1 \<and> s' = s1\<lparr>h_ready_tail := t\<rparr>"
    by (rule live_policy_step [OF assms(1-4)]) blast
  have "h_arena_size s' = h_arena_size ?s" using fr by (auto simp: only_recycled_def)
  moreover have "received_frame d \<in> set ?q" unfolding d using assms(3) by (intro nth_mem) (cases ?q; simp)
  ultimately have "payload_ptr s' d = Ok (rv_offset d)" using frame_in_arena [OF assms(1)] by blast
  then have "create_take st = Some (st\<lparr>sr_region := s'\<rparr>, Flow (d, timeline_snapshot s', of_nat (skip_count ?s)))"
    using assms(6) True by (simp add: create_take_def r)
  from create_from_take [OF assms(6,5) this, of env now_rt] True d show ?thesis by auto
next
  case False
  let ?s = "sr_region st"
  obtain e es where q: "ready_entries ?s = e # es"
    using assms(3) by (cases "ready_entries ?s") (auto simp: ready_queue_def)
  note t = try_recv_desc_some [OF assms(1) q]
  have "payload_ptr (?s\<lparr>h_ready_tail := h_ready_tail ?s + 1\<rparr>) (received_of e) = Ok (rv_offset (received_of e))"
    by (rule frame_in_arena [OF assms(1)]) (simp_all add: ready_queue_def q)
  then have "\<exists>st' snap. create_take st = Some (st', Flow (received_of e, snap, 0))"
    using assms(6) False by (simp add: create_take_def t(1))
  then obtain st' snap where "create_take st = Some (st', Flow (received_of e, snap, 0))" by blast
  from create_from_take [OF assms(6,5) this, of env now_rt] False show ?thesis by (auto simp: ready_queue_def q)
qed

text \<open>\<open>start\<close> opens nothing, and changes nothing, if the path or the region is refused.\<close>

lemma start_refused:
  "resolve_backend os (ss_shm_path (sr_settings st)) = Err e \<Longrightarrow> src_start (src_open os be) st = (st, Err e)"
  "resolve_backend os (ss_shm_path (sr_settings st)) = Ok sel \<Longrightarrow> be (bs_backend sel) (bs_name sel) = Ok (rg, hdr) \<Longrightarrow>
     validate_header hdr (rg_len rg) = Err e \<Longrightarrow> src_start (src_open os be) st = (st, Err e)"
  by (simp_all add: src_start_def src_open_def reader_open_def)

text \<open>
  \<open>start\<close> attaches at the live end. When the region opens, every frame queued before is
  skipped, the element expects the generation it has itself just begun, has no clock offset, and
  owes a DISCONT; the startup generation has moved on by one.
\<close>

lemma start_attaches:
  assumes "opened (ss_shm_path (sr_settings st)) = Ok region" and "ready_ok region"
  shows "\<exists>st'. src_start opened st = (st', Ok ()) \<and> sr_reader st' \<and> \<not> sr_unlocked st' \<and>
    ready_queue (sr_region st') = [] \<and> ready_ok (sr_region st') \<and>
    tl_expected_gen (sr_timeline st') = h_timeline_gen (sr_region st') \<and>
    \<not> tl_offset_valid (sr_timeline st') \<and> tl_need_discont (sr_timeline st') \<and>
    h_startup_state (sr_region st') = STARTUP_SINK_READY \<and>
    h_startup_gen (sr_region st') = h_startup_gen region + 1"
proof -
  let ?r = "sync_startup_state region"
  have "h_timeline_gen ?r = h_timeline_gen region + 1" "h_startup_gen ?r = h_startup_gen region + 1"
    "h_startup_state ?r = STARTUP_SINK_READY"
    by (simp_all add: sync_startup_state_def)
  then show ?thesis
    using assms(1) sync_startup_state_attached [OF assms(2)]
    by (simp add: src_start_def Let_def timeline_snapshot_def fresh_timeline_def)
qed

lemma shm_truncate_ok:
  "ready_ok (shm.truncate w) = ready_ok w" "rec_ok (shm.truncate w) = rec_ok w"
  "ready_queue (shm.truncate w) = ready_queue w" "rec_queue (shm.truncate w) = rec_queue w"
  "h_rec_head (shm.truncate w) = h_rec_head w"
  by (simp_all add: shm.defs ready_ok_def rec_ok_def ready_queue_def rec_queue_def ready_entries_def
      rec_entries_def desc_in_arena_def)

definition demo_src :: "shm \<Rightarrow> src_state" where
  "demo_src region = \<lparr>sr_settings = default_src_settings, sr_reader = True, sr_unlocked = False,
     sr_timeline = demo_timeline, sr_region = region\<rparr>"

theorem create_hands_over_witness:
  "\<exists>st' buf. create [] (Some 5) (demo_src (shm.truncate crowded_region)) = Some (st', Flow buf) \<and>
     received_frame (ob_desc buf) = (2, 128, 32, 20)"
  using create_hands_over [of "demo_src (shm.truncate crowded_region)" "[]" "Some 5"]
  by (simp add: demo_src_def default_src_settings_def shm_truncate_ok crowded_region_ok)

end
