(* ===== verification/Playback.thy ===== *)
theory Playback
  imports Source Rendering
begin

text \<open>
  The whole way of a buffer: a source element attaches to the region of a running sink element, the
  sink renders a buffer, and the source hands it on. The two elements act on one region; the source's
  view of it is the writer without the producer's private fields (\<open>shm.truncate\<close>).
\<close>

section \<open>One region, two views\<close>

lemma truncate_sync: "shm.truncate (sync_startup_state w) = sync_startup_state (shm.truncate w)"
  by (simp add: sync_startup_state_def shm.defs)

lemma truncate_view:
  "timeline_snapshot (shm.truncate w) = timeline_snapshot w" "h_timeline_gen (shm.truncate w) = h_timeline_gen w"
  "payload_bytes (shm.truncate w) f = payload_bytes w f" "ready_entries (shm.truncate w) = ready_entries w"
  by (simp_all add: shm.defs timeline_snapshot_def payload_bytes_def ready_entries_def)

section \<open>The sink takes the buffer\<close>

text \<open>A whole memory of the element's own allocator, or bytes that fit the arena.\<close>

definition takes_buffer :: "sink_state \<Rightarrow> gst_buffer \<Rightarrow> bool" where
  "takes_buffer st b \<longleftrightarrow>
     (case map_readable (sk_writer st) b of
        Shm_Memory ptr len \<Rightarrow> \<exists>p. tracked st ptr p \<and> len = ucast (pl_len p)
      | Other_Memory bytes \<Rightarrow> length bytes < 2 ^ 32 \<and> length bytes \<le> unat (h_arena_size (sk_writer st)))"

lemma map_readable_shm: "map_readable w b = Shm_Memory ptr len \<Longrightarrow> length (gb_memories b) = 1"
  by (auto simp: map_readable_def split: list.splits)

lemma render_delivers:
  assumes acc: "accepting st" and room: "ring_room (sk_writer st)" and b: "takes_buffer st b"
    and ar: "roomy (h_arena_size (sk_writer st)) (max (w_allocator_align (sk_writer st)) 1)"
  obtains st' f k where "render ((inner, outer) # env) clock b st = Some (st', Flow ())"
    "writer_ok (sk_writer st')" "ready_queue (sk_writer st') = drop k (ready_queue (sk_writer st)) @ [f]"
    "snd (snd (snd f)) = buffer_pts_ns b"
    "payload_bytes (sk_writer st') (frame_buffer f) = memory_bytes (sk_writer st) (map_readable (sk_writer st) b)"
    "announces clock (buffer_pts_ns b) (sk_writer st) (sk_writer st')"
    "h_rec_head (sk_writer st') = h_rec_head (sk_writer st) \<or> h_rec_head (sk_writer st') = 0"
proof (cases "map_readable (sk_writer st) b")
  case (Shm_Memory ptr len)
  with b obtain p where p: "tracked st ptr p" "len = ucast (pl_len p)" by (auto simp: takes_buffer_def)
  obtain w where w: "render_round inner clock b (Shm_Memory ptr (ucast (pl_len p))) st =
       Some (st\<lparr>sk_tracker := (sk_tracker st)\<lparr>at_pending := (at_pending (sk_tracker st))(ptr := None)\<rparr>,
                sk_writer := w\<rparr>, Some (Flow ()))" "writer_ok w"
    "ready_queue w = ready_queue (sk_writer st) @ [(pl_buffer_id p, pl_offset p, pl_len p, buffer_pts_ns b)]"
    "arena w = arena (sk_writer st)" "h_rec_head w = h_rec_head (sk_writer st)"
    "announces clock (buffer_pts_ns b) (sk_writer st) w"
    by (rule render_round_fast [OF acc p(1) room map_readable_shm [OF Shm_Memory], where env = inner and clock = clock]) blast
  have "payload_bytes w (pending_block p) = memory_bytes (sk_writer st) (map_readable (sk_writer st) b)"
    using memory_bytes_tracked [OF p(1)] by (simp add: Shm_Memory p(2) payload_bytes_def w(4))
  moreover have "render_round inner clock b (map_readable (sk_writer st) b) st =
       Some (st\<lparr>sk_tracker := (sk_tracker st)\<lparr>at_pending := (at_pending (sk_tracker st))(ptr := None)\<rparr>,
                sk_writer := w\<rparr>, Some (Flow ()))"
    using w(1) by (simp add: Shm_Memory p(2))
  note r = render_first_round [OF this, of outer env]
  ultimately show ?thesis
    using that [OF r, of 0 "(pl_buffer_id p, pl_offset p, pl_len p, buffer_pts_ns b)"] w(2,3,5,6)
    by (simp add: frame_buffer_def pending_block_def)
next
  case (Other_Memory bytes)
  then have big: "length bytes < 2 ^ 32" "length bytes \<le> unat (h_arena_size (sk_writer st))"
    and bytes: "memory_bytes (sk_writer st) (Other_Memory bytes) = bytes"
    using b by (simp_all add: takes_buffer_def memory_bytes_def)
  have slow: "fast_lease b (Other_Memory bytes) st = (sk_tracker st, None)" by (simp add: fast_lease_def)
  obtain w i off k where w: "render_round inner clock b (Other_Memory bytes) st = Some (st\<lparr>sk_writer := w\<rparr>, Some (Flow ()))"
    "writer_ok w" "ready_queue w = drop k (ready_queue (sk_writer st)) @ [(i, off, of_nat (length bytes), buffer_pts_ns b)]"
    "payload_bytes w (i, off, of_nat (length bytes)) = bytes" "announces clock (buffer_pts_ns b) (sk_writer st) w"
    "h_rec_head w = h_rec_head (sk_writer st) \<or> h_rec_head w = 0"
    by (rule render_round_copy [OF acc room big ar slow bytes, where env = inner and clock = clock]) blast
  have "render_round inner clock b (map_readable (sk_writer st) b) st = Some (st\<lparr>sk_writer := w\<rparr>, Some (Flow ()))"
    using w(1) by (simp add: Other_Memory)
  note r = render_first_round [OF this, of outer env]
  show ?thesis
    using that [OF r, of k "(i, off, of_nat (length bytes), buffer_pts_ns b)"] w(2-)
    by (simp add: Other_Memory bytes frame_buffer_def)
qed

section \<open>The source hands it on\<close>

lemma create_take_only:
  assumes ok: "ready_ok (sr_region st)" "rec_ok (sr_region st)" and q: "ready_entries (sr_region st) = [d]"
    and wrap: "unat (h_rec_head (sr_region st)) + 1 < 2 ^ 64" and un: "\<not> sr_unlocked st"
  shows "\<exists>t. create_take st = Some (st\<lparr>sr_region := (sr_region st)\<lparr>h_ready_tail := t\<rparr>\<rparr>,
    Flow (received_of d, timeline_snapshot (sr_region st), 0))"
proof -
  let ?s = "sr_region st"
  have rq: "ready_queue ?s = [frame_of d]" by (simp add: ready_queue_def q)
  have ptr: "payload_ptr (?s\<lparr>h_ready_tail := t\<rparr>) (received_of d) = Ok (rv_offset (received_of d))" for t
    by (rule frame_in_arena [OF ok(1)]) (simp_all add: rq)
  have snap: "timeline_snapshot (?s\<lparr>h_ready_tail := t\<rparr>) = timeline_snapshot ?s" for t
    by (simp add: timeline_snapshot_def)
  show ?thesis
  proof (cases "ss_latest_only (sr_settings st)")
    case True
    have "\<exists>t. try_recv_latest_desc ?s = (?s\<lparr>h_ready_tail := t\<rparr>, Ok (Some (received_of d, 0)))"
    proof (rule try_recv_latest_some [OF ok])
      fix s1 e t
      assume "try_recv_latest_desc ?s = (s1\<lparr>h_ready_tail := t\<rparr>, Ok (Some (received_of e, of_nat (skip_count ?s))))"
        "e = ready_entries ?s ! (length (ready_queue ?s) - 2)"
        "if length (ready_queue ?s) = 1 then s1 = ?s
         else fst (recycle_until (h_ready_tail ?s) (h_ready_head ?s - 2) 0 ?s) = s1"
      then show ?thesis by (auto simp: rq q skip_count_def)
    qed (use wrap in \<open>simp_all add: rq\<close>)
    then show ?thesis using True un by (auto simp: create_take_def ptr snap)
  next
    case False
    then show ?thesis using un try_recv_desc_some(1) [OF ok(1) q] by (auto simp: create_take_def ptr snap)
  qed
qed

text \<open>The first frame of a generation the element has not yet seen plays at once.\<close>

lemma first_frame_plays_now:
  assumes ok: "ready_ok (sr_region st)" "rec_ok (sr_region st)" and q: "ready_entries (sr_region st) = [d]"
    and wrap: "unat (h_rec_head (sr_region st)) + 1 < 2 ^ 64"
    and run: "sr_reader st" "\<not> sr_unlocked st" "ss_live_only (sr_settings st)"
    and fresh: "\<not> tl_offset_valid (sr_timeline st)" "tl_need_discont (sr_timeline st)"
      "tl_last_snapshot_seq (sr_timeline st) = 0"
    and snap: "ts_valid (timeline_snapshot (sr_region st))" "ts_seq (timeline_snapshot (sr_region st)) \<noteq> 0"
      "ts_producer_pts_ns (timeline_snapshot (sr_region st)) = rd_pts_ns d"
    and range: "0 \<le> sint (rd_pts_ns d)" "uint now < 2 ^ 63"
      "uint (ts_sink_mono_ns (timeline_snapshot (sr_region st))) < 2 ^ 63"
  shows "\<exists>t st' out. create env (Some now) st = Some (st', Flow out) \<and> ob_desc out = received_of d \<and>
    ob_pts out = Some now \<and> ob_discont out \<and> sr_region st' = (sr_region st)\<lparr>h_ready_tail := t\<rparr>"
proof -
  let ?snap = "timeline_snapshot (sr_region st)" and ?old = "sr_timeline st"
  from create_take_only [OF ok q wrap run(2)] obtain t where
    t: "create_take st = Some (st\<lparr>sr_region := (sr_region st)\<lparr>h_ready_tail := t\<rparr>\<rparr>, Flow (received_of d, ?snap, 0))" by blast
  define ts where "ts = (if ts_generation ?snap \<noteq> tl_expected_gen ?old
      then ?old\<lparr>tl_expected_gen := ts_generation ?snap, tl_offset_valid := False,
             tl_last_snapshot_seq := 0, tl_need_discont := True\<rparr> else ?old)"
  have ts: "\<not> tl_offset_valid ts" "tl_need_discont ts" "tl_last_snapshot_seq ts = 0"
    using fresh by (simp_all add: ts_def)
  have pts: "rv_pts_ns (received_of d) = rd_pts_ns d" by (simp add: received_of_def)
  have u: "usable ts ?snap" using snap range(1) ts(3) by (simp add: usable_def)
  have "\<exists>p. out_pts (update_clock_sync ts ?snap now) (received_of d) = Some p \<and>
      uint p = uint now + (sint (rv_pts_ns (received_of d)) - sint (ts_producer_pts_ns ?snap))"
    by (rule first_snapshot_aligns [OF u ts(1)]) (use range in \<open>simp_all add: pts snap(3)\<close>)
  then have "out_pts (update_clock_sync ts ?snap now) (received_of d) = Some now"
    by (auto simp: pts snap(3) intro: word_uint_eqI)
  then have out: "ob_pts (snd (stamp (sr_settings st) ?old (received_of d) ?snap 0 (Some now))) = Some now"
    "ob_discont (snd (stamp (sr_settings st) ?old (received_of d) ?snap 0 (Some now)))"
    "ob_desc (snd (stamp (sr_settings st) ?old (received_of d) ?snap 0 (Some now))) = received_of d"
    using run(3) ts(2) by (simp_all add: stamp_def Let_def ts_def [symmetric])
  show ?thesis
    using run(1,2) poll_loop_now [where body = create_take, OF t, of env] out
    by (cases "stamp (sr_settings st) ?old (received_of d) ?snap 0 (Some now)") (auto simp: create_def)
qed

text \<open>
  C5: from the sink to the source.  A source element attaches to the region of a running sink, then the
  sink renders a buffer with a time stamp, whole from its own allocator or copied from elsewhere.
  Both return at once, whatever else happens.  The source hands on a buffer with the same bytes,
  marked as a discontinuity and stamped with the running time of that moment: the first frame after
  attaching plays now, whatever was queued before, whatever the clocks of the two pipelines say and
  even if the sink had to reset the region to make room.
\<close>

theorem sink_to_source:
  assumes "accepting st" and "takes_buffer st b"
    and "roomy (h_arena_size (sk_writer st)) (max (w_allocator_align (sk_writer st)) 1)"
    and "unat (h_ready_head (sk_writer st)) + 1 < 2 ^ 64" and "unat (h_rec_head (sk_writer st)) + 1 < 2 ^ 64"
    and "unat (w_last_timeline_snapshot_gen (sk_writer st)) \<le> unat (h_timeline_gen (sk_writer st))"
    and "unat (h_timeline_gen (sk_writer st)) + 2 < 2 ^ 64" and "h_timeline_seq (sk_writer st) + 1 \<noteq> 0"
    and "gb_pts b = Some pts" and "0 \<le> sint pts" and "uint (snd clock) < 2 ^ 63" and "uint now < 2 ^ 63"
    and "ss_live_only (sr_settings src)"
    and "opened (ss_shm_path (sr_settings src)) = Ok (shm.truncate (sk_writer st))"
  shows "\<exists>src1 st1 src2 out. src_start opened src = (src1, Ok ()) \<and>
    sr_region src1 = shm.truncate (sync_startup_state (sk_writer st)) \<and>
    render ((inner, outer) # env) clock b (st\<lparr>sk_writer := sync_startup_state (sk_writer st)\<rparr>) = Some (st1, Flow ()) \<and>
    create env' (Some now) (src1\<lparr>sr_region := shm.truncate (sk_writer st1)\<rparr>) = Some (src2, Flow out) \<and>
    payload_bytes (sr_region src2) (held_buffer (ob_desc out)) =
      memory_bytes (sk_writer st) (map_readable (sk_writer st) b) \<and>
    ob_pts out = Some now \<and> ob_discont out"
proof -
  let ?w = "sk_writer st" and ?v = "sync_startup_state (sk_writer st)"
  let ?st = "st\<lparr>sk_writer := ?v\<rparr>"
  have ok: "writer_ok ?w" using assms(1) by (simp add: accepting_def)
  note v = sync_startup_state_attached [OF writer_okD(1) [OF ok]]
  have fr: "w_allocator ?v = w_allocator ?w" "w_arena ?v = w_arena ?w" "h_arena_size ?v = h_arena_size ?w"
    "arena ?v = arena ?w" "w_allocator_align ?v = w_allocator_align ?w" "h_ready_head ?v = h_ready_head ?w"
    "h_rec_head ?v = h_rec_head ?w" "h_timeline_gen ?v = h_timeline_gen ?w + 1"
    "h_timeline_seq ?v = h_timeline_seq ?w" "w_last_timeline_snapshot_gen ?v = w_last_timeline_snapshot_gen ?w"
    by (simp_all add: sync_startup_state_def w_arena_def)
  have mem: "memory_bytes ?v m = memory_bytes ?w m" for m
    by (simp add: memory_bytes_def fr split: gst_memory.split)
  then have "memory_bytes ?v = memory_bytes ?w" by blast
  then have mapped: "map_readable ?v b = map_readable ?w b" by (simp add: map_readable_def split: list.split)
  have "rec_ok ?v = rec_ok ?w" by (simp add: sync_startup_state_def rec_ok_def)
  then have okv: "writer_ok ?v" using v(1) ok by (simp add: writer_ok_def fr)
  have "h_ready_capacity ?v \<noteq> 0" using writer_okD(1) [OF okv] by (simp add: ready_ok_def ring_ok_def)
  then have room: "ring_room (sk_writer ?st)" using assms(4) by (simp add: ring_room_def v(2) fr unat_gt_0)
  have acc: "accepting ?st" using assms(1) okv by (simp add: accepting_def)
  have takes: "takes_buffer ?st b"
    using assms(2) by (simp add: takes_buffer_def mapped tracked_def fr split: gst_memory.splits)
  obtain st1 f k where r: "render ((inner, outer) # env) clock b ?st = Some (st1, Flow ())"
    "writer_ok (sk_writer st1)" "ready_queue (sk_writer st1) = drop k (ready_queue ?v) @ [f]"
    "snd (snd (snd f)) = buffer_pts_ns b"
    "payload_bytes (sk_writer st1) (frame_buffer f) = memory_bytes ?v (map_readable ?v b)"
    "announces clock (buffer_pts_ns b) ?v (sk_writer st1)"
    "h_rec_head (sk_writer st1) = h_rec_head ?v \<or> h_rec_head (sk_writer st1) = 0"
    by (rule render_delivers [OF acc room takes, where inner = inner and outer = outer and env = env and clock = clock])
      (use assms(3) in \<open>auto simp: fr\<close>)
  have pts: "buffer_pts_ns b = pts" by (simp add: buffer_pts_ns_def assms(9))
  have "map frame_of (ready_entries (sk_writer st1)) = [f]" using r(3) by (simp add: ready_queue_def [symmetric] v(2))
  then obtain d where q: "ready_entries (sk_writer st1) = [d]" and d: "frame_of d = f" by auto
  have dp: "rd_pts_ns d = pts" using r(4) d by (auto simp: frame_of_def pts)
  let ?r = "shm.truncate (sk_writer st1)"
  let ?src1 = "fst (src_start opened src)"
  have s1: "src_start opened src = (?src1, Ok ())" "sr_region ?src1 = shm.truncate ?v" "sr_reader ?src1"
    "\<not> sr_unlocked ?src1" "sr_settings ?src1 = sr_settings src" "\<not> tl_offset_valid (sr_timeline ?src1)"
    "tl_need_discont (sr_timeline ?src1)" "tl_last_snapshot_seq (sr_timeline ?src1) = 0"
    using assms(14) by (simp_all add: src_start_def Let_def fresh_timeline_def truncate_sync)
  have gen: "unat (h_timeline_gen ?w + 1) = unat (h_timeline_gen ?w) + 1"
    "unat (h_timeline_gen ?w + 1 + 1) = unat (h_timeline_gen ?w) + 2"
    using assms(7) unat_succ [of "h_timeline_gen ?w"] unat_succ [of "h_timeline_gen ?w + 1"] by simp_all
  have "h_timeline_gen (sk_writer st1) \<noteq> w_last_timeline_snapshot_gen ?v"
    using r(6) gen assms(6) unfolding announces_def fr by auto
  then have snap: "ts_valid (timeline_snapshot ?r)" "ts_seq (timeline_snapshot ?r) = h_timeline_seq ?w + 1"
    "ts_sink_mono_ns (timeline_snapshot ?r) = snd clock" "ts_producer_pts_ns (timeline_snapshot ?r) = pts"
    using r(6) assms(10) by (auto simp: announces_def truncate_view fr pts pts_as_u64_def)
  have "\<exists>t st' out. create env' (Some now) (?src1\<lparr>sr_region := ?r\<rparr>) = Some (st', Flow out) \<and>
      ob_desc out = received_of d \<and> ob_pts out = Some now \<and> ob_discont out \<and> sr_region st' = ?r\<lparr>h_ready_tail := t\<rparr>"
    using first_frame_plays_now [of "?src1\<lparr>sr_region := ?r\<rparr>" d now env'] s1 snap dp assms(5,8,10-13) r(7)
      writer_okD(1,2) [OF r(2)]
    by (auto simp: shm_truncate_ok truncate_view q fr)
  then obtain t src2 out where o: "create env' (Some now) (?src1\<lparr>sr_region := ?r\<rparr>) = Some (src2, Flow out)"
    "ob_desc out = received_of d" "ob_pts out = Some now" "ob_discont out" "sr_region src2 = ?r\<lparr>h_ready_tail := t\<rparr>" by blast
  have "held_buffer (ob_desc out) = frame_buffer f"
    using o(2) d by (metis buffer_conv(2) received_frame_of)
  moreover have "payload_bytes (?r\<lparr>h_ready_tail := t\<rparr>) x = payload_bytes (sk_writer st1) x" for x
    using truncate_view(3) [of "sk_writer st1" x] by (simp add: payload_bytes_def)
  ultimately have "payload_bytes (sr_region src2) (held_buffer (ob_desc out)) = memory_bytes ?w (map_readable ?w b)"
    using r(5) by (simp add: o(5) mem mapped)
  with s1(1,2) r(1) o(1,3,4) show ?thesis by blast
qed

section \<open>A concrete instance\<close>

lemma small_timeline:
  "h_timeline_gen (small_writer 2) = 0" "h_timeline_seq (small_writer 2) = 0"
  "w_last_timeline_snapshot_gen (small_writer 2) = 0"
proof -
  have "arena_start 2 2 = 8192" by (simp add: arena_start_def align_up_nat_def)
  then show "h_timeline_gen (small_writer 2) = 0" "h_timeline_seq (small_writer 2) = 0"
    "w_last_timeline_snapshot_gen (small_writer 2) = 0"
    by (simp_all add: small_writer_def writer_create_def small_backend_def small_config_def default_config_def
        map_layout_eq create_defs)
qed

definition three_bytes :: gst_buffer where
  "three_bytes = \<lparr>gb_memories = [Other_Memory [1, 2, 3]], gb_pts = Some 7\<rparr>"

theorem sink_to_source_witness:
  "\<exists>src1 st1 src2 out.
     src_start (\<lambda>_. Ok (shm.truncate (small_writer 2))) (src_stop (demo_src (shm.truncate (small_writer 2)))) = (src1, Ok ()) \<and>
     render [([], id)] (0, 1000) three_bytes ((demo_sink (small_writer 2))\<lparr>sk_writer := sync_startup_state (small_writer 2)\<rparr>)
       = Some (st1, Flow ()) \<and>
     create [] (Some 5000) (src1\<lparr>sr_region := shm.truncate (sk_writer st1)\<rparr>) = Some (src2, Flow out) \<and>
     payload_bytes (sr_region src2) (held_buffer (ob_desc out)) = [1, 2, 3] \<and> ob_pts out = Some 5000 \<and> ob_discont out"
proof -
  let ?st = "demo_sink (small_writer 2)" and ?src = "src_stop (demo_src (shm.truncate (small_writer 2)))"
  have w: "sk_writer ?st = small_writer 2" by (simp add: demo_sink_def)
  have takes: "takes_buffer ?st three_bytes"
    by (simp add: takes_buffer_def three_bytes_def map_readable_def w small_facts)
  have bytes: "memory_bytes (sk_writer ?st) (map_readable (sk_writer ?st) three_bytes) = [1, 2, 3]"
    by (simp add: three_bytes_def map_readable_def memory_bytes_def)
  have live: "ss_live_only (sr_settings ?src)" by (simp add: src_stop_def demo_src_def default_src_settings_def)
  have room: "roomy (h_arena_size (sk_writer ?st)) (max (w_allocator_align (sk_writer ?st)) 1)"
    by (simp add: w small_facts roomy_def unat_max)
  have pts: "gb_pts three_bytes = Some 7" by (simp add: three_bytes_def)
  have counters: "unat (h_ready_head (sk_writer ?st)) + 1 < 2 ^ 64" "unat (h_rec_head (sk_writer ?st)) + 1 < 2 ^ 64"
    "unat (w_last_timeline_snapshot_gen (sk_writer ?st)) \<le> unat (h_timeline_gen (sk_writer ?st))"
    "unat (h_timeline_gen (sk_writer ?st)) + 2 < 2 ^ 64" "h_timeline_seq (sk_writer ?st) + 1 \<noteq> 0"
    by (simp_all add: w small_facts small_timeline)
  show ?thesis
    using sink_to_source [OF demo_sink_ready(1) takes room counters pts _ _ _ live,
        of "(0, 1000)" 5000 "\<lambda>_. Ok (shm.truncate (small_writer 2))" "[]" id "[]" "[]"] bytes
    by (auto simp: w)
qed

end
