(* ===== verification/Soundness.thy ===== *)
theory Soundness
  imports Ownership
begin

text \<open>
  Well-formedness of the system under every use: a reset of the allocator and a reused id, which
  break ownership, are allowed here. What remains is that both rings and the allocator stay well
  formed, that every descriptor in circulation lies inside the arena, and that no call panics.
\<close>

definition buffer_in_arena :: "sys \<Rightarrow> buffer \<Rightarrow> bool" where
  "buffer_in_arena s b \<longleftrightarrow> in_bounds (h_arena_size (sy_writer s)) (buffer_range b)"

definition well_formed :: "sys \<Rightarrow> bool" where
  "well_formed s \<longleftrightarrow> writer_ok (sy_writer s) \<and> (\<forall>b\<in>set (circulating s). buffer_in_arena s b) \<and>
     (\<forall>l\<in>set (sy_pending s). ls_ptr l = w_arena (sy_writer s) + ls_offset l)"

text \<open>A step with its counters below their range, and an allocation whose sums do not wrap.\<close>

definition unwrapped :: "sys_op \<Rightarrow> sys \<Rightarrow> bool" where
  "unwrapped x s \<longleftrightarrow> counters_low (sy_writer s) \<and>
     (case x of Lease sz align \<Rightarrow> roomy (h_arena_size (sy_writer s)) (max align 1) | _ \<Rightarrow> True)"

inductive unwrapped_run :: "sys \<Rightarrow> sys \<Rightarrow> bool" for s where
  start: "unwrapped_run s s"
| step: "unwrapped_run s s1 \<Longrightarrow> unwrapped x s1 \<Longrightarrow> sys_exec x s1 = Some s2 \<Longrightarrow> unwrapped_run s s2"

text \<open>The result of the call a step makes is no panic and no error of the protocol.\<close>

definition call_sound :: "sys_op \<Rightarrow> sys \<Rightarrow> bool" where
  "call_sound x s \<longleftrightarrow>
     (case x of
        Lease sz align \<Rightarrow> is_ok (snd (alloc_lease (sy_writer s) sz align)) \<or>
          snd (alloc_lease (sy_writer s) sz align) = Err Exhausted
      | Publish k pts clock \<Rightarrow>
          (if k < length (sy_pending s)
           then (case publish_lease_try clock (sy_pending s ! k) pts (sy_writer s) of
                   None \<Rightarrow> True | Some (w, r) \<Rightarrow> r = Ok ())
           else True)
      | Drain \<Rightarrow> is_ok (snd (drain_recycles (sy_writer s)))
      | Receive \<Rightarrow> is_ok (snd (try_recv_desc (sy_writer s)))
      | Receive_Latest \<Rightarrow> is_ok (snd (try_recv_latest_desc (sy_writer s)))
      | Give_Back k status \<Rightarrow>
          (if k < length (sy_held s)
           then (let d = sy_held s ! k
                 in case recycle_desc_try (rv_buffer_id d) (rv_offset d) (rv_len d) status (sy_writer s) of
                      None \<Rightarrow> True | Some (w, r) \<Rightarrow> r = Ok ())
           else True)
      | _ \<Rightarrow> True)"

lemma well_formed_moves:
  assumes "well_formed s" "writer_ok (sy_writer s')" "set (circulating s') \<subseteq> set (circulating s)" "same_arena s s'"
  shows "well_formed s'"
  using assms by (auto simp: well_formed_def same_arena_def buffer_in_arena_def)

lemma well_formed_moved: "well_formed s \<Longrightarrow> moves s s' \<Longrightarrow> well_formed s'"
  using well_formed_moves [of s s'] set_mset_mono [of "mset (circulating s')" "mset (circulating s)"]
  by (simp add: moves_def)

lemma well_formed_pending:
  assumes "well_formed s" "k < length (sy_pending s)"
  shows "lease_in_arena (sy_writer s) (sy_pending s ! k, pts, clock)"
proof -
  have "lease_buffer (sy_pending s ! k) \<in> set (circulating s)" using assms(2) by (simp add: circulating_def)
  then have "buffer_in_arena s (lease_buffer (sy_pending s ! k))" using assms(1) by (simp add: well_formed_def)
  then show ?thesis by (simp add: buffer_in_arena_def lease_in_arena_def in_bounds_def lease_buffer_def buffer_range_def)
qed

lemma well_formed_lease:
  assumes wf: "well_formed s" and u: "unwrapped (Lease sz align) s" and x: "sys_exec (Lease sz align) s = Some s'"
  shows "well_formed s' \<and> call_sound (Lease sz align) s"
proof -
  let ?w = "sy_writer s" and ?q = "ready_queue (sy_writer s)"
  have ok: "writer_ok ?w" using wf by (simp add: well_formed_def)
  have room: "roomy (h_arena_size ?w) (max align 1)" using u by (simp add: unwrapped_def)
  obtain w r where r: "alloc_lease ?w sz align = (w, r)" by force
  have "\<exists>k. writer_ok w \<and> h_arena_size w = h_arena_size ?w \<and> w_arena w = w_arena ?w \<and>
      ready_queue w = drop k ?q \<and> set (rec_queue w) \<subseteq> set (rec_queue ?w) \<and>
      (case r of Ok l \<Rightarrow> ls_ptr l = w_arena ?w + ls_offset l \<and> in_bounds (h_arena_size ?w) (ls_offset l, ucast (ls_len l))
       | Err e \<Rightarrow> e = Exhausted | Panic \<Rightarrow> False)"
  proof (cases "drops_needed ?w sz align")
    case None
    note n = alloc_lease_no_room [OF ok None r]
    have "case r of Ok l \<Rightarrow> ls_ptr l = w_arena ?w + ls_offset l \<and> in_bounds (h_arena_size ?w) (ls_offset l, ucast (ls_len l))
       | Err e \<Rightarrow> e = Exhausted | Panic \<Rightarrow> False"
      using n(13,14) by (cases "unat sz \<le> unat (h_arena_size ?w)") (auto simp: in_bounds_def)
    with n show ?thesis by (intro exI [of _ "length ?q"]) simp
  next
    case (Some k)
    show ?thesis
    proof (rule alloc_lease_room [OF ok room Some r])
      fix l
      assume l: "r = Ok l" "writer_ok w" "ready_queue w = drop k ?q" "rec_queue w = rec_queue ?w" "same_region ?w w"
        "ls_ptr l = w_arena ?w + ls_offset l" "in_bounds (h_arena_size ?w) (ls_offset l, ucast sz)" "ls_len l = sz"
      then show ?thesis by (intro exI [of _ k]) (simp add: same_region_def)
    qed
  qed
  then obtain k where w: "writer_ok w" "h_arena_size w = h_arena_size ?w" "w_arena w = w_arena ?w"
      "ready_queue w = drop k ?q" "set (rec_queue w) \<subseteq> set (rec_queue ?w)"
    and l: "case r of Ok l \<Rightarrow> ls_ptr l = w_arena ?w + ls_offset l \<and> in_bounds (h_arena_size ?w) (ls_offset l, ucast (ls_len l))
       | Err e \<Rightarrow> e = Exhausted | Panic \<Rightarrow> False" by blast
  have old: "well_formed (s\<lparr>sy_writer := w\<rparr>)"
  proof (rule well_formed_moves [OF wf])
    show "set (circulating (s\<lparr>sy_writer := w\<rparr>)) \<subseteq> set (circulating s)"
      using w(5) set_drop_subset [of k ?q] by (auto simp: circulating_def w(4))
  qed (use w in \<open>simp_all add: same_arena_def\<close>)
  show ?thesis
  proof (cases r)
    case (Ok a)
    have s': "s' = s\<lparr>sy_writer := w, sy_pending := sy_pending s @ [a]\<rparr>" using x by (simp add: r Ok)
    have "set (circulating s') = insert (lease_buffer a) (set (circulating (s\<lparr>sy_writer := w\<rparr>)))"
      by (auto simp: s' circulating_def)
    moreover have "buffer_in_arena s' (lease_buffer a)" using l Ok w(2)
      by (simp add: buffer_in_arena_def s' lease_buffer_def buffer_range_def)
    ultimately show ?thesis using old l Ok w(3)
      by (auto simp: well_formed_def s' buffer_in_arena_def call_sound_def r)
  next
    case (Err e)
    then show ?thesis using x old l by (simp add: r call_sound_def)
  next
    case Panic
    then show ?thesis using l by simp
  qed
qed

lemma call_sound_other:
  assumes wf: "well_formed s" and u: "counters_low (sy_writer s)" and x: "\<forall>sz align. x \<noteq> Lease sz align"
  shows "call_sound x s"
proof -
  let ?w = "sy_writer s"
  have ok: "writer_ok ?w" using wf by (simp add: well_formed_def)
  note o = writer_okD [OF ok]
  have low: "unat (h_ready_head ?w) + 1 < 2 ^ 64" "unat (h_rec_head ?w) + length (ready_queue ?w) < 2 ^ 64"
    "unat (h_rec_head ?w) + 1 < 2 ^ 64"
    using u by (simp_all add: counters_low_def)
  show ?thesis
  proof (cases x)
    case (Lease sz align)
    with x show ?thesis by blast
  next
    case (Publish k pts clock)
    have "r = Ok ()" if "k < length (sy_pending s)" "publish_lease_try clock (sy_pending s ! k) pts ?w = Some (w, r)" for w r
      using publish_in_arena(1) [OF ok low(1) well_formed_pending [OF wf that(1)] that(2)] .
    then show ?thesis by (auto simp: call_sound_def Publish split: option.split)
  next
    case Drain
    then show ?thesis by (simp add: call_sound_def drain_recycles_def drain_loop_all [OF o(2)])
  next
    case Receive
    show ?thesis
    proof (cases "ready_entries ?w")
      case Nil
      then show ?thesis using try_recv_desc_empty [OF o(1)] by (simp add: call_sound_def Receive ready_queue_def)
    next
      case (Cons d ds)
      then show ?thesis using try_recv_desc_some(1) [OF o(1) Cons] by (simp add: call_sound_def Receive)
    qed
  next
    case Receive_Latest
    show ?thesis
    proof (cases "ready_queue ?w = []")
      case True
      then show ?thesis using try_recv_latest_empty [OF o(1)] by (simp add: call_sound_def Receive_Latest)
    next
      case False
      show ?thesis by (rule live_policy_step [OF o(1,2) False low(2)]) (simp add: call_sound_def Receive_Latest)
    qed
  next
    case (Give_Back k status)
    let ?d = "sy_held s ! k"
    have "if rec_space ?w = 0 then try_recycle_desc (rv_buffer_id ?d) (rv_offset ?d) (rv_len ?d) status ?w = (?w, Ok False)
      else \<exists>s'. try_recycle_desc (rv_buffer_id ?d) (rv_offset ?d) (rv_len ?d) status ?w = (s', Ok True)"
      using try_recycle_desc_cases [OF o(2) low(3), of "rv_buffer_id ?d" "rv_offset ?d" "rv_len ?d" status]
      by (auto split: if_splits)
    then show ?thesis by (auto simp: call_sound_def Give_Back Let_def recycle_desc_try_eq split: if_splits)
  qed (simp_all add: call_sound_def)
qed

lemma well_formed_step:
  assumes wf: "well_formed s" and u: "unwrapped x s" and x: "sys_exec x s = Some s'"
  shows "well_formed s' \<and> call_sound x s"
proof (cases "\<exists>sz align. x = Lease sz align")
  case True
  then show ?thesis using well_formed_lease [OF wf] u x by blast
next
  case False
  have low: "counters_low (sy_writer s)" using u by (simp add: unwrapped_def)
  have ok: "writer_ok (sy_writer s)" using wf by (simp add: well_formed_def)
  have "well_formed s'"
  proof (cases x)
    case (Publish k pts clock)
    then show ?thesis
      using publish_moves [OF ok low well_formed_pending [OF wf]] x well_formed_moved [OF wf] by blast
  next
    case (Cancel k)
    note f = cancel_frame [OF ok x [unfolded Cancel]]
    have "set (circulating s') \<subseteq> set (circulating s)" using f(3) by (metis set_mset_mset set_subset_Cons)
    then show ?thesis by (rule well_formed_moves [OF wf f(1) _ f(2)])
  next
    case Drain
    note f = drain_frame [OF ok x [unfolded Drain]]
    have "set (circulating s') \<subseteq> set (circulating s)" using f(3) by (metis Un_upper2 set_append set_mset_mset)
    then show ?thesis by (rule well_formed_moves [OF wf f(1) _ f(2)])
  next
    case (Give_Back k status)
    with x give_back_moves [OF ok low] well_formed_moved [OF wf] show ?thesis by blast
  next
    case Receive_Latest
    with x latest_moves [OF ok low] well_formed_moved [OF wf] show ?thesis by blast
  qed (use False x well_formed_moved [OF wf] receive_moves [OF ok] attach_moves [OF ok] fill_moves [OF ok] in blast)+
  moreover have "call_sound x s" by (rule call_sound_other [OF wf low]) (use False in blast)
  ultimately show ?thesis by blast
qed

lemma call_sound_all:
  assumes "well_formed s" "unwrapped x s"
  shows "call_sound x s"
proof (cases "\<exists>sz align. x = Lease sz align")
  case True
  then obtain sz align where x: "x = Lease sz align" by blast
  have "\<exists>s'. sys_exec (Lease sz align) s = Some s'" by (simp split: prod.split res.split)
  then show ?thesis using well_formed_lease assms x by blast
next
  case False
  then show ?thesis using call_sound_other assms by (auto simp: unwrapped_def)
qed

lemma unwrapped_run_well_formed: "unwrapped_run s s' \<Longrightarrow> well_formed s \<Longrightarrow> well_formed s'"
  by (induction rule: unwrapped_run.induct) (use well_formed_step in blast)+

text \<open>
  C9: the system is well typed under every use. Start with a freshly created writer and let
  producer and consumer make any calls in any order, resets of the allocator and reused ids
  included: both rings and the allocator stay well formed, every buffer that is leased,
  queued, held or returned lies inside the arena, and no further call panics or
  reports an error, except that an allocation larger than the arena reports that it is exhausted.
  So the steps can go wrong about who owns a block, but never write outside the arena.
\<close>

theorem system_well_typed:
  assumes "writer_create be pid path cfg = Ok w"
    and "unwrapped_run \<lparr>sy_writer = w, sy_pending = [], sy_held = []\<rparr> s"
  shows "writer_ok (sy_writer s) \<and> (\<forall>b\<in>set (circulating s). buffer_in_arena s b) \<and>
    (\<forall>x. unwrapped x s \<longrightarrow> call_sound x s)"
proof -
  have "well_formed \<lparr>sy_writer = w, sy_pending = [], sy_held = []\<rparr>"
    using writer_create_fields [OF assms(1)] by (simp add: well_formed_def circulating_def)
  then have "well_formed s" by (rule unwrapped_run_well_formed [OF assms(2)])
  then show ?thesis using call_sound_all unfolding well_formed_def by blast
qed

theorem system_well_typed_witness:
  "\<exists>s. sys_exec (Lease 5000 64) \<lparr>sy_writer = small_writer 2, sy_pending = [], sy_held = []\<rparr> = Some s \<and>
     h_timeline_gen (sy_writer s) = h_timeline_gen (small_writer 2) + 1 \<and> writer_ok (sy_writer s) \<and> call_sound Receive s"
proof -
  let ?s = "\<lparr>sy_writer = small_writer 2, sy_pending = [], sy_held = []\<rparr>"
  have ok: "writer_ok (small_writer 2)" and q: "ready_queue (small_writer 2) = []" using small_ok(1,5) [of 2] by simp_all
  have room: "roomy (h_arena_size (small_writer 2)) (max 64 1)" by (simp add: small_arena roomy_def)
  have u: "unwrapped (Lease 5000 64) ?s" using room by (simp add: unwrapped_def counters_low_def q small_fields)
  obtain w r where r: "alloc_lease (small_writer 2) 5000 64 = (w, r)" by force
  have none: "drops_needed (small_writer 2) 5000 64 = None"
    by (rule alloc_lease_too_big [OF ok room]) (simp add: small_arena)
  note n = alloc_lease_no_room [OF ok none r]
  have x: "sys_exec (Lease 5000 64) ?s = Some (?s\<lparr>sy_writer := w\<rparr>)"
    using n(13) by (simp add: r small_arena)
  have run: "unwrapped_run ?s (?s\<lparr>sy_writer := w\<rparr>)" by (rule unwrapped_run.step [OF unwrapped_run.start u x])
  have "unwrapped Receive (?s\<lparr>sy_writer := w\<rparr>)" using n by (simp add: unwrapped_def counters_low_def)
  then show ?thesis using system_well_typed [OF small_create run] x n(4) by auto
qed

end
