(* ===== verification/Demo.thy ===== *)
theory Demo
  imports Delivery Text
begin

text \<open>
  The two demonstration programs, \<open>src/src/bin/shm2_producer.rs\<close> and
  \<open>src/src/bin/shm2_consumer.rs\<close>: the loops over \<open>Writer\<close> and \<open>Reader\<close>, without what they print.
  Running them in turn puts the whole transport together: every frame arrives, and in the end no
  block of the arena is left allocated.
\<close>

section \<open>The producer\<close>

text \<open>\<open>format!("frame={i};hello=shm-only;transport=gst-shm2").into_bytes()\<close>\<close>

definition frame_bytes :: "nat \<Rightarrow> u8 list" where
  "frame_bytes i =
     map (\<lambda>c. of_nat (of_char c)) (''frame='' @ show_nat i @ '';hello=shm-only;transport=gst-shm2'')"

text \<open>
  The loop around one \<open>publish\<close>. For each round: what the consumer does while \<open>publish\<close> polls, and
  while the loop sleeps before the next round.
\<close>

fun publish_loop ::
    "((writer \<Rightarrow> writer) list \<times> (writer \<Rightarrow> writer)) list \<Rightarrow> u64 \<times> u64 \<Rightarrow> u8 list \<Rightarrow> i64 \<Rightarrow> writer \<Rightarrow>
     (writer \<times> u32 res) option" where
  "publish_loop [] clock payload pts w = None"
| "publish_loop ((inner, outer) # env) clock payload pts w =
     (case publish inner clock payload pts w of
        None \<Rightarrow> None
      | Some (w1, Ok buffer_id) \<Rightarrow> Some (w1, Ok buffer_id)
      | Some (w1, Err e) \<Rightarrow>
          if e = Exhausted \<or> e = NoConsumer
          then publish_loop env clock payload pts (outer (fst (drain_recycles w1)))
          else Some (w1, Err e)
      | Some (w1, Panic) \<Rightarrow> Some (w1, Panic))"

definition produce_frame ::
    "((writer \<Rightarrow> writer) list \<times> (writer \<Rightarrow> writer)) list \<Rightarrow> u64 \<times> u64 \<Rightarrow> nat \<Rightarrow> writer \<Rightarrow>
     (writer \<times> u32 res) option" where
  "produce_frame env clock i w =
     (case publish_loop env clock (frame_bytes i) (of_nat i * 1000000) w of
        None \<Rightarrow> None
      | Some (w1, Ok buffer_id) \<Rightarrow>
          Some (if i mod 16 = 0 then fst (drain_recycles w1) else w1, Ok buffer_id)
      | Some (w1, r) \<Rightarrow> Some (w1, r))"

text \<open>The final rounds of draining, with what the consumer does after each, and the end.\<close>

definition producer_finish :: "(writer \<Rightarrow> writer) list \<Rightarrow> writer \<Rightarrow> writer" where
  "producer_finish env w = set_stopped (fold (\<lambda>e v. e (fst (drain_recycles v))) env w)"

section \<open>The consumer\<close>

text \<open>Trying to open the region until it succeeds, then attaching: from the result of each attempt.\<close>

fun consumer_attach :: "'a shm_scheme res list \<Rightarrow> 'a shm_scheme option" where
  "consumer_attach [] = None"
| "consumer_attach (r # rs) = (case r of Ok v \<Rightarrow> Some (sync_startup_state v) | _ \<Rightarrow> consumer_attach rs)"

definition consume_frame ::
    "('a shm_scheme \<Rightarrow> 'a shm_scheme) list \<Rightarrow> ('a shm_scheme \<Rightarrow> 'a shm_scheme) list \<Rightarrow> 'a shm_scheme \<Rightarrow>
     ('a shm_scheme \<times> received_buffer res) option" where
  "consume_frame env1 env2 v =
     (case recv_blocking env1 v of
        None \<Rightarrow> None
      | Some (v1, Ok buf) \<Rightarrow>
          (case recycle_buffer env2 buf v1 of
             None \<Rightarrow> None
           | Some (v2, Ok _) \<Rightarrow> Some (v2, Ok buf)
           | Some (v2, Err e) \<Rightarrow> Some (v2, Err e)
           | Some (v2, Panic) \<Rightarrow> Some (v2, Panic))
      | Some (v1, r) \<Rightarrow> Some (v1, r))"

section \<open>Both in turn\<close>

text \<open>Frame \<open>i\<close> is produced, then consumed; nothing polls. \<open>clock\<close>: the time of each publish.\<close>

fun demo_run :: "(nat \<Rightarrow> u64 \<times> u64) \<Rightarrow> nat \<Rightarrow> nat \<Rightarrow> writer \<Rightarrow> (writer \<times> received_buffer list) option" where
  "demo_run clock i 0 w = Some (w, [])"
| "demo_run clock i (Suc n) w =
     (case produce_frame [([], id)] (clock i) i w of
        Some (w1, Ok _) \<Rightarrow>
          (case consume_frame [] [] w1 of
             Some (w2, Ok buf) \<Rightarrow>
               (case demo_run clock (Suc i) n w2 of
                  None \<Rightarrow> None
                | Some (w3, bufs) \<Rightarrow> Some (w3, buf # bufs))
           | _ \<Rightarrow> None)
      | _ \<Rightarrow> None)"

lemma length_show_nat: "n < 10 ^ Suc k \<Longrightarrow> length (show_nat n) \<le> Suc k"
proof (induction k arbitrary: n)
  case 0
  then show ?case by (simp add: show_nat.simps [of n])
next
  case (Suc k)
  then have "n div 10 < 10 ^ Suc k" by (simp add: less_mult_imp_div_less)
  with Suc.IH [of "n div 10"] show ?case by (simp add: show_nat.simps [of n])
qed

lemma length_frame_bytes: "i < 10 ^ 18 \<Longrightarrow> length (frame_bytes i) \<le> 64"
  using length_show_nat [of i 17] by (simp add: frame_bytes_def)

text \<open>What holds before frame \<open>i\<close> is produced.\<close>

definition demo_ok :: "nat \<Rightarrow> writer \<Rightarrow> bool" where
  "demo_ok i w \<longleftrightarrow> writer_ok w \<and> ready_queue w = [] \<and>
     roomy (h_arena_size w) (max (w_allocator_align w) 1) \<and> 64 \<le> unat (h_arena_size w) \<and>
     17 \<le> unat (h_rec_capacity w) \<and> length (rec_queue w) \<le> (i + 15) mod 16 + 1 \<and>
     unat (h_ready_head w) \<le> i \<and> unat (h_rec_head w) \<le> i \<and>
     dom (live (w_allocator w)) \<subseteq> ring_ids w"

text \<open>Draining frees what was returned and nothing else.\<close>

lemma drain_props:
  assumes ok: "writer_ok w"
  defines "w' \<equiv> fst (drain_recycles w)"
  shows "writer_ok w'" "ready_queue w' = ready_queue w" "rec_queue w' = []" "h_arena_size w' = h_arena_size w"
    "w_allocator_align w' = w_allocator_align w" "h_rec_capacity w' = h_rec_capacity w"
    "h_ready_head w' = h_ready_head w" "h_rec_head w' = h_rec_head w" "arena w' = arena w"
    "dom (live (w_allocator w)) \<subseteq> ring_ids w \<Longrightarrow> dom (live (w_allocator w')) \<subseteq> ring_ids w'"
    "ready_entries w' = ready_entries w"
proof -
  note o = writer_okD [OF ok]
  let ?a = "free_all (map rc_buffer_id (rec_entries w)) (w_allocator w)"
  have w': "w' = w\<lparr>w_allocator := ?a, h_rec_tail := h_rec_head w, h_arena_used_bytes := used_bytes ?a\<rparr>"
    by (simp add: w'_def drain_recycles_def drain_loop_all [OF o(2)])
  show q: "writer_ok w'" "ready_queue w' = ready_queue w" "rec_queue w' = []" "ready_entries w' = ready_entries w"
    using ok alloc_wf_free_all
    by (simp_all add: w' writer_ok_def ready_ok_def rec_ok_def ready_queue_def rec_queue_def
        ready_entries_def rec_entries_def desc_in_arena_def ring_ok_def)
  show "h_arena_size w' = h_arena_size w" "w_allocator_align w' = w_allocator_align w"
    "h_rec_capacity w' = h_rec_capacity w" "h_ready_head w' = h_ready_head w" "h_rec_head w' = h_rec_head w"
    "arena w' = arena w"
    by (simp_all add: w')
  have ids: "fst ` set (rec_queue w) = set (map rc_buffer_id (rec_entries w))"
    by (simp add: rec_queue_def returned_of_def image_image)
  assume d: "dom (live (w_allocator w)) \<subseteq> ring_ids w"
  have "live (w_allocator w') i = None" if "i \<notin> fst ` set (ready_queue w)" for i
  proof (cases "i \<in> fst ` set (rec_queue w)")
    case True
    then show ?thesis by (simp add: w' live_free_all ids)
  next
    case False
    then have "i \<notin> dom (live (w_allocator w))" using d that by (auto simp: ring_ids_def)
    then have "live (w_allocator w) i = None" by (simp only: domIff not_not)
    then show ?thesis by (simp add: w' live_free_all)
  qed
  then have "dom (live (w_allocator w')) \<subseteq> fst ` set (ready_queue w)" by (metis domIff subsetI)
  then show "dom (live (w_allocator w')) \<subseteq> ring_ids w'" by (simp add: ring_ids_def q)
qed

text \<open>What holds between producing frame \<open>i\<close>, now described by \<open>d\<close>, and consuming it.\<close>

definition demo_mid :: "nat \<Rightarrow> ready_desc \<Rightarrow> writer \<Rightarrow> bool" where
  "demo_mid i d w \<longleftrightarrow> writer_ok w \<and> ready_entries w = [d] \<and>
     payload_bytes w (frame_buffer (frame_of d)) = frame_bytes i \<and> rd_pts_ns d = of_nat i * 1000000 \<and>
     roomy (h_arena_size w) (max (w_allocator_align w) 1) \<and> 64 \<le> unat (h_arena_size w) \<and>
     17 \<le> unat (h_rec_capacity w) \<and> length (rec_queue w) \<le> i mod 16 \<and>
     unat (h_ready_head w) \<le> Suc i \<and> unat (h_rec_head w) \<le> i \<and>
     dom (live (w_allocator w)) \<subseteq> ring_ids w"

lemma mod_before: "i mod 16 \<noteq> 0 \<Longrightarrow> (i + 15) mod 16 + 1 = i mod 16" for i :: nat
proof -
  assume i: "i mod 16 \<noteq> 0"
  have r: "i mod 16 < 16" by simp
  have "(i + 15) mod 16 = (i mod 16 + 15) mod 16" by (simp add: mod_simps)
  also have "i mod 16 + 15 = (i mod 16 - 1) + 16" using i by simp
  also have "\<dots> mod 16 = i mod 16 - 1" using r by simp
  finally show ?thesis using i by simp
qed

lemma produce_step:
  assumes ok: "demo_ok i w" and i: "i < 10 ^ 18"
  shows "\<exists>w1 buffer_id d. produce_frame [([], id)] clock i w = Some (w1, Ok buffer_id) \<and> demo_mid i d w1"
proof -
  let ?p = "frame_bytes i" and ?pts = "of_nat i * 1000000 :: i64"
  let ?sz = "of_nat (length ?p) :: u32"
  note w = ok [unfolded demo_ok_def]
  have len: "length ?p \<le> 64" by (rule length_frame_bytes [OF i])
  then have u: "unat ?sz = length ?p" by (simp add: unat_of_nat take_bit_nat_eq_self)
  then have fits: "unat ?sz \<le> unat (h_arena_size w)" using len w by simp
  have wok: "writer_ok w" and room: "roomy (h_arena_size w) (max (w_allocator_align w) 1)" using w by simp_all
  have "h_ready_capacity w \<noteq> 0" using writer_okD(1) [OF wok] by (simp add: ready_ok_def ring_ok_def)
  then have ring: "length (ready_queue w) < unat (h_ready_capacity w)" using w by (simp add: unat_gt_0)
  have wrap: "unat (h_ready_head w) + 1 < 2 ^ 64" using w i by simp
  obtain w' and l :: lease and k where p: "publish [] clock ?p ?pts w = Some (w', Ok (ls_buffer_id l))"
    "writer_ok w'" "ready_queue w' = drop k (ready_queue w) @ [(ls_buffer_id l, ls_offset l, ?sz, ?pts)]"
    "arena w' = write_bytes (unat (ls_offset l)) ?p (arena w)" "same_limits w w'"
    "h_ready_head w' = h_ready_head w + 1 \<or> h_ready_head w' = 1"
    "dom (live (w_allocator w)) \<subseteq> ring_ids w \<Longrightarrow> dom (live (w_allocator w')) \<subseteq> ring_ids w'"
    by (rule publish_ok [OF wok room fits ring wrap, where env = "[]" and clock = clock and pts = ?pts]) blast
  have "map frame_of (ready_entries w') = [(ls_buffer_id l, ls_offset l, ?sz, ?pts)]"
    using p(3) w by (simp add: ready_queue_def)
  then obtain d where q: "ready_entries w' = [d]" and d: "frame_of d = (ls_buffer_id l, ls_offset l, ?sz, ?pts)"
    by auto
  have pay: "payload_bytes w' (frame_buffer (frame_of d)) = ?p"
    by (simp add: d frame_buffer_def payload_bytes_def p(4) u)
  have pts: "rd_pts_ns d = ?pts" using d by (simp add: frame_of_def)
  have hd: "unat (h_ready_head w') \<le> Suc i" using p(6) w wrap unat_succ [OF wrap] by auto
  have lim: "h_arena_size w' = h_arena_size w" "w_allocator_align w' = w_allocator_align w"
    "h_rec_capacity w' = h_rec_capacity w" "unat (h_rec_head w') \<le> i" "length (rec_queue w') \<le> (i + 15) mod 16 + 1"
    using p(5) w by (auto simp: same_limits_def)
  have live: "dom (live (w_allocator w')) \<subseteq> ring_ids w'" using p(7) w by blast
  have loop: "publish_loop [([], id)] clock ?p ?pts w = Some (w', Ok (ls_buffer_id l))" by (simp add: p(1))
  show ?thesis
  proof (cases "i mod 16 = 0")
    case True
    note f = drain_props [OF p(2)]
    have "produce_frame [([], id)] clock i w = Some (fst (drain_recycles w'), Ok (ls_buffer_id l))"
      using True by (simp only: produce_frame_def loop option.case prod.case res.case if_True refl simp_thms)
    moreover have "payload_bytes (fst (drain_recycles w')) b = payload_bytes w' b" for b
      by (simp add: payload_bytes_def f(9))
    then have "demo_mid i d (fst (drain_recycles w'))"
      using f(1,3-8) f(10) [OF live] f(11) q pay pts w hd lim by (simp add: demo_mid_def)
    ultimately show ?thesis by blast
  next
    case False
    then have "(i + 15) mod 16 + 1 = i mod 16" by (rule mod_before)
    then have "demo_mid i d w'" using p(2) q pay pts w hd lim live by (simp add: demo_mid_def)
    moreover have "produce_frame [([], id)] clock i w = Some (w', Ok (ls_buffer_id l))"
      using False by (simp only: produce_frame_def loop option.case prod.case res.case if_False)
    ultimately show ?thesis by blast
  qed
qed

lemma consume_step:
  assumes mid: "demo_mid i d w" and i: "i < 10 ^ 18"
  shows "\<exists>w' buf. consume_frame [] [] w = Some (w', Ok buf) \<and> rb_payload buf = frame_bytes i \<and>
    rb_pts_ns buf = of_nat i * 1000000 \<and> demo_ok (Suc i) w'"
proof -
  note m = mid [unfolded demo_mid_def]
  have ok: "writer_ok w" and q: "ready_entries w = [d]" using m by simp_all
  note o = writer_okD [OF ok]
  let ?w = "w\<lparr>h_ready_tail := h_ready_tail w + 1\<rparr>"
  obtain buf where b: "recv_try w = Some (?w, Ok buf)" "rb_payload buf = frame_bytes i"
    "rb_pts_ns buf = of_nat i * 1000000" "rb_buffer_id buf = rd_buffer_id d"
    using recv_try_some [OF o(1) q] m by auto
  note t = try_recv_desc_some(2,3) [OF o(1) q]
  have rc: "rec_ok ?w" "rec_queue ?w = rec_queue w" using o(2) by (simp_all add: rec_ok_def rec_queue_def rec_entries_def)
  have wrap: "unat (h_rec_head ?w) + 1 < 2 ^ 64" using m i by simp
  have "i mod 16 < 16" by simp
  then have "length (rec_queue w) \<le> 15" using m by linarith
  then have space: "rec_space ?w \<noteq> 0" using m by (simp add: rec_space_def rc(2))
  let ?x = "(rb_buffer_id buf, rb_offset buf, of_nat (length (rb_payload buf)) :: u32, 0 :: u32)"
  obtain w' where w': "try_recycle_desc (rb_buffer_id buf) (rb_offset buf) (of_nat (length (rb_payload buf))) 0 ?w = (w', Ok True)"
    "only_recycled ?w w'" "rec_ok w'" "rec_queue w' = rec_queue w @ [?x]" "unat (h_rec_head w') = unat (h_rec_head w) + 1"
    using try_recycle_desc_cases [OF rc(1) wrap, of "rb_buffer_id buf" "rb_offset buf" "of_nat (length (rb_payload buf))" 0]
      space rc(2) by auto
  have "recycle_desc_try (rb_buffer_id buf) (rb_offset buf) (of_nat (length (rb_payload buf))) 0 ?w = Some (w', Ok ())"
    by (simp add: recycle_desc_try_eq w'(1))
  then have "consume_frame [] [] w = Some (w', Ok buf)"
    by (simp add: consume_frame_def recv_blocking_def b(1) recycle_buffer_def recycle_desc_def)
  moreover have "demo_ok (Suc i) w'"
  proof -
    note f = only_recycled_frame [OF w'(2)]
    have rd: "ready_ok w' = ready_ok ?w \<and> ready_entries w' = ready_entries ?w \<and> ready_queue w' = ready_queue ?w"
      by (rule ready_ok_cong) (simp_all add: f)
    then have r: "ready_ok w'" "ready_queue w' = []" using t by (simp_all add: ready_queue_def)
    have al: "w_allocator w' = w_allocator w" "w_allocator_align w' = w_allocator_align w"
      using w'(2) by (auto simp: only_recycled_def)
    have "ring_ids w = insert (rd_buffer_id d) (fst ` set (rec_queue w))"
      by (simp add: ring_ids_def ready_queue_def q frame_of_def)
    moreover have "ring_ids w' = insert (rd_buffer_id d) (fst ` set (rec_queue w))"
      by (simp add: ring_ids_def r(2) w'(4) b(4))
    ultimately have "dom (live (w_allocator w')) \<subseteq> ring_ids w'" using m al by simp
    moreover have "length (rec_queue w') \<le> (Suc i + 15) mod 16 + 1" using m by (simp add: w'(4))
    moreover have "writer_ok w'" using r(1) w'(3) o(3) f(5) al(1) by (simp add: writer_ok_def)
    ultimately show ?thesis using m f r(2) al(2) w'(5) by (simp add: demo_ok_def)
  qed
  ultimately show ?thesis using b(2,3) by blast
qed

lemma demo_run_delivers:
  "demo_ok i w \<Longrightarrow> i + n \<le> 10 ^ 18 \<Longrightarrow>
     \<exists>w' bufs. demo_run clock i n w = Some (w', bufs) \<and> demo_ok (i + n) w' \<and>
       map rb_payload bufs = map frame_bytes [i..<i + n] \<and>
       map rb_pts_ns bufs = map (\<lambda>j. of_nat j * 1000000) [i..<i + n]"
proof (induction n arbitrary: i w)
  case (Suc n)
  then have i: "i < 10 ^ 18" by simp
  obtain w1 buffer_id d where p: "produce_frame [([], id)] (clock i) i w = Some (w1, Ok buffer_id)" "demo_mid i d w1"
    using produce_step [OF Suc.prems(1) i] by blast
  obtain w2 buf where c: "consume_frame [] [] w1 = Some (w2, Ok buf)" "rb_payload buf = frame_bytes i"
    "rb_pts_ns buf = of_nat i * 1000000" "demo_ok (Suc i) w2"
    using consume_step [OF p(2) i] by blast
  obtain w3 bufs where r: "demo_run clock (Suc i) n w2 = Some (w3, bufs)" "demo_ok (Suc i + n) w3"
    "map rb_payload bufs = map frame_bytes [Suc i..<Suc i + n]"
    "map rb_pts_ns bufs = map (\<lambda>j. of_nat j * 1000000) [Suc i..<Suc i + n]"
    using Suc.IH [OF c(4)] Suc.prems(2) by auto
  have "demo_run clock i (Suc n) w = Some (w3, buf # bufs)" by (simp add: p(1) c(1) r(1))
  moreover have "[i..<i + Suc n] = i # [Suc i..<Suc i + n]" by (simp add: upt_rec)
  ultimately show ?case using r c(2,3) by (simp del: upt_Suc)
qed simp

text \<open>
  C6: the demonstration delivers every frame. On a freshly created region of any size with at least
  64 bytes of arena and 17 recycle entries, a producer and a consumer that take turns never wait,
  and the consumer receives exactly the payloads and time stamps produced, in order, for up to
  \<open>10 ^ 18\<close> frames, however often the arena was full. When the producer has drained the last
  returns, no byte of the arena is left allocated.
\<close>

theorem demo_delivers:
  assumes "writer_create be pid path cfg = Ok w" and "n \<le> 10 ^ 18" and "64 \<le> unat (h_arena_size w)"
    and "roomy (h_arena_size w) (max (w_allocator_align w) 1)" and "17 \<le> unat (h_rec_capacity w)"
    and "consumer_attach (replicate tries (Err RingEmpty) @ [Ok (set_running w)]) = Some w0"
  shows "\<exists>w' bufs. demo_run clock 0 n w0 = Some (w', bufs) \<and>
    map rb_payload bufs = map frame_bytes [0..<n] \<and>
    map rb_pts_ns bufs = map (\<lambda>i. of_nat i * 1000000) [0..<n] \<and>
    used_bytes (w_allocator (producer_finish (replicate 1000 id) w')) = 0"
proof -
  have "consumer_attach (replicate tries (Err RingEmpty) @ [Ok v]) = Some (sync_startup_state v)" for v :: writer
    by (induction tries) simp_all
  then have w0: "w0 = sync_startup_state (set_running w)" using assms(6) by simp
  note c = writer_create_fields [OF assms(1)]
  let ?r = "set_running w"
  have fr: "ready_ok ?r = ready_ok w \<and> ready_entries ?r = ready_entries w \<and> ready_queue ?r = ready_queue w"
    by (rule ready_ok_cong) (simp_all add: set_running_def)
  have "ready_ok w0" "ready_queue w0 = []"
    using sync_startup_state_attached [of ?r] fr writer_okD(1) [OF c(5)] by (simp_all add: w0)
  moreover have rec: "rec_ok w0 = rec_ok w \<and> rec_queue w0 = rec_queue w"
    by (rule rec_ok_cong) (simp_all add: w0 sync_startup_state_def set_running_def)
  moreover have f: "w_allocator w0 = w_allocator w" "h_arena_size w0 = h_arena_size w"
    "w_allocator_align w0 = w_allocator_align w" "h_rec_capacity w0 = h_rec_capacity w"
    "h_ready_head w0 = h_ready_head w" "h_rec_head w0 = h_rec_head w"
    by (simp_all add: w0 sync_startup_state_def set_running_def)
  moreover have "dom (live (w_allocator w)) = {}" using c(3) by simp
  ultimately have "demo_ok 0 w0"
    using assms(3-5) c(2,5-7) by (simp add: demo_ok_def writer_ok_def)
  then obtain w' bufs where r: "demo_run clock 0 n w0 = Some (w', bufs)" "demo_ok n w'"
    "map rb_payload bufs = map frame_bytes [0..<n]" "map rb_pts_ns bufs = map (\<lambda>i. of_nat i * 1000000) [0..<n]"
    using demo_run_delivers [of 0 w0 n clock] assms(2) by auto
  have "used_bytes (w_allocator (producer_finish (replicate 1000 id) w')) = 0"
  proof -
    have drained: "writer_ok v \<Longrightarrow> ready_queue v = [] \<Longrightarrow> dom (live (w_allocator v)) \<subseteq> ring_ids v \<Longrightarrow>
        writer_ok (fold (\<lambda>e v. e (fst (drain_recycles v))) (replicate (Suc k) id) v) \<and>
        dom (live (w_allocator (fold (\<lambda>e v. e (fst (drain_recycles v))) (replicate (Suc k) id) v))) = {}" for k v
    proof (induction k arbitrary: v)
      case 0
      from drain_props(10) [OF 0(1,3)] drain_props(1,2,3) [OF 0(1)] 0(2) show ?case by (simp add: ring_ids_def)
    next
      case (Suc k)
      from Suc.IH [of "fst (drain_recycles v)"] drain_props(10) [OF Suc.prems(1,3)] drain_props(1,2) [OF Suc.prems(1)] Suc.prems(2)
      show ?case by simp
    qed
    have "replicate 1000 id = replicate (Suc 999) (id :: writer \<Rightarrow> writer)" by simp
    then have "dom (live (w_allocator (producer_finish (replicate 1000 id) w'))) = {}"
      using drained [of w' 999] r(2) by (simp add: producer_finish_def set_stopped_def demo_ok_def del: replicate_Suc replicate.simps)
    then have "fl_used (w_allocator (producer_finish (replicate 1000 id) w')) = []"
      by (simp add: dom_map_of_conv_image_fst)
    then show ?thesis by (simp add: used_bytes_def)
  qed
  with r show ?thesis by blast
qed

lemma small_32:
  "h_arena_size (small_writer 32) = 4096" "w_allocator_align (small_writer 32) = 64" "h_rec_capacity (small_writer 32) = 32"
proof -
  have "arena_start 32 32 = 8192" by (simp add: arena_start_def align_up_nat_def)
  then show "h_arena_size (small_writer 32) = 4096" "w_allocator_align (small_writer 32) = 64"
    "h_rec_capacity (small_writer 32) = 32"
    by (simp_all add: small_writer_def writer_create_def small_backend_def small_config_def default_config_def
        map_layout_eq create_defs)
qed

theorem demo_delivers_witness:
  "\<exists>w' bufs. demo_run (\<lambda>i. (0, 0)) 0 100 (sync_startup_state (set_running (small_writer 32))) = Some (w', bufs) \<and>
    map rb_payload bufs = map frame_bytes [0..<100] \<and> length bufs = 100 \<and>
    used_bytes (w_allocator (producer_finish (replicate 1000 id) w')) = 0"
proof -
  have create: "writer_create small_backend 42 ''demo'' (small_config 32) = Ok (small_writer 32)"
    by (rule small_create) simp_all
  obtain w' bufs where "demo_run (\<lambda>i. (0, 0)) 0 100 (sync_startup_state (set_running (small_writer 32))) = Some (w', bufs)"
    "map rb_payload bufs = map frame_bytes [0..<100]"
    "used_bytes (w_allocator (producer_finish (replicate 1000 id) w')) = 0"
    using demo_delivers [OF create, of 100 "Suc 0" "sync_startup_state (set_running (small_writer 32))" "\<lambda>i. (0, 0)"]
    by (auto simp: small_32 roomy_def unat_max)
  moreover from this(2) have "length bufs = 100" by (metis length_map length_upt diff_zero)
  ultimately show ?thesis by blast
qed

end
