(* ===== verification/Interleaving.thy ===== *)
theory Interleaving
  imports Ownership
begin

text \<open>
  Producer and consumer at the grain of single memory accesses. A thread is a program counter, and
  each step of it is one load or store of a field of the shared header, or one field of a
  descriptor copied into or out of a slot of a ring, in the order of the source
  (\<open>src/src/transport.rs\<close>). What touches only the producer's own fields (the allocator, the block a
  lease owns) is one step. A schedule says whose turn it is, so a half written slot can be read and
  a counter can be stored late. Memory is sequentially consistent.
\<close>

section \<open>Descriptors field by field\<close>

text \<open>\<open>copied fs n src dst\<close>: the first \<open>n\<close> fields of \<open>src\<close> have been copied over \<open>dst\<close>.\<close>

definition copied :: "('d \<Rightarrow> 'd \<Rightarrow> 'd) list \<Rightarrow> nat \<Rightarrow> 'd \<Rightarrow> 'd \<Rightarrow> 'd" where
  "copied fs n src dst = fold (\<lambda>f d. f src d) (take n fs) dst"

definition ready_fields :: "(ready_desc \<Rightarrow> ready_desc \<Rightarrow> ready_desc) list" where
  "ready_fields =
     [\<lambda>s d. d\<lparr>rd_seq := rd_seq s\<rparr>, \<lambda>s d. d\<lparr>rd_offset := rd_offset s\<rparr>,
      \<lambda>s d. d\<lparr>rd_length := rd_length s\<rparr>, \<lambda>s d. d\<lparr>rd_buffer_id := rd_buffer_id s\<rparr>,
      \<lambda>s d. d\<lparr>rd_pts_ns := rd_pts_ns s\<rparr>, \<lambda>s d. d\<lparr>rd_dts_ns := rd_dts_ns s\<rparr>,
      \<lambda>s d. d\<lparr>rd_duration_ns := rd_duration_ns s\<rparr>, \<lambda>s d. d\<lparr>rd_flags := rd_flags s\<rparr>,
      \<lambda>s d. d\<lparr>rd_checksum := rd_checksum s\<rparr>, \<lambda>s d. d\<lparr>rd_reserved := rd_reserved s\<rparr>]"

definition recycle_fields :: "(recycle_desc \<Rightarrow> recycle_desc \<Rightarrow> recycle_desc) list" where
  "recycle_fields =
     [\<lambda>s d. d\<lparr>rc_seq := rc_seq s\<rparr>, \<lambda>s d. d\<lparr>rc_buffer_id := rc_buffer_id s\<rparr>,
      \<lambda>s d. d\<lparr>rc_status := rc_status s\<rparr>, \<lambda>s d. d\<lparr>rc_offset := rc_offset s\<rparr>,
      \<lambda>s d. d\<lparr>rc_length := rc_length s\<rparr>, \<lambda>s d. d\<lparr>rc_reserved := rc_reserved s\<rparr>]"

locale field_copy =
  fixes fields :: "('d \<Rightarrow> 'd \<Rightarrow> 'd) list"
  assumes all_fields: "fold (\<lambda>f d. f src d) fields dst = src"
    and some_field: "fields \<noteq> []"
begin

lemma copied_Suc: "n < length fields \<Longrightarrow> (fields ! n) src (copied fields n src dst) = copied fields (Suc n) src dst"
  by (simp add: copied_def take_Suc_conv_app_nth)

lemma copied_all: "copied fields (length fields) src dst = src"
  by (simp add: copied_def all_fields)

lemma copied_step:
  assumes "n < length fields" "d = copied fields n src old"
  shows "if Suc n < length fields then (fields ! n) src d = copied fields (Suc n) src old
    else (fields ! n) src d = src"
proof -
  have "Suc n = length fields" if "\<not> Suc n < length fields" using that assms(1) by simp
  with copied_Suc [OF assms(1), of src old] copied_all [of src old] assms(2) show ?thesis by auto
qed

end

interpretation ready_slot: field_copy ready_fields
  by unfold_locales (simp_all add: ready_fields_def)

interpretation recycle_slot: field_copy recycle_fields
  by unfold_locales (simp_all add: recycle_fields_def)

text \<open>One field of \<open>ring[(pos % cap) as usize] = x\<close>; \<open>None\<close> is the panic.\<close>

definition ring_put_field :: "('d \<Rightarrow> 'd \<Rightarrow> 'd) \<Rightarrow> 'd \<Rightarrow> 'd list \<Rightarrow> u64 \<Rightarrow> u64 \<Rightarrow> 'd list option" where
  "ring_put_field f x xs pos cap =
     (case ring_get xs pos cap of None \<Rightarrow> None | Some d \<Rightarrow> ring_put xs pos cap (f x d))"

section \<open>Calls and program counters\<close>

datatype producer_call =
    P_Lease u32 u64
  | P_Fill nat "u8 list"
  | P_Publish nat i64 "u64 \<times> u64"
  | P_Cancel nat
  | P_Drain
  | P_Emit i64 u64

datatype consumer_call =
    C_Receive
  | C_Receive_Latest
  | C_Give_Back nat u32
  | C_Snapshot

text \<open>
  A counter names what the thread does next; its arguments are the locals it still needs: the
  values loaded, the number of fields copied, the copy of the slot.
\<close>

datatype producer_pc =
    P_Idle
  | P_Dead
  | Alloc_Try u32 u64
  | Drop_Head u32 u64
  | Drop_Tail u32 u64 u64
  | Drop_Read u32 u64 u64 nat ready_desc
  | Drop_Store u32 u64 u64
  | Drop_Used u32 u64
  | Reset_Store u32 u64 nat
  | Alloc_Again u32 u64
  | Alloc_Failed
  | Pub_Head nat i64 "u64 \<times> u64"
  | Pub_Tail nat i64 "u64 \<times> u64" u64
  | Pub_Write nat i64 "u64 \<times> u64" u64 nat
  | Pub_Store nat i64 "u64 \<times> u64" u64
  | Used_Store i64 "u64 \<times> u64" u64
  | Mark_Load i64 "u64 \<times> u64" u64
  | Mark_Swap i64 "u64 \<times> u64" u64 u64
  | Beacon i64 "u64 \<times> u64" u64
  | Snap_Gen i64 u64 u64
  | Snap_Store i64 u64 u64 u64 nat
  | Drain_Head
  | Drain_Tail u64
  | Drain_Read u64 nat recycle_desc
  | Drain_Store u64
  | Drain_Used

text \<open>The locals of \<open>try_recv_latest_desc\<close>.\<close>

record latest =
  lt_head :: u64
  lt_tail :: u64
  lt_cur :: u64
  lt_dropped :: u64

definition lt_chosen :: "latest \<Rightarrow> u64" where
  "lt_chosen l = (if saturating_sub (lt_head l) (lt_tail l) = 1 then lt_tail l else lt_head l - 2)"

definition lt_new_tail :: "latest \<Rightarrow> u64" where
  "lt_new_tail l = (if saturating_sub (lt_head l) (lt_tail l) \<le> 1 then lt_head l else lt_head l - 1)"

datatype consumer_pc =
    C_Idle
  | C_Dead
  | Recv_Head
  | Recv_Tail u64
  | Recv_Read u64 nat ready_desc
  | Recv_Check u64 ready_desc
  | Recv_Store u64 ready_desc
  | Give_Head nat u32
  | Give_Tail nat u32 u64
  | Give_Write nat u32 u64 nat
  | Give_Store nat u32 u64
  | Latest_Head
  | Latest_Tail u64
  | Latest_Read latest nat ready_desc
  | Latest_Give_Head latest ready_desc
  | Latest_Give_Tail latest ready_desc u64
  | Latest_Give_Write latest ready_desc u64 nat
  | Latest_Give_Store latest ready_desc u64
  | Latest_Chosen latest nat ready_desc
  | Latest_Check latest ready_desc
  | Latest_Store latest ready_desc
  | Snap_Load nat snapshot

text \<open>
  What a step completes: a call of the atomic model, one round of \<open>drain_recycles\<close>, its last store,
  \<open>emit_timeline_snapshot\<close>, one round of \<open>try_recv_latest_desc\<close>, which gives the oldest queued
  frame back, or its end, which loses \<open>k\<close> frames and takes the next.
\<close>

datatype atom = Call sys_op | Drain_Round | Drain_End | Emit i64 u64 | Skip_Oldest | Take_After nat

definition skip_oldest :: "sys \<Rightarrow> sys option" where
  "skip_oldest s =
     (case ready_entries (sy_writer s) of
        [] \<Rightarrow> None
      | d # _ \<Rightarrow>
          (case try_recycle_desc (rd_buffer_id d) (rd_offset d) (rd_length d) 1 (sy_writer s) of
             (w, Ok True) \<Rightarrow> Some (s\<lparr>sy_writer := w\<lparr>h_ready_tail := h_ready_tail w + 1\<rparr>\<rparr>)
           | _ \<Rightarrow> None))"

definition take_after :: "nat \<Rightarrow> sys \<Rightarrow> sys option" where
  "take_after k s =
     (case drop k (ready_entries (sy_writer s)) of
        [] \<Rightarrow> None
      | d # _ \<Rightarrow>
          Some (s\<lparr>sy_writer := (sy_writer s)\<lparr>h_ready_tail := h_ready_tail (sy_writer s) + of_nat k + 1\<rparr>,
                  sy_held := sy_held s @ [received_of d]\<rparr>))"

fun atom_exec :: "atom \<Rightarrow> sys \<Rightarrow> sys option" where
  "atom_exec (Call x) s = sys_exec x s"
| "atom_exec Drain_Round s =
     (case drain_one (sy_writer s) of (w, Ok (Some _)) \<Rightarrow> Some (s\<lparr>sy_writer := w\<rparr>) | _ \<Rightarrow> None)"
| "atom_exec Drain_End s =
     Some (s\<lparr>sy_writer := (sy_writer s)\<lparr>h_arena_used_bytes := used_bytes (w_allocator (sy_writer s))\<rparr>\<rparr>)"
| "atom_exec Skip_Oldest s = skip_oldest s"
| "atom_exec (Take_After k) s = take_after k s"
| "atom_exec (Emit pts now) s = Some (s\<lparr>sy_writer := emit_timeline_snapshot now pts (sy_writer s)\<rparr>)"

fun atoms_exec :: "atom list \<Rightarrow> sys \<Rightarrow> sys option" where
  "atoms_exec [] s = Some s"
| "atoms_exec (x # xs) s = (case atom_exec x s of None \<Rightarrow> None | Some s' \<Rightarrow> atoms_exec xs s')"

section \<open>Straight-line stores\<close>

text \<open>
  The stores of \<open>force_timeline_snapshot\<close> and of \<open>reset_allocator_state\<close>, in order; the fields of
  the writer itself are set along with the last, and the new allocator with the first.
\<close>

definition snapshot_stores :: "i64 \<Rightarrow> u64 \<Rightarrow> u64 \<Rightarrow> u64 \<Rightarrow> (writer \<Rightarrow> writer) list" where
  "snapshot_stores pts now ready_head generation =
     [\<lambda>w. w\<lparr>h_timeline_sink_mono_ns := now\<rparr>,
      \<lambda>w. w\<lparr>h_timeline_producer_pts_ns := pts_as_u64 pts\<rparr>,
      \<lambda>w. w\<lparr>h_timeline_ready_head := ready_head\<rparr>,
      \<lambda>w. w\<lparr>h_timeline_snapshot_gen := generation\<rparr>,
      \<lambda>w. w\<lparr>h_timeline_seq := h_timeline_seq w + 1\<rparr>,
      \<lambda>w. w\<lparr>h_timeline_valid := 1,
             w_last_timeline_emit_ns := now,
             w_last_timeline_snapshot_gen := generation\<rparr>]"

definition reset_stores :: "(writer \<Rightarrow> writer) list" where
  "reset_stores =
     [\<lambda>w. w\<lparr>w_allocator := new_allocator (h_arena_size w), h_ready_head := 0\<rparr>,
      \<lambda>w. w\<lparr>h_ready_tail := 0\<rparr>,
      \<lambda>w. w\<lparr>h_rec_head := 0\<rparr>,
      \<lambda>w. w\<lparr>h_rec_tail := 0\<rparr>,
      \<lambda>w. w\<lparr>h_arena_used_bytes := 0\<rparr>,
      \<lambda>w. w\<lparr>h_arena_high_watermark := 0\<rparr>,
      \<lambda>w. w\<lparr>h_alloc_failures := 0\<rparr>,
      \<lambda>w. w\<lparr>h_timeline_gen := h_timeline_gen w + 1\<rparr>,
      \<lambda>w. w\<lparr>h_timeline_valid := 0\<rparr>]"

lemma reset_stores_all: "fold (\<lambda>f. f) reset_stores w = reset_allocator_state w"
  by (simp add: reset_stores_def reset_allocator_state_def)

lemma snapshot_stores_all:
  "fold (\<lambda>f. f) (snapshot_stores pts now ready_head (h_timeline_gen w)) w =
     force_timeline_snapshot now pts ready_head w"
  by (simp add: snapshot_stores_def force_timeline_snapshot_def Let_def)

text \<open>The loads of the consumer's \<open>timeline_snapshot\<close>, in order.\<close>

definition snapshot_loads :: "(writer \<Rightarrow> snapshot \<Rightarrow> snapshot) list" where
  "snapshot_loads =
     [\<lambda>w r. r\<lparr>ts_valid := (h_timeline_valid w \<noteq> 0)\<rparr>,
      \<lambda>w r. r\<lparr>ts_generation := h_timeline_gen w\<rparr>,
      \<lambda>w r. r\<lparr>ts_snapshot_gen := h_timeline_snapshot_gen w\<rparr>,
      \<lambda>w r. r\<lparr>ts_seq := h_timeline_seq w\<rparr>,
      \<lambda>w r. r\<lparr>ts_sink_mono_ns := h_timeline_sink_mono_ns w\<rparr>,
      \<lambda>w r. r\<lparr>ts_producer_pts_ns := h_timeline_producer_pts_ns w\<rparr>,
      \<lambda>w r. r\<lparr>ts_ready_head := h_timeline_ready_head w\<rparr>]"

lemma snapshot_loads_all: "fold (\<lambda>f. f w) snapshot_loads r = timeline_snapshot w"
  by (simp add: snapshot_loads_def timeline_snapshot_def)

definition blank_snapshot :: snapshot where
  "blank_snapshot =
     \<lparr>ts_generation = 0, ts_snapshot_gen = 0, ts_valid = False, ts_seq = 0, ts_sink_mono_ns = 0,
      ts_producer_pts_ns = 0, ts_ready_head = 0\<rparr>"

section \<open>Steps of the producer\<close>

text \<open>
  The result: where the thread goes, the new state, what the step completes, and whether it is calm:
  an allocation that finds no room, or is given the id of a live block, is not.
\<close>

type_synonym 'pc move = "'pc \<times> sys \<times> atom list \<times> bool"

abbreviation on_writer :: "(writer \<Rightarrow> writer) \<Rightarrow> sys \<Rightarrow> sys" where
  "on_writer f s \<equiv> s\<lparr>sy_writer := f (sy_writer s)\<rparr>"

definition fresh_lease :: "writer \<Rightarrow> u32 \<Rightarrow> u64 \<Rightarrow> bool" where
  "fresh_lease w sz align \<longleftrightarrow> roomy (h_arena_size w) (max align 1) \<and>
     (case alloc (w_allocator w) sz align of
        Some (a, x) \<Rightarrow> live (w_allocator w) (al_buffer_id x) = None
      | None \<Rightarrow> False)"

definition granted :: "free_list_allocator \<Rightarrow> allocation \<Rightarrow> sys \<Rightarrow> sys" where
  "granted a x s =
     s\<lparr>sy_writer := (sy_writer s)\<lparr>w_allocator := a\<rparr>,
       sy_pending := sy_pending s @ [lease_of (sy_writer s) x]\<rparr>"

text \<open>The first step of a call.\<close>

fun producer_start :: "producer_call \<Rightarrow> sys \<Rightarrow> producer_pc move" where
  "producer_start (P_Lease sz align) s = (Alloc_Try sz align, s, [], True)"
| "producer_start (P_Fill k bytes) s =
     (case sys_exec (Fill k bytes) s of
        Some s' \<Rightarrow> (P_Idle, s', [Call (Fill k bytes)], True) | None \<Rightarrow> (P_Idle, s, [], True))"
| "producer_start (P_Publish k pts clock) s =
     (if k < length (sy_pending s) then (Pub_Head k pts clock, s, [], True) else (P_Idle, s, [], True))"
| "producer_start (P_Cancel k) s =
     (case sys_exec (Cancel k) s of
        Some s' \<Rightarrow> (P_Idle, s', [Call (Cancel k)], True) | None \<Rightarrow> (P_Idle, s, [], True))"
| "producer_start P_Drain s = (Drain_Head, s, [], True)"
| "producer_start (P_Emit pts now) s =
     (Snap_Gen pts now (h_ready_head (sy_writer s)), s, [Emit pts now], True)"

fun alloc_step :: "producer_pc \<Rightarrow> sys \<Rightarrow> producer_pc move" where
  "alloc_step (Alloc_Try sz align) s =
     (case alloc (w_allocator (sy_writer s)) sz align of
        Some (a, x) \<Rightarrow>
          (P_Idle, granted a x s, [Call (Lease sz align)], fresh_lease (sy_writer s) sz align)
      | None \<Rightarrow> (Drop_Head sz align, s, [], False))"
| "alloc_step (Drop_Head sz align) s = (Drop_Tail sz align (h_ready_head (sy_writer s)), s, [], False)"
| "alloc_step (Drop_Tail sz align head) s =
     (let tail = h_ready_tail (sy_writer s)
      in if head = tail then (Reset_Store sz align 0, s, [], False)
         else (Drop_Read sz align tail 0 default_ready_desc, s, [], False))"
| "alloc_step (Drop_Read sz align tail n d) s =
     (case ring_get (ready (sy_writer s)) tail (ucast (h_ready_capacity (sy_writer s))) of
        None \<Rightarrow> (P_Dead, s, [], False)
      | Some src \<Rightarrow>
          let d' = (ready_fields ! n) src d
          in if Suc n < length ready_fields then (Drop_Read sz align tail (Suc n) d', s, [], False)
             else (Drop_Store sz align tail,
                   on_writer (\<lambda>w. w\<lparr>w_allocator := fst (free_by_id (w_allocator w) (rd_buffer_id d'))\<rparr>) s,
                   [], False))"
| "alloc_step (Drop_Store sz align tail) s =
     (Drop_Used sz align, on_writer (\<lambda>w. w\<lparr>h_ready_tail := tail + 1\<rparr>) s, [], False)"
| "alloc_step (Drop_Used sz align) s =
     (Alloc_Try sz align, on_writer (\<lambda>w. w\<lparr>h_arena_used_bytes := used_bytes (w_allocator w)\<rparr>) s, [], False)"
| "alloc_step (Reset_Store sz align n) s =
     (if Suc n < length reset_stores then Reset_Store sz align (Suc n) else Alloc_Again sz align,
      on_writer (reset_stores ! n) s, [], False)"
| "alloc_step (Alloc_Again sz align) s =
     (case alloc (w_allocator (sy_writer s)) sz align of
        Some (a, x) \<Rightarrow> (P_Idle, granted a x s, [], False)
      | None \<Rightarrow> (Alloc_Failed, s, [], False))"
| "alloc_step Alloc_Failed s =
     (P_Idle, on_writer (\<lambda>w. w\<lparr>h_alloc_failures := h_alloc_failures w + 1\<rparr>) s, [], False)"
| "alloc_step pc s = (pc, s, [], True)"

text \<open>\<open>publish_lease\<close>: the loop, then the usage metrics, then the beacon.\<close>

fun publish_step :: "producer_pc \<Rightarrow> sys \<Rightarrow> producer_pc move" where
  "publish_step (Pub_Head k pts clock) s = (Pub_Tail k pts clock (h_ready_head (sy_writer s)), s, [], True)"
| "publish_step (Pub_Tail k pts clock head) s =
     (if head - h_ready_tail (sy_writer s) < ucast (h_ready_capacity (sy_writer s))
      then (Pub_Write k pts clock head 0, s, [], True)
      else (Pub_Head k pts clock, s, [], True))"
| "publish_step (Pub_Write k pts clock head n) s =
     (case ring_put_field (ready_fields ! n) (ready_entry head (sy_pending s ! k) pts)
             (ready (sy_writer s)) head (ucast (h_ready_capacity (sy_writer s))) of
        None \<Rightarrow> (P_Dead, s, [], True)
      | Some slots \<Rightarrow>
          (if Suc n < length ready_fields then Pub_Write k pts clock head (Suc n)
           else Pub_Store k pts clock head,
           on_writer (\<lambda>w. w\<lparr>ready := slots\<rparr>) s, [], True))"
| "publish_step (Pub_Store k pts clock head) s =
     (Used_Store pts clock (head + 1),
      s\<lparr>sy_writer := (sy_writer s)\<lparr>h_ready_head := head + 1\<rparr>, sy_pending := vec_remove k (sy_pending s)\<rparr>,
      [Call (Publish k pts clock)], True)"
| "publish_step (Used_Store pts clock ready_head) s =
     (Mark_Load pts clock ready_head,
      on_writer (\<lambda>w. w\<lparr>h_arena_used_bytes := used_bytes (w_allocator w)\<rparr>) s, [], True)"
| "publish_step (Mark_Load pts clock ready_head) s =
     (let prev = h_arena_high_watermark (sy_writer s)
      in if used_bytes (w_allocator (sy_writer s)) > prev
         then (Mark_Swap pts clock ready_head prev, s, [], True)
         else (Beacon pts clock ready_head, s, [], True))"
| "publish_step (Mark_Swap pts clock ready_head prev) s =
     (if h_arena_high_watermark (sy_writer s) = prev
      then (Beacon pts clock ready_head,
            on_writer (\<lambda>w. w\<lparr>h_arena_high_watermark := used_bytes (w_allocator w)\<rparr>) s, [], True)
      else (Mark_Load pts clock ready_head, s, [], True))"
| "publish_step (Beacon pts clock ready_head) s =
     (if h_timeline_gen (sy_writer s) = w_last_timeline_snapshot_gen (sy_writer s) \<and>
         \<not> saturating_sub (fst clock) (w_last_timeline_emit_ns (sy_writer s))
             \<ge> w_timeline_beacon_ns (sy_writer s)
      then (P_Idle, s, [], True)
      else (Snap_Gen pts (snd clock) ready_head, s, [], True))"
| "publish_step (Snap_Gen pts now ready_head) s =
     (Snap_Store pts now ready_head (h_timeline_gen (sy_writer s)) 0, s, [], True)"
| "publish_step (Snap_Store pts now ready_head generation n) s =
     (let stores = snapshot_stores pts now ready_head generation
      in (if Suc n < length stores then Snap_Store pts now ready_head generation (Suc n) else P_Idle,
          on_writer (stores ! n) s, [], True))"
| "publish_step pc s = (pc, s, [], True)"

fun drain_step :: "producer_pc \<Rightarrow> sys \<Rightarrow> producer_pc move" where
  "drain_step Drain_Head s = (Drain_Tail (h_rec_head (sy_writer s)), s, [], True)"
| "drain_step (Drain_Tail head) s =
     (let tail = h_rec_tail (sy_writer s)
      in if head = tail then (Drain_Used, s, [], True)
         else (Drain_Read tail 0 default_recycle_desc, s, [], True))"
| "drain_step (Drain_Read tail n d) s =
     (case ring_get (recycle (sy_writer s)) tail (ucast (h_rec_capacity (sy_writer s))) of
        None \<Rightarrow> (P_Dead, s, [], True)
      | Some src \<Rightarrow>
          let d' = (recycle_fields ! n) src d
          in if Suc n < length recycle_fields then (Drain_Read tail (Suc n) d', s, [], True)
             else (Drain_Store tail,
                   on_writer (\<lambda>w. w\<lparr>w_allocator := fst (free_by_id (w_allocator w) (rc_buffer_id d'))\<rparr>) s,
                   [Drain_Round], True))"
| "drain_step (Drain_Store tail) s = (Drain_Head, on_writer (\<lambda>w. w\<lparr>h_rec_tail := tail + 1\<rparr>) s, [], True)"
| "drain_step Drain_Used s =
     (P_Idle, on_writer (\<lambda>w. w\<lparr>h_arena_used_bytes := used_bytes (w_allocator w)\<rparr>) s, [Drain_End], True)"
| "drain_step pc s = (pc, s, [], True)"

definition is_drain :: "producer_pc \<Rightarrow> bool" where
  "is_drain pc = (case pc of Drain_Head \<Rightarrow> True | Drain_Tail _ \<Rightarrow> True | Drain_Read _ _ _ \<Rightarrow> True
     | Drain_Store _ \<Rightarrow> True | Drain_Used \<Rightarrow> True | _ \<Rightarrow> False)"

definition is_alloc :: "producer_pc \<Rightarrow> bool" where
  "is_alloc pc = (case pc of Alloc_Try _ _ \<Rightarrow> True | Drop_Head _ _ \<Rightarrow> True | Drop_Tail _ _ _ \<Rightarrow> True
     | Drop_Read _ _ _ _ _ \<Rightarrow> True | Drop_Store _ _ _ \<Rightarrow> True | Drop_Used _ _ \<Rightarrow> True
     | Reset_Store _ _ _ \<Rightarrow> True | Alloc_Again _ _ \<Rightarrow> True | Alloc_Failed \<Rightarrow> True | _ \<Rightarrow> False)"

definition producer_step :: "producer_pc \<Rightarrow> sys \<Rightarrow> producer_pc move" where
  "producer_step pc s =
     (if is_alloc pc then alloc_step pc s else if is_drain pc then drain_step pc s else publish_step pc s)"

section \<open>Steps of the consumer\<close>

fun consumer_start :: "consumer_call \<Rightarrow> sys \<Rightarrow> consumer_pc" where
  "consumer_start C_Receive s = Recv_Head"
| "consumer_start C_Receive_Latest s = Latest_Head"
| "consumer_start (C_Give_Back k st) s = (if k < length (sy_held s) then Give_Head k st else C_Idle)"
| "consumer_start C_Snapshot s = Snap_Load 0 blank_snapshot"

text \<open>\<open>try_recv_desc\<close>.\<close>

fun receive_step :: "consumer_pc \<Rightarrow> sys \<Rightarrow> consumer_pc \<times> sys \<times> atom list" where
  "receive_step Recv_Head s = (Recv_Tail (h_ready_head (sy_writer s)), s, [])"
| "receive_step (Recv_Tail head) s =
     (let tail = h_ready_tail (sy_writer s)
      in if head = tail then (C_Idle, s, []) else (Recv_Read tail 0 default_ready_desc, s, []))"
| "receive_step (Recv_Read tail n d) s =
     (case ring_get (ready (sy_writer s)) tail (ucast (h_ready_capacity (sy_writer s))) of
        None \<Rightarrow> (C_Dead, s, [])
      | Some src \<Rightarrow>
          let d' = (ready_fields ! n) src d
          in (if Suc n < length ready_fields then Recv_Read tail (Suc n) d' else Recv_Check tail d', s, []))"
| "receive_step (Recv_Check tail d) s =
     (case validate_bounds (sy_writer s) (rd_offset d) (ucast (rd_length d)) of
        Ok _ \<Rightarrow> (Recv_Store tail d, s, [])
      | _ \<Rightarrow> (C_Idle, s, []))"
| "receive_step (Recv_Store tail d) s =
     (C_Idle, s\<lparr>sy_writer := (sy_writer s)\<lparr>h_ready_tail := tail + 1\<rparr>, sy_held := sy_held s @ [received_of d]\<rparr>,
      [Call Receive])"
| "receive_step pc s = (pc, s, [])"

text \<open>\<open>recycle_desc\<close>.\<close>

definition given_entry :: "u64 \<Rightarrow> u32 \<Rightarrow> received_desc \<Rightarrow> recycle_desc" where
  "given_entry head st d = recycle_entry head (rv_buffer_id d) (rv_offset d) (rv_len d) st"

fun give_step :: "consumer_pc \<Rightarrow> sys \<Rightarrow> consumer_pc \<times> sys \<times> atom list" where
  "give_step (Give_Head k st) s = (Give_Tail k st (h_rec_head (sy_writer s)), s, [])"
| "give_step (Give_Tail k st head) s =
     (if head - h_rec_tail (sy_writer s) < ucast (h_rec_capacity (sy_writer s))
      then (Give_Write k st head 0, s, []) else (Give_Head k st, s, []))"
| "give_step (Give_Write k st head n) s =
     (case ring_put_field (recycle_fields ! n) (given_entry head st (sy_held s ! k))
             (recycle (sy_writer s)) head (ucast (h_rec_capacity (sy_writer s))) of
        None \<Rightarrow> (C_Dead, s, [])
      | Some slots \<Rightarrow>
          (if Suc n < length recycle_fields then Give_Write k st head (Suc n) else Give_Store k st head,
           on_writer (\<lambda>w. w\<lparr>recycle := slots\<rparr>) s, []))"
| "give_step (Give_Store k st head) s =
     (C_Idle, s\<lparr>sy_writer := (sy_writer s)\<lparr>h_rec_head := head + 1\<rparr>, sy_held := vec_remove k (sy_held s)\<rparr>,
      [Call (Give_Back k st)])"
| "give_step pc s = (pc, s, [])"

text \<open>\<open>try_recv_latest_desc\<close>; \<open>latest_loop\<close> is the test of its loop.\<close>

definition latest_loop :: "latest \<Rightarrow> consumer_pc" where
  "latest_loop l =
     (if lt_cur l < lt_chosen l then Latest_Read l 0 default_ready_desc
      else Latest_Chosen l 0 default_ready_desc)"

definition skipped_entry :: "u64 \<Rightarrow> ready_desc \<Rightarrow> recycle_desc" where
  "skipped_entry head d = recycle_entry head (rd_buffer_id d) (rd_offset d) (rd_length d) 1"

fun latest_step :: "consumer_pc \<Rightarrow> sys \<Rightarrow> consumer_pc \<times> sys \<times> atom list" where
  "latest_step Latest_Head s = (Latest_Tail (h_ready_head (sy_writer s)), s, [])"
| "latest_step (Latest_Tail head) s =
     (let tail = h_ready_tail (sy_writer s)
      in if head = tail then (C_Idle, s, [])
         else (latest_loop \<lparr>lt_head = head, lt_tail = tail, lt_cur = tail, lt_dropped = 0\<rparr>, s, []))"
| "latest_step (Latest_Read l n d) s =
     (case ring_get (ready (sy_writer s)) (lt_cur l) (ucast (h_ready_capacity (sy_writer s))) of
        None \<Rightarrow> (C_Dead, s, [])
      | Some src \<Rightarrow>
          let d' = (ready_fields ! n) src d
          in (if Suc n < length ready_fields then Latest_Read l (Suc n) d' else Latest_Give_Head l d', s, []))"
| "latest_step (Latest_Give_Head l d) s = (Latest_Give_Tail l d (h_rec_head (sy_writer s)), s, [])"
| "latest_step (Latest_Give_Tail l d head) s =
     (if head - h_rec_tail (sy_writer s) \<ge> ucast (h_rec_capacity (sy_writer s))
      then (Latest_Chosen l 0 default_ready_desc, s, []) else (Latest_Give_Write l d head 0, s, []))"
| "latest_step (Latest_Give_Write l d head n) s =
     (case ring_put_field (recycle_fields ! n) (skipped_entry head d) (recycle (sy_writer s)) head
             (ucast (h_rec_capacity (sy_writer s))) of
        None \<Rightarrow> (C_Dead, s, [])
      | Some slots \<Rightarrow>
          (if Suc n < length recycle_fields then Latest_Give_Write l d head (Suc n)
           else Latest_Give_Store l d head,
           on_writer (\<lambda>w. w\<lparr>recycle := slots\<rparr>) s, []))"
| "latest_step (Latest_Give_Store l d head) s =
     (latest_loop (l\<lparr>lt_cur := lt_cur l + 1, lt_dropped := lt_dropped l + 1\<rparr>),
      on_writer (\<lambda>w. w\<lparr>h_rec_head := head + 1\<rparr>) s, [Skip_Oldest])"
| "latest_step (Latest_Chosen l n d) s =
     (case ring_get (ready (sy_writer s)) (lt_chosen l) (ucast (h_ready_capacity (sy_writer s))) of
        None \<Rightarrow> (C_Dead, s, [])
      | Some src \<Rightarrow>
          let d' = (ready_fields ! n) src d
          in (if Suc n < length ready_fields then Latest_Chosen l (Suc n) d' else Latest_Check l d', s, []))"
| "latest_step (Latest_Check l d) s =
     (case validate_bounds (sy_writer s) (rd_offset d) (ucast (rd_length d)) of
        Ok _ \<Rightarrow> (Latest_Store l d, s, [])
      | _ \<Rightarrow> (C_Idle, s, []))"
| "latest_step (Latest_Store l d) s =
     (C_Idle,
      s\<lparr>sy_writer := (sy_writer s)\<lparr>h_ready_tail := lt_new_tail l\<rparr>,
        sy_held := sy_held s @ [received_of d]\<rparr>,
      [Take_After (unat (lt_chosen l - lt_cur l))])"
| "latest_step pc s = (pc, s, [])"

definition is_give :: "consumer_pc \<Rightarrow> bool" where
  "is_give pc = (case pc of Give_Head _ _ \<Rightarrow> True | Give_Tail _ _ _ \<Rightarrow> True | Give_Write _ _ _ _ \<Rightarrow> True
     | Give_Store _ _ _ \<Rightarrow> True | _ \<Rightarrow> False)"

definition is_latest :: "consumer_pc \<Rightarrow> bool" where
  "is_latest pc = (case pc of Latest_Head \<Rightarrow> True | Latest_Tail _ \<Rightarrow> True | Latest_Read _ _ _ \<Rightarrow> True
     | Latest_Give_Head _ _ \<Rightarrow> True | Latest_Give_Tail _ _ _ \<Rightarrow> True | Latest_Give_Write _ _ _ _ \<Rightarrow> True
     | Latest_Give_Store _ _ _ \<Rightarrow> True | Latest_Chosen _ _ _ \<Rightarrow> True | Latest_Check _ _ \<Rightarrow> True
     | Latest_Store _ _ \<Rightarrow> True | _ \<Rightarrow> False)"

definition consumer_step :: "consumer_pc \<Rightarrow> sys \<Rightarrow> consumer_pc \<times> sys \<times> atom list" where
  "consumer_step pc s =
     (if is_give pc then give_step pc s else if is_latest pc then latest_step pc s else receive_step pc s)"

section \<open>Both threads\<close>

text \<open>
  The calls each thread still has to make, the snapshots the consumer has loaded, the trace of what
  has been completed, and whether every allocation so far was calm.
\<close>

record conf =
  cf_sys :: sys
  cf_producer :: producer_pc
  cf_consumer :: consumer_pc
  cf_producer_calls :: "producer_call list"
  cf_consumer_calls :: "consumer_call list"
  cf_snapshots :: "snapshot list"
  cf_trace :: "atom list"
  cf_calm :: bool

datatype side = Producer | Consumer

definition producer_turn :: "conf \<Rightarrow> conf" where
  "producer_turn c =
     (let r = (case (cf_producer c, cf_producer_calls c) of
          (P_Idle, x # xs) \<Rightarrow> producer_start x (cf_sys c)
        | _ \<Rightarrow> producer_step (cf_producer c) (cf_sys c))
      in case r of (pc, s, done, ok) \<Rightarrow>
        c\<lparr>cf_sys := s, cf_producer := pc,
          cf_producer_calls :=
            (if cf_producer c = P_Idle then tl (cf_producer_calls c) else cf_producer_calls c),
          cf_trace := cf_trace c @ done, cf_calm := (cf_calm c \<and> ok)\<rparr>)"

definition consumer_turn :: "conf \<Rightarrow> conf" where
  "consumer_turn c =
     (case (cf_consumer c, cf_consumer_calls c) of
        (C_Idle, x # xs) \<Rightarrow>
          c\<lparr>cf_consumer := consumer_start x (cf_sys c), cf_consumer_calls := xs\<rparr>
      | (Snap_Load n r, _) \<Rightarrow>
          let r' = (snapshot_loads ! n) (sy_writer (cf_sys c)) r
          in if Suc n < length snapshot_loads then c\<lparr>cf_consumer := Snap_Load (Suc n) r'\<rparr>
             else c\<lparr>cf_consumer := C_Idle, cf_snapshots := cf_snapshots c @ [r']\<rparr>
      | _ \<Rightarrow>
          case consumer_step (cf_consumer c) (cf_sys c) of (pc, s, done) \<Rightarrow>
            c\<lparr>cf_sys := s, cf_consumer := pc, cf_trace := cf_trace c @ done\<rparr>)"

primrec turn :: "side \<Rightarrow> conf \<Rightarrow> conf" where
  "turn Producer = producer_turn"
| "turn Consumer = consumer_turn"

fun turns :: "side list \<Rightarrow> conf \<Rightarrow> conf" where
  "turns [] c = c"
| "turns (x # xs) c = turns xs (turn x c)"

definition start_conf :: "sys \<Rightarrow> producer_call list \<Rightarrow> consumer_call list \<Rightarrow> conf" where
  "start_conf s ps cs =
     \<lparr>cf_sys = s, cf_producer = P_Idle, cf_consumer = C_Idle, cf_producer_calls = ps,
      cf_consumer_calls = cs, cf_snapshots = [], cf_trace = [], cf_calm = True\<rparr>"

end
