(* ===== verification/Access_Invariants.thy ===== *)
theory Access_Invariants
  imports Interleaving
begin

text \<open>
  Every interleaving of single accesses is an interleaving of whole calls. Each call of a thread
  takes effect at one of its steps: \<open>publish_lease\<close> and \<open>recycle_desc\<close> when they store the head,
  \<open>try_recv_desc\<close> when it stores the tail, a round of \<open>drain_recycles\<close> when it has read its entry.
  The proof keeps, next to the state of the threads, the state of the atomic model; the two differ
  in the slot that is being written and in what the producer still has to store (\<open>linked\<close>). What
  each thread relies on is in \<open>producer_inv\<close> and \<open>consumer_inv\<close>, and what it leaves alone in
  \<open>producer_keeps\<close> and \<open>consumer_keeps\<close>.
\<close>

section \<open>The live part of a ring\<close>

definition same_window :: "'d list \<Rightarrow> 'd list \<Rightarrow> u64 \<Rightarrow> u64 \<Rightarrow> u64 \<Rightarrow> bool" where
  "same_window xs ys head tail cap \<longleftrightarrow> length ys = length xs \<and>
     (\<forall>i. unat tail \<le> i \<longrightarrow> i < unat head \<longrightarrow> ys ! (i mod unat cap) = xs ! (i mod unat cap))"

lemma same_window_refl [simp]: "same_window xs xs head tail cap"
  by (simp add: same_window_def)

lemma same_window_put:
  "unat head < unat tail + unat cap \<Longrightarrow> same_window xs (xs[unat head mod unat cap := v]) head tail cap"
  by (auto simp: same_window_def dest: ring_slot_apart not_sym)

lemma same_window_ring:
  assumes "same_window xs ys head tail cap" "ring_ok xs head tail cap"
  shows "ring_ok ys head tail cap" "ring_list ys head tail cap = ring_list xs head tail cap"
  using assms by (auto simp: same_window_def ring_ok_def ring_list_def)

lemma same_window_at:
  "same_window xs ys head tail cap \<Longrightarrow> unat tail < unat head \<Longrightarrow>
   ys ! (unat tail mod unat cap) = xs ! (unat tail mod unat cap)"
  by (simp add: same_window_def)

lemma ring_room_nat:
  assumes "ring_ok xs head tail cap" "unat old \<le> unat tail" "head - old < cap"
  shows "unat head < unat tail + unat cap"
proof -
  have "unat old \<le> unat head" using assms(1,2) by (simp add: ring_ok_def)
  then have "unat head - unat old < unat cap"
    using assms(3) by (simp add: word_less_nat_alt unat_sub_no_underflow)
  with assms(1,2) show ?thesis by (simp add: ring_ok_def)
qed

lemma ring_nonempty_nat: "ring_ok xs head tail cap \<Longrightarrow> head \<noteq> tail \<longleftrightarrow> unat tail < unat head"
  by (auto simp: ring_ok_def word_unat_eq_iff)

lemma ring_put_field_Some:
  assumes "ring_ok xs head tail cap"
  shows "ring_put_field f x xs p cap = Some (xs[unat p mod unat cap := f x (xs ! (unat p mod unat cap))])"
  by (simp add: ring_put_field_def ring_get_Some [OF assms] ring_put_Some [OF assms])

lemma ring_index: "ring_ok xs head tail cap \<Longrightarrow> p mod unat cap < length xs"
  by (auto simp: ring_ok_def word_neq_0_pos)

section \<open>What each thread relies on\<close>

definition rings :: "writer \<Rightarrow> bool" where
  "rings w \<longleftrightarrow> ring_ok (ready w) (h_ready_head w) (h_ready_tail w) (ucast (h_ready_capacity w)) \<and>
     ring_ok (recycle w) (h_rec_head w) (h_rec_tail w) (ucast (h_rec_capacity w))"

abbreviation ready_at :: "writer \<Rightarrow> u64 \<Rightarrow> ready_desc" where
  "ready_at w p \<equiv> ready w ! (unat p mod unat (h_ready_capacity w))"

abbreviation recycle_at :: "writer \<Rightarrow> u64 \<Rightarrow> recycle_desc" where
  "recycle_at w p \<equiv> recycle w ! (unat p mod unat (h_rec_capacity w))"

abbreviation ready_room :: "writer \<Rightarrow> u64 \<Rightarrow> bool" where
  "ready_room w head \<equiv> head = h_ready_head w \<and> unat head < unat (h_ready_tail w) + unat (h_ready_capacity w)"

abbreviation rec_room :: "writer \<Rightarrow> u64 \<Rightarrow> bool" where
  "rec_room w head \<equiv> head = h_rec_head w \<and> unat head < unat (h_rec_tail w) + unat (h_rec_capacity w)"

abbreviation ready_waits :: "writer \<Rightarrow> u64 \<Rightarrow> bool" where
  "ready_waits w tail \<equiv> tail = h_ready_tail w \<and> unat tail < unat (h_ready_head w)"

abbreviation rec_waits :: "writer \<Rightarrow> u64 \<Rightarrow> bool" where
  "rec_waits w tail \<equiv> tail = h_rec_tail w \<and> unat tail < unat (h_rec_head w)"

definition producer_inv :: "producer_pc \<Rightarrow> sys \<Rightarrow> bool" where
  "producer_inv p s \<longleftrightarrow>
     (let w = sy_writer s
      in case p of
           Pub_Head k pts clock \<Rightarrow> k < length (sy_pending s)
         | Pub_Tail k pts clock head \<Rightarrow> k < length (sy_pending s) \<and> head = h_ready_head w
         | Pub_Write k pts clock head n \<Rightarrow>
             k < length (sy_pending s) \<and> ready_room w head \<and> n < length ready_fields \<and>
             (\<exists>old. ready_at w head = copied ready_fields n (ready_entry head (sy_pending s ! k) pts) old)
         | Pub_Store k pts clock head \<Rightarrow>
             k < length (sy_pending s) \<and> ready_room w head \<and>
             ready_at w head = ready_entry head (sy_pending s ! k) pts
         | Mark_Swap pts clock ready_head prev \<Rightarrow>
             prev = h_arena_high_watermark w \<and> prev < used_bytes (w_allocator w)
         | Snap_Store pts now ready_head generation n \<Rightarrow>
             n < length (snapshot_stores pts now ready_head generation)
         | Drain_Tail head \<Rightarrow> unat (h_rec_tail w) \<le> unat head \<and> unat head \<le> unat (h_rec_head w)
         | Drain_Read tail n d \<Rightarrow>
             rec_waits w tail \<and> n < length recycle_fields \<and>
             (\<exists>old. d = copied recycle_fields n (recycle_at w tail) old)
         | Drain_Store tail \<Rightarrow> rec_waits w tail
         | P_Idle \<Rightarrow> True | Alloc_Try sz align \<Rightarrow> True | Used_Store pts clock rh \<Rightarrow> True
         | Mark_Load pts clock rh \<Rightarrow> True | Beacon pts clock rh \<Rightarrow> True | Snap_Gen pts now rh \<Rightarrow> True
         | Drain_Head \<Rightarrow> True | Drain_Used \<Rightarrow> True
         | _ \<Rightarrow> False)"

definition latest_ok :: "latest \<Rightarrow> writer \<Rightarrow> bool" where
  "latest_ok l w \<longleftrightarrow> lt_tail l = h_ready_tail w \<and> unat (lt_head l) \<le> unat (h_ready_head w) \<and>
     unat (lt_tail l) \<le> unat (lt_cur l) \<and> unat (lt_cur l) \<le> unat (lt_chosen l) \<and>
     unat (lt_chosen l) < unat (lt_head l) \<and>
     lt_new_tail l = lt_chosen l + 1"

text \<open>The oldest entry that the loop has not given back is in \<open>d\<close>.\<close>

definition latest_skips :: "latest \<Rightarrow> ready_desc \<Rightarrow> writer \<Rightarrow> bool" where
  "latest_skips l d w \<longleftrightarrow> latest_ok l w \<and> unat (lt_cur l) < unat (lt_chosen l) \<and> d = ready_at w (lt_cur l)"

definition consumer_inv :: "consumer_pc \<Rightarrow> sys \<Rightarrow> bool" where
  "consumer_inv q s \<longleftrightarrow>
     (let w = sy_writer s
      in case q of
           C_Idle \<Rightarrow> True
         | C_Dead \<Rightarrow> False
         | Recv_Head \<Rightarrow> True
         | Recv_Tail head \<Rightarrow> unat (h_ready_tail w) \<le> unat head \<and> unat head \<le> unat (h_ready_head w)
         | Recv_Read tail n d \<Rightarrow>
             ready_waits w tail \<and> n < length ready_fields \<and>
             (\<exists>old. d = copied ready_fields n (ready_at w tail) old)
         | Recv_Check tail d \<Rightarrow> ready_waits w tail \<and> d = ready_at w tail
         | Recv_Store tail d \<Rightarrow> ready_waits w tail \<and> d = ready_at w tail
         | Give_Head k st \<Rightarrow> k < length (sy_held s)
         | Give_Tail k st head \<Rightarrow> k < length (sy_held s) \<and> head = h_rec_head w
         | Give_Write k st head n \<Rightarrow>
             k < length (sy_held s) \<and> rec_room w head \<and> n < length recycle_fields \<and>
             (\<exists>old. recycle_at w head = copied recycle_fields n (given_entry head st (sy_held s ! k)) old)
         | Give_Store k st head \<Rightarrow>
             k < length (sy_held s) \<and> rec_room w head \<and>
             recycle_at w head = given_entry head st (sy_held s ! k)
         | Latest_Head \<Rightarrow> True
         | Latest_Tail head \<Rightarrow> unat (h_ready_tail w) \<le> unat head \<and> unat head \<le> unat (h_ready_head w)
         | Latest_Read l n d \<Rightarrow>
             latest_ok l w \<and> unat (lt_cur l) < unat (lt_chosen l) \<and> n < length ready_fields \<and>
             (\<exists>old. d = copied ready_fields n (ready_at w (lt_cur l)) old)
         | Latest_Give_Head l d \<Rightarrow> latest_skips l d w
         | Latest_Give_Tail l d head \<Rightarrow> latest_skips l d w \<and> head = h_rec_head w
         | Latest_Give_Write l d head n \<Rightarrow>
             latest_skips l d w \<and> rec_room w head \<and> n < length recycle_fields \<and>
             (\<exists>old. recycle_at w head = copied recycle_fields n (skipped_entry head d) old)
         | Latest_Give_Store l d head \<Rightarrow>
             latest_skips l d w \<and> rec_room w head \<and> recycle_at w head = skipped_entry head d
         | Latest_Chosen l n d \<Rightarrow>
             latest_ok l w \<and> n < length ready_fields \<and>
             (\<exists>old. d = copied ready_fields n (ready_at w (lt_chosen l)) old)
         | Latest_Check l d \<Rightarrow> latest_ok l w \<and> d = ready_at w (lt_chosen l)
         | Latest_Store l d \<Rightarrow> latest_ok l w \<and> d = ready_at w (lt_chosen l)
         | Snap_Load n r \<Rightarrow> n < length snapshot_loads)"

section \<open>What each thread leaves alone\<close>

definition producer_keeps :: "sys \<Rightarrow> sys \<Rightarrow> bool" where
  "producer_keeps s s' \<longleftrightarrow>
     (let w = sy_writer s; w' = sy_writer s'
      in sy_held s' = sy_held s \<and> h_ready_tail w' = h_ready_tail w \<and> h_rec_head w' = h_rec_head w \<and>
         recycle w' = recycle w \<and> h_ready_capacity w' = h_ready_capacity w \<and>
         h_rec_capacity w' = h_rec_capacity w \<and> unat (h_rec_tail w) \<le> unat (h_rec_tail w') \<and>
         unat (h_ready_head w) \<le> unat (h_ready_head w') \<and>
         unat (h_ready_head w') \<le> unat (h_ready_head w) + 1 \<and>
         same_window (ready w) (ready w') (h_ready_head w) (h_ready_tail w) (ucast (h_ready_capacity w)))"

definition consumer_keeps :: "sys \<Rightarrow> sys \<Rightarrow> bool" where
  "consumer_keeps s s' \<longleftrightarrow>
     (let w = sy_writer s; w' = sy_writer s'
      in sy_pending s' = sy_pending s \<and> unat (h_ready_tail w) \<le> unat (h_ready_tail w') \<and>
         unat (h_rec_head w) \<le> unat (h_rec_head w') \<and>
         unat (h_rec_head w') \<le> unat (h_rec_head w) + 1 \<and>
         w' = w\<lparr>recycle := recycle w', h_ready_tail := h_ready_tail w', h_rec_head := h_rec_head w'\<rparr> \<and>
         same_window (recycle w) (recycle w') (h_rec_head w) (h_rec_tail w) (ucast (h_rec_capacity w)))"

lemma producer_keeps_writer [simp]: "producer_keeps s s"
  by (simp add: producer_keeps_def)

lemma consumer_inv_stable:
  assumes "producer_keeps s s'" "consumer_inv q s"
  shows "consumer_inv q s'"
proof -
  let ?w = "sy_writer s" and ?w' = "sy_writer s'"
  have keeps: "h_ready_tail ?w' = h_ready_tail ?w" "h_ready_capacity ?w' = h_ready_capacity ?w"
    "unat (h_ready_head ?w) \<le> unat (h_ready_head ?w')"
    using assms(1) by (simp_all add: producer_keeps_def Let_def)
  have at: "ready_at ?w' i = ready_at ?w i"
    if "unat (h_ready_tail ?w) \<le> unat i" "unat i < unat (h_ready_head ?w)" for i
    using assms(1) that by (simp add: producer_keeps_def same_window_def Let_def)
  have ok: "latest_ok l ?w'" if "latest_ok l ?w" for l
    using that keeps by (auto simp: latest_ok_def)
  have skips: "latest_skips l d ?w'" if "latest_skips l d ?w" for l d
    using that at [of "lt_cur l"] ok by (auto simp: latest_skips_def latest_ok_def)
  have chosen: "ready_at ?w' (lt_chosen l) = ready_at ?w (lt_chosen l)" if "latest_ok l ?w" for l
    using that at [of "lt_chosen l"] by (auto simp: latest_ok_def)
  have cur: "ready_at ?w' (lt_cur l) = ready_at ?w (lt_cur l)" if "latest_ok l ?w" for l
    using that at [of "lt_cur l"] by (auto simp: latest_ok_def)
  show ?thesis
    using assms at ok skips chosen cur by (cases q) (auto simp: consumer_inv_def producer_keeps_def Let_def)
qed

lemma consumer_keeps_fields:
  assumes "consumer_keeps s s'"
  shows "ready (sy_writer s') = ready (sy_writer s)" "h_ready_head (sy_writer s') = h_ready_head (sy_writer s)"
    "h_rec_tail (sy_writer s') = h_rec_tail (sy_writer s)"
    "h_ready_capacity (sy_writer s') = h_ready_capacity (sy_writer s)"
    "h_rec_capacity (sy_writer s') = h_rec_capacity (sy_writer s)"
    "w_allocator (sy_writer s') = w_allocator (sy_writer s)"
    "h_arena_high_watermark (sy_writer s') = h_arena_high_watermark (sy_writer s)"
  by (insert assms, unfold consumer_keeps_def Let_def,
      (elim conjE, erule ssubst [where P = "\<lambda>v. _ v = _"], simp)+)

lemma producer_inv_stable:
  assumes "consumer_keeps s s'" "producer_inv p s"
  shows "producer_inv p s'"
proof -
  let ?w = "sy_writer s" and ?w' = "sy_writer s'"
  note k = consumer_keeps_fields [OF assms(1)]
  have at: "recycle_at ?w' (h_rec_tail ?w) = recycle_at ?w (h_rec_tail ?w)"
    if "unat (h_rec_tail ?w) < unat (h_rec_head ?w)"
    using same_window_at [OF _ that, of "recycle ?w" "recycle ?w'" "ucast (h_rec_capacity ?w)"] assms(1) k
    by (simp add: consumer_keeps_def Let_def)
  have m: "unat (h_ready_tail ?w) \<le> unat (h_ready_tail ?w')" "unat (h_rec_head ?w) \<le> unat (h_rec_head ?w')"
    "sy_pending s' = sy_pending s"
    using assms(1) by (simp_all add: consumer_keeps_def Let_def)
  show ?thesis
    using assms(2) at m by (cases p) (auto simp: producer_inv_def Let_def k)
qed

section \<open>The state of the atomic model\<close>

text \<open>What the producer still has to store after the step that completes its call.\<close>

definition finish :: "producer_pc \<Rightarrow> writer \<Rightarrow> writer" where
  "finish p w =
     (case p of
        Used_Store pts clock rh \<Rightarrow> maybe_publish_timeline_snapshot clock pts rh (update_usage_metrics w)
      | Mark_Load pts clock rh \<Rightarrow>
          maybe_publish_timeline_snapshot clock pts rh
            (if used_bytes (w_allocator w) > h_arena_high_watermark w
             then w\<lparr>h_arena_high_watermark := used_bytes (w_allocator w)\<rparr> else w)
      | Mark_Swap pts clock rh prev \<Rightarrow>
          maybe_publish_timeline_snapshot clock pts rh
            (w\<lparr>h_arena_high_watermark := used_bytes (w_allocator w)\<rparr>)
      | Beacon pts clock rh \<Rightarrow> maybe_publish_timeline_snapshot clock pts rh w
      | Snap_Gen pts now rh \<Rightarrow> force_timeline_snapshot now pts rh w
      | Snap_Store pts now rh generation n \<Rightarrow>
          fold (\<lambda>f. f) (drop n (snapshot_stores pts now rh generation)) w
      | Drain_Store tail \<Rightarrow> w\<lparr>h_rec_tail := tail + 1\<rparr>
      | _ \<Rightarrow> w)"

definition shown_ready :: "producer_pc \<Rightarrow> writer \<Rightarrow> ready_desc list \<Rightarrow> bool" where
  "shown_ready p w r \<longleftrightarrow>
     (case p of
        Pub_Write k pts clock head n \<Rightarrow> (\<exists>v. r = (ready w)[unat head mod unat (h_ready_capacity w) := v])
      | Pub_Store k pts clock head \<Rightarrow> (\<exists>v. r = (ready w)[unat head mod unat (h_ready_capacity w) := v])
      | _ \<Rightarrow> r = ready w)"

definition shown_recycle :: "consumer_pc \<Rightarrow> writer \<Rightarrow> recycle_desc list \<Rightarrow> bool" where
  "shown_recycle q w y \<longleftrightarrow>
     (case q of
        Give_Write k st head n \<Rightarrow> (\<exists>v. y = (recycle w)[unat head mod unat (h_rec_capacity w) := v])
      | Give_Store k st head \<Rightarrow> (\<exists>v. y = (recycle w)[unat head mod unat (h_rec_capacity w) := v])
      | Latest_Give_Write l d head n \<Rightarrow> (\<exists>v. y = (recycle w)[unat head mod unat (h_rec_capacity w) := v])
      | Latest_Give_Store l d head \<Rightarrow> (\<exists>v. y = (recycle w)[unat head mod unat (h_rec_capacity w) := v])
      | _ \<Rightarrow> y = recycle w)"

text \<open>The loop of \<open>try_recv_latest_desc\<close> has taken entries out that its last store will.\<close>

definition shown_tail :: "consumer_pc \<Rightarrow> writer \<Rightarrow> u64" where
  "shown_tail q w =
     (case q of
        Latest_Read l n d \<Rightarrow> lt_cur l
      | Latest_Give_Head l d \<Rightarrow> lt_cur l
      | Latest_Give_Tail l d head \<Rightarrow> lt_cur l
      | Latest_Give_Write l d head n \<Rightarrow> lt_cur l
      | Latest_Give_Store l d head \<Rightarrow> lt_cur l
      | Latest_Chosen l n d \<Rightarrow> lt_cur l
      | Latest_Check l d \<Rightarrow> lt_cur l
      | Latest_Store l d \<Rightarrow> lt_cur l
      | _ \<Rightarrow> h_ready_tail w)"

definition linked :: "producer_pc \<Rightarrow> consumer_pc \<Rightarrow> sys \<Rightarrow> sys \<Rightarrow> bool" where
  "linked p q s t \<longleftrightarrow> sy_pending t = sy_pending s \<and> sy_held t = sy_held s \<and>
     (\<exists>r y. shown_ready p (sy_writer s) r \<and> shown_recycle q (sy_writer s) y \<and>
        sy_writer t =
          (finish p (sy_writer s))\<lparr>ready := r, recycle := y, h_ready_tail := shown_tail q (sy_writer s)\<rparr>)"

lemma linked_idle: "linked P_Idle C_Idle s t \<longleftrightarrow> t = s"
proof
  assume l: "linked P_Idle C_Idle s t"
  then have "sy_writer t = (sy_writer s)\<lparr>ready := ready (sy_writer s), recycle := recycle (sy_writer s),
      h_ready_tail := h_ready_tail (sy_writer s)\<rparr>"
    by (simp add: linked_def shown_ready_def shown_recycle_def shown_tail_def finish_def)
  also have "\<dots> = sy_writer s" by simp
  finally have "sy_writer t = sy_writer s" .
  with l show "t = s" by (simp add: linked_def)
next
  assume "t = s"
  then show "linked P_Idle C_Idle s t"
    by (simp add: linked_def shown_ready_def shown_recycle_def shown_tail_def finish_def)
qed

subsection \<open>Stores of the bookkeeping commute with the rings\<close>

text \<open>A change of the writer that the consumer may make.\<close>

definition ring_change :: "(writer \<Rightarrow> writer) \<Rightarrow> bool" where
  "ring_change f \<longleftrightarrow>
     (\<exists>r y t. f = (\<lambda>w. w\<lparr>ready := r, recycle := y, h_ready_tail := t\<rparr>)) \<or> (\<exists>y. f = (\<lambda>w. w\<lparr>recycle := y\<rparr>)) \<or>
     (\<exists>t. f = (\<lambda>w. w\<lparr>h_ready_tail := t\<rparr>)) \<or> (\<exists>h. f = (\<lambda>w. w\<lparr>h_rec_head := h\<rparr>))"

lemma ring_changeI [simp]:
  "ring_change (\<lambda>w. w\<lparr>ready := r, recycle := y, h_ready_tail := t\<rparr>)" "ring_change (\<lambda>w. w\<lparr>recycle := y\<rparr>)"
  "ring_change (\<lambda>w. w\<lparr>h_ready_tail := t\<rparr>)" "ring_change (\<lambda>w. w\<lparr>h_rec_head := h\<rparr>)"
  unfolding ring_change_def by blast+

lemma ring_change_cases:
  assumes "ring_change f"
    and "\<And>r y t. P (\<lambda>w. w\<lparr>ready := r, recycle := y, h_ready_tail := t\<rparr>)" "\<And>y. P (\<lambda>w. w\<lparr>recycle := y\<rparr>)"
    and "\<And>t. P (\<lambda>w. w\<lparr>h_ready_tail := t\<rparr>)" "\<And>h. P (\<lambda>w. w\<lparr>h_rec_head := h\<rparr>)"
  shows "P f"
  using assms unfolding ring_change_def by blast

lemma update_usage_metrics_change:
  assumes "ring_change f" shows "update_usage_metrics (f w) = f (update_usage_metrics w)"
  by (rule ring_change_cases [OF assms, where P = "\<lambda>f. update_usage_metrics (f w) = f (update_usage_metrics w)"])
    (simp_all add: update_usage_metrics_def Let_def)

lemma force_timeline_snapshot_change:
  assumes "ring_change f"
  shows "force_timeline_snapshot now pts rh (f w) = f (force_timeline_snapshot now pts rh w)"
  by (rule ring_change_cases [OF assms,
        where P = "\<lambda>f. force_timeline_snapshot now pts rh (f w) = f (force_timeline_snapshot now pts rh w)"])
    (simp_all add: force_timeline_snapshot_def Let_def)

lemma maybe_publish_timeline_snapshot_change:
  assumes "ring_change f"
  shows "maybe_publish_timeline_snapshot clock pts rh (f w) = f (maybe_publish_timeline_snapshot clock pts rh w)"
proof -
  have "h_timeline_gen (f w) = h_timeline_gen w"
    "w_last_timeline_snapshot_gen (f w) = w_last_timeline_snapshot_gen w"
    "w_last_timeline_emit_ns (f w) = w_last_timeline_emit_ns w"
    "w_timeline_beacon_ns (f w) = w_timeline_beacon_ns w"
    using assms by (auto simp: ring_change_def)
  then show ?thesis
    by (simp add: maybe_publish_timeline_snapshot_def Let_def force_timeline_snapshot_change [OF assms])
qed

lemma snapshot_store_change:
  assumes "ring_change f" "g \<in> set (snapshot_stores pts now rh generation)"
  shows "g (f w) = f (g w)"
  by (rule ring_change_cases [OF assms(1), where P = "\<lambda>f. g (f w) = f (g w)"])
    (use assms(2) in \<open>auto simp: snapshot_stores_def\<close>)

lemma fold_change: "\<forall>g\<in>set gs. \<forall>w. g (f w) = f (g w) \<Longrightarrow> fold (\<lambda>g. g) gs (f w) = f (fold (\<lambda>g. g) gs w)"
  by (induction gs arbitrary: w) auto

lemma fold_keeps: "\<forall>g\<in>set gs. \<forall>w. \<phi> (g w) = \<phi> w \<Longrightarrow> \<phi> (fold (\<lambda>g. g) gs w) = \<phi> w"
  by (induction gs arbitrary: w) auto

lemma snapshot_stores_change:
  assumes "ring_change f"
  shows "fold (\<lambda>g. g) (drop n (snapshot_stores pts now rh generation)) (f w) =
    f (fold (\<lambda>g. g) (drop n (snapshot_stores pts now rh generation)) w)"
  using snapshot_store_change [OF assms] by (intro fold_change ballI allI) (auto dest: in_set_dropD)

lemma ring_change_fields:
  assumes "ring_change f"
  shows "w_allocator (f w) = w_allocator w" "h_arena_high_watermark (f w) = h_arena_high_watermark w"
    "(f w)\<lparr>h_arena_high_watermark := m\<rparr> = f (w\<lparr>h_arena_high_watermark := m\<rparr>)"
    "(f w)\<lparr>h_rec_tail := t\<rparr> = f (w\<lparr>h_rec_tail := t\<rparr>)"
    "(f w)\<lparr>h_arena_used_bytes := m\<rparr> = f (w\<lparr>h_arena_used_bytes := m\<rparr>)"
  using assms by (auto simp: ring_change_def)

lemma finish_change: "ring_change f \<Longrightarrow> finish p (f w) = f (finish p w)"
  by (cases p)
    (simp_all add: finish_def update_usage_metrics_change maybe_publish_timeline_snapshot_change
      force_timeline_snapshot_change snapshot_stores_change ring_change_fields split del: if_split
      cong: if_cong, auto simp: ring_change_fields maybe_publish_timeline_snapshot_change)

lemma snapshot_stores_keep:
  assumes "\<And>g w. g \<in> set (snapshot_stores pts now rh generation) \<Longrightarrow> \<phi> (g w) = \<phi> w"
  shows "\<phi> (fold (\<lambda>f. f) (drop n (snapshot_stores pts now rh generation)) w) = \<phi> w"
  using assms by (intro fold_keeps ballI allI) (auto dest: in_set_dropD)

lemma snapshot_stores_frame [simp]:
  fixes pts now rh generation n
  defines "g \<equiv> fold (\<lambda>f. f) (drop n (snapshot_stores pts now rh generation))"
  shows "ready (g w) = ready w" "recycle (g w) = recycle w" "arena (g w) = arena w"
    "h_ready_capacity (g w) = h_ready_capacity w" "h_rec_capacity (g w) = h_rec_capacity w"
    "h_ready_head (g w) = h_ready_head w" "h_ready_tail (g w) = h_ready_tail w"
    "h_rec_head (g w) = h_rec_head w" "h_rec_tail (g w) = h_rec_tail w"
    "h_arena_size (g w) = h_arena_size w" "w_allocator (g w) = w_allocator w"
  unfolding g_def by (rule snapshot_stores_keep, force simp: snapshot_stores_def)+

lemma force_timeline_snapshot_frame [simp]:
  fixes now pts rh
  defines "g \<equiv> force_timeline_snapshot now pts rh"
  shows "ready (g w) = ready w" "recycle (g w) = recycle w" "arena (g w) = arena w"
    "h_ready_capacity (g w) = h_ready_capacity w" "h_rec_capacity (g w) = h_rec_capacity w"
    "h_ready_head (g w) = h_ready_head w" "h_ready_tail (g w) = h_ready_tail w"
    "h_rec_head (g w) = h_rec_head w" "h_rec_tail (g w) = h_rec_tail w"
    "h_arena_size (g w) = h_arena_size w" "w_allocator (g w) = w_allocator w"
  by (simp_all add: g_def force_timeline_snapshot_def Let_def)

lemma finish_frame [simp]:
  "ready (finish p w) = ready w" "recycle (finish p w) = recycle w" "arena (finish p w) = arena w"
  "h_ready_capacity (finish p w) = h_ready_capacity w" "h_rec_capacity (finish p w) = h_rec_capacity w"
  "h_ready_head (finish p w) = h_ready_head w" "h_ready_tail (finish p w) = h_ready_tail w"
  "h_rec_head (finish p w) = h_rec_head w" "h_arena_size (finish p w) = h_arena_size w"
  "w_allocator (finish p w) = w_allocator w"
  by (simp_all add: finish_def split: producer_pc.split)

end
