(* ===== verification/Producer_Steps.thy ===== *)
theory Producer_Steps
  imports Access_Invariants
begin

text \<open>
  Each step of the producer keeps its own invariant, leaves alone what the consumer relies on, and is
  either invisible in the atomic model or one call of it.
\<close>

section \<open>Steps of the producer\<close>

lemma ring_okD:
  assumes "rings w"
  shows "ring_ok (ready w) (h_ready_head w) (h_ready_tail w) (ucast (h_ready_capacity w))"
    "ring_ok (recycle w) (h_rec_head w) (h_rec_tail w) (ucast (h_rec_capacity w))"
  using assms by (simp_all add: rings_def)

lemma ring_ok_put [simp]: "ring_ok (xs[i := x]) head tail cap = ring_ok xs head tail cap"
  by (simp add: ring_ok_def)

lemma ring_ok_pushed:
  "ring_ok xs head tail cap \<Longrightarrow> unat head < unat tail + unat cap \<Longrightarrow> unat head + 1 < 2 ^ 64 \<Longrightarrow>
   ring_ok xs (head + 1) tail cap"
  by (simp add: ring_ok_def unat_succ)

lemma ring_ok_popped:
  "ring_ok xs head tail cap \<Longrightarrow> unat tail < unat head \<Longrightarrow> ring_ok xs head (tail + 1) cap"
  by (simp add: ring_ok_def unat_succ_less)

lemma producer_pub_write:
  assumes inv: "producer_inv (Pub_Write k pts clock head n) s" and r: "rings (sy_writer s)"
    and st: "producer_step (Pub_Write k pts clock head n) s = (p', s', done, ok)"
  shows "producer_inv p' s' \<and> rings (sy_writer s') \<and> producer_keeps s s'"
proof -
  let ?w = "sy_writer s"
  let ?i = "unat head mod unat (h_ready_capacity ?w)" and ?e = "ready_entry head (sy_pending s ! k) pts"
  let ?d = "(ready_fields ! n) ?e (ready_at ?w head)"
  note ring = ring_okD(1) [OF r]
  from inv obtain old where i: "k < length (sy_pending s)" "ready_room ?w head" "n < length ready_fields"
    "ready_at ?w head = copied ready_fields n ?e old"
    by (auto simp: producer_inv_def Let_def)
  have s': "s' = on_writer (\<lambda>w. w\<lparr>ready := (ready w)[?i := ?d]\<rparr>) s" "done = []" "ok"
    "p' = (if Suc n < length ready_fields then Pub_Write k pts clock head (Suc n) else Pub_Store k pts clock head)"
    using st by (simp_all add: producer_step_def is_alloc_def is_drain_def ring_put_field_Some [OF ring])
  have at: "ready_at (sy_writer s') head = ?d" using ring_index [OF ring] by (simp add: s'(1))
  have "producer_inv p' s'"
    using ready_slot.copied_step [OF i(3,4)] i(1-3) at
    by (auto simp: producer_inv_def Let_def s'(4) split: if_splits) (auto simp: s'(1))
  moreover have "rings (sy_writer s')" using r by (simp add: rings_def s'(1))
  moreover have "producer_keeps s s'"
    using i(2) same_window_put [of head "h_ready_tail ?w" "ucast (h_ready_capacity ?w)"]
    by (auto simp: producer_keeps_def Let_def s'(1))
  ultimately show ?thesis by blast
qed

lemma producer_drain_read:
  assumes inv: "producer_inv (Drain_Read tail n d) s" and r: "rings (sy_writer s)"
    and st: "producer_step (Drain_Read tail n d) s = (p', s', done, ok)"
  shows "producer_inv p' s' \<and> rings (sy_writer s') \<and> producer_keeps s s'"
proof -
  let ?w = "sy_writer s" and ?d' = "(recycle_fields ! n) (recycle_at (sy_writer s) tail) d"
  from inv obtain old where i: "rec_waits ?w tail" "n < length recycle_fields"
    "d = copied recycle_fields n (recycle_at ?w tail) old"
    by (auto simp: producer_inv_def Let_def)
  have d: "?d' = copied recycle_fields (Suc n) (recycle_at ?w tail) old"
    using i(2,3) by (simp add: recycle_slot.copied_Suc)
  have "(p', s') =
    (if Suc n < length recycle_fields then (Drain_Read tail (Suc n) ?d', s)
     else (Drain_Store tail,
           on_writer (\<lambda>w. w\<lparr>w_allocator := fst (free_by_id (w_allocator w) (rc_buffer_id ?d'))\<rparr>) s))"
    using st by (auto simp: producer_step_def is_alloc_def is_drain_def ring_get_Some [OF ring_okD(2) [OF r]]
        Let_def split: if_splits)
  then show ?thesis
    using i d r by (auto simp: producer_inv_def rings_def producer_keeps_def Let_def split: if_splits)
qed

lemma snapshot_store_rings:
  assumes "g \<in> set (snapshot_stores pts now rh generation)"
  shows "ready (g w) = ready w" "recycle (g w) = recycle w"
    "h_ready_capacity (g w) = h_ready_capacity w" "h_rec_capacity (g w) = h_rec_capacity w"
    "h_ready_head (g w) = h_ready_head w" "h_ready_tail (g w) = h_ready_tail w"
    "h_rec_head (g w) = h_rec_head w" "h_rec_tail (g w) = h_rec_tail w"
  using assms by (auto simp: snapshot_stores_def)

lemma producer_step_inv:
  assumes inv: "producer_inv p s" and r: "rings (sy_writer s)"
    and low: "unat (h_ready_head (sy_writer s)) + 1 < 2 ^ 64"
    and st: "producer_step p s = (p', s', done, True)"
  shows "producer_inv p' s' \<and> rings (sy_writer s') \<and> producer_keeps s s'"
proof -
  note ring = ring_okD [OF r]
  have order: "unat (h_rec_tail (sy_writer s)) \<le> unat (h_rec_head (sy_writer s))"
    using ring(2) by (simp add: ring_ok_def)
  have stores: "snapshot_stores pts now rh generation \<noteq> []" for pts now rh generation
    by (simp add: snapshot_stores_def)
  have room: "unat (h_ready_head (sy_writer s)) < unat (h_ready_tail (sy_writer s)) + unat (h_ready_capacity (sy_writer s))"
    if "h_ready_head (sy_writer s) - h_ready_tail (sy_writer s) < ucast (h_ready_capacity (sy_writer s))"
    using ring_room_nat [OF ring(1) _ that] by simp
  have succ: "unat (h_ready_head (sy_writer s) + 1) = Suc (unat (h_ready_head (sy_writer s)))"
    using unat_succ [OF low] by simp
  show ?thesis
  proof (cases p)
    case Pub_Write
    with producer_pub_write inv r st show ?thesis by blast
  next
    case Drain_Read
    with producer_drain_read inv r st show ?thesis by blast
  next
    case (Drain_Tail head)
    show ?thesis
      using inv r st ring_nonempty_nat [OF ring(2)] unfolding Drain_Tail
      by (auto simp: producer_inv_def Let_def producer_step_def is_alloc_def is_drain_def recycle_fields_def
          copied_def word_unat_eq_iff split: if_splits)
  next
    case (Drain_Store tail)
    show ?thesis
      using inv r st ring_ok_popped [OF ring(2)] unfolding Drain_Store
      by (auto simp: producer_inv_def producer_step_def is_alloc_def is_drain_def rings_def
          producer_keeps_def unat_succ_less Let_def)
  next
    case (Pub_Tail k pts clock head)
    show ?thesis
      using inv r st room unfolding Pub_Tail
      by (auto simp: producer_inv_def Let_def producer_step_def is_alloc_def is_drain_def ready_fields_def
          copied_def split: if_splits)
  next
    case (Pub_Store k pts clock head)
    show ?thesis
      using inv r st ring_ok_pushed [OF ring(1) _ low] succ unfolding Pub_Store
      by (auto simp: producer_inv_def Let_def producer_step_def is_alloc_def is_drain_def rings_def
          producer_keeps_def)
  next
    case (Alloc_Try sz align)
    show ?thesis
      using inv r st unfolding Alloc_Try
      by (auto simp: producer_inv_def producer_step_def is_alloc_def granted_def rings_def
          producer_keeps_def Let_def split: option.splits)
  next
    case (Snap_Store pts now rh generation n)
    then have "snapshot_stores pts now rh generation ! n \<in> set (snapshot_stores pts now rh generation)"
      using inv by (simp add: producer_inv_def)
    note same = snapshot_store_rings [OF this]
    show ?thesis
      using inv r st unfolding Snap_Store
      by (auto simp: same producer_inv_def Let_def producer_step_def is_alloc_def is_drain_def rings_def
          producer_keeps_def split: if_splits)
  qed (use inv r st order stores in \<open>auto simp: producer_inv_def Let_def producer_step_def is_alloc_def is_drain_def rings_def
      producer_keeps_def split: if_splits\<close>)
qed

lemma producer_start_inv:
  assumes r: "rings (sy_writer s)" and st: "producer_start x s = (p', s', done, ok)"
  shows "producer_inv p' s' \<and> rings (sy_writer s') \<and> producer_keeps s s'"
  using assms
  by (cases x)
    (auto simp: producer_inv_def rings_def producer_keeps_def Let_def copy_payload_def free_lease_def
      case_prod_beta split: if_splits)

subsection \<open>What the atomic model does\<close>

lemma linked_fields:
  assumes "linked p q s t"
  shows "h_ready_head (sy_writer t) = h_ready_head (sy_writer s)"
    "h_rec_head (sy_writer t) = h_rec_head (sy_writer s)"
    "h_ready_capacity (sy_writer t) = h_ready_capacity (sy_writer s)"
    "h_rec_capacity (sy_writer t) = h_rec_capacity (sy_writer s)"
    "h_arena_size (sy_writer t) = h_arena_size (sy_writer s)"
    "w_allocator (sy_writer t) = w_allocator (sy_writer s)"
    "arena (sy_writer t) = arena (sy_writer s)"
    "sy_pending t = sy_pending s" "sy_held t = sy_held s"
  using assms by (auto simp: linked_def)

text \<open>The atomic model may be ahead of the consumer's counter.\<close>

lemma linked_ready_tail:
  assumes "linked p q s t" "consumer_inv q s"
  shows "h_ready_tail (sy_writer t) = shown_tail q (sy_writer s)"
    "unat (h_ready_tail (sy_writer s)) \<le> unat (h_ready_tail (sy_writer t))"
proof -
  show t: "h_ready_tail (sy_writer t) = shown_tail q (sy_writer s)" using assms(1) by (auto simp: linked_def)
  show "unat (h_ready_tail (sy_writer s)) \<le> unat (h_ready_tail (sy_writer t))"
    unfolding t using assms(2)
    by (cases q) (auto simp: shown_tail_def consumer_inv_def latest_skips_def latest_ok_def Let_def)
qed

text \<open>A step that changes nothing the atomic model shows.\<close>

lemma linked_same:
  assumes l: "linked p q s t"
    and same: "sy_pending s' = sy_pending s" "sy_held s' = sy_held s" "recycle (sy_writer s') = recycle (sy_writer s)"
      "h_rec_capacity (sy_writer s') = h_rec_capacity (sy_writer s)"
      "h_ready_tail (sy_writer s') = h_ready_tail (sy_writer s)"
    and show': "\<And>r. shown_ready p (sy_writer s) r \<Longrightarrow> shown_ready p' (sy_writer s') r \<and>
      (finish p' (sy_writer s'))\<lparr>ready := r\<rparr> = (finish p (sy_writer s))\<lparr>ready := r\<rparr>"
  shows "linked p' q s' t"
proof -
  from l obtain r y where r: "shown_ready p (sy_writer s) r" "shown_recycle q (sy_writer s) y"
    "sy_writer t = (finish p (sy_writer s))\<lparr>ready := r, recycle := y, h_ready_tail := shown_tail q (sy_writer s)\<rparr>"
    by (auto simp: linked_def)
  have tail: "shown_tail q (sy_writer s') = shown_tail q (sy_writer s)" by (simp only: shown_tail_def same(5))
  have "shown_recycle q (sy_writer s') y" using r(2) by (simp only: shown_recycle_def same(3,4))
  moreover have "sy_writer t =
      (finish p' (sy_writer s'))\<lparr>ready := r, recycle := y, h_ready_tail := shown_tail q (sy_writer s')\<rparr>"
    unfolding r(3) tail conjunct2 [OF show' [OF r(1)], symmetric] by simp
  moreover have "sy_pending t = sy_pending s'" "sy_held t = sy_held s'" using l same(1,2) by (simp_all add: linked_def)
  ultimately show ?thesis using conjunct1 [OF show' [OF r(1)]] unfolding linked_def by blast
qed

lemma finish_simps [simp]:
  "finish P_Idle w = w" "finish (Alloc_Try sz al) w = w" "finish (Pub_Head k pts clock) w = w"
  "finish (Pub_Tail k pts clock head) w = w" "finish (Pub_Write k pts clock head n) w = w"
  "finish (Pub_Store k pts clock head) w = w" "finish Drain_Head w = w" "finish (Drain_Tail head) w = w"
  "finish (Drain_Read tail n d) w = w" "finish Drain_Used w = w"
  "finish (Drain_Store tail) w = w\<lparr>h_rec_tail := tail + 1\<rparr>"
  by (simp_all add: finish_def)

lemma shown_ready_simps [simp]:
  "shown_ready (Pub_Write k pts clock head n) w r \<longleftrightarrow>
     (\<exists>v. r = (ready w)[unat head mod unat (h_ready_capacity w) := v])"
  "shown_ready (Pub_Store k pts clock head) w r \<longleftrightarrow>
     (\<exists>v. r = (ready w)[unat head mod unat (h_ready_capacity w) := v])"
  "shown_ready P_Idle w r \<longleftrightarrow> r = ready w" "shown_ready (Alloc_Try sz al) w r \<longleftrightarrow> r = ready w"
  "shown_ready (Pub_Head k pts clock) w r \<longleftrightarrow> r = ready w"
  "shown_ready (Pub_Tail k pts clock head) w r \<longleftrightarrow> r = ready w"
  "shown_ready (Used_Store pts clock rh) w r \<longleftrightarrow> r = ready w"
  "shown_ready (Mark_Load pts clock rh) w r \<longleftrightarrow> r = ready w"
  "shown_ready (Mark_Swap pts clock rh prev) w r \<longleftrightarrow> r = ready w"
  "shown_ready (Beacon pts clock rh) w r \<longleftrightarrow> r = ready w"
  "shown_ready (Snap_Gen pts now rh) w r \<longleftrightarrow> r = ready w"
  "shown_ready (Snap_Store pts now rh generation n) w r \<longleftrightarrow> r = ready w"
  "shown_ready Drain_Head w r \<longleftrightarrow> r = ready w" "shown_ready (Drain_Tail head) w r \<longleftrightarrow> r = ready w"
  "shown_ready (Drain_Read tail n d) w r \<longleftrightarrow> r = ready w"
  "shown_ready (Drain_Store tail) w r \<longleftrightarrow> r = ready w" "shown_ready Drain_Used w r \<longleftrightarrow> r = ready w"
  by (simp_all add: shown_ready_def)

lemma finish_bookkeeping:
  "finish (Mark_Load pts clock rh) (w\<lparr>h_arena_used_bytes := used_bytes (w_allocator w)\<rparr>) =
     finish (Used_Store pts clock rh) w"
  "used_bytes (w_allocator w) > h_arena_high_watermark w \<Longrightarrow>
     finish (Mark_Swap pts clock rh (h_arena_high_watermark w)) w = finish (Mark_Load pts clock rh) w"
  "\<not> used_bytes (w_allocator w) > h_arena_high_watermark w \<Longrightarrow>
     finish (Beacon pts clock rh) w = finish (Mark_Load pts clock rh) w"
  "finish (Beacon pts clock rh) (w\<lparr>h_arena_high_watermark := used_bytes (w_allocator w)\<rparr>) =
     finish (Mark_Swap pts clock rh prev) w"
  "finish (Snap_Store pts now rh (h_timeline_gen w) 0) w = finish (Snap_Gen pts now rh) w"
  by (simp_all add: finish_def update_usage_metrics_def Let_def snapshot_stores_def force_timeline_snapshot_def)

lemma finish_beacon:
  "finish (Beacon pts clock rh) w =
     (if h_timeline_gen w = w_last_timeline_snapshot_gen w \<and>
         \<not> saturating_sub (fst clock) (w_last_timeline_emit_ns w) \<ge> w_timeline_beacon_ns w
      then w else finish (Snap_Gen pts (snd clock) rh) w)"
  by (simp add: finish_def maybe_publish_timeline_snapshot_def Let_def)

lemma finish_snapshot:
  assumes "n < length (snapshot_stores pts now rh generation)"
  shows "finish (Snap_Store pts now rh generation n) w =
    (if Suc n < length (snapshot_stores pts now rh generation)
     then finish (Snap_Store pts now rh generation (Suc n)) ((snapshot_stores pts now rh generation ! n) w)
     else (snapshot_stores pts now rh generation ! n) w)"
  using assms by (simp add: finish_def Cons_nth_drop_Suc [symmetric])

lemma shown_recycle_window:
  assumes "shown_recycle q (sy_writer s) y" "consumer_inv q s"
  shows "same_window (recycle (sy_writer s)) y (h_rec_head (sy_writer s)) (h_rec_tail (sy_writer s))
    (ucast (h_rec_capacity (sy_writer s)))"
  using assms same_window_put [of _ "h_rec_tail (sy_writer s)" "ucast (h_rec_capacity (sy_writer s))"]
  by (cases q) (auto simp: shown_recycle_def consumer_inv_def Let_def)

lemma shown_ready_window:
  assumes "shown_ready p (sy_writer s) r" "producer_inv p s"
  shows "same_window (ready (sy_writer s)) r (h_ready_head (sy_writer s)) (h_ready_tail (sy_writer s))
    (ucast (h_ready_capacity (sy_writer s)))"
  using assms same_window_put [of _ "h_ready_tail (sy_writer s)" "ucast (h_ready_capacity (sy_writer s))"]
  by (cases p) (auto simp: shown_ready_def producer_inv_def Let_def)

lemma publish_completes:
  assumes own: "owned t" and l: "linked (Pub_Store k pts clock head) q s t"
    and inv: "producer_inv (Pub_Store k pts clock head) s" and cinv: "consumer_inv q s"
    and st: "producer_step (Pub_Store k pts clock head) s = (p', s', done, ok)"
  shows "\<exists>t'. atoms_exec done t = Some t' \<and> linked p' q s' t'"
proof -
  let ?w = "sy_writer s" and ?a = "sy_writer t"
  let ?i = "unat head mod unat (h_ready_capacity ?w)" and ?e = "ready_entry head (sy_pending s ! k) pts"
  from l obtain v y where y: "shown_recycle q ?w y" 
    and a: "?a = ?w\<lparr>ready := (ready ?w)[?i := v], recycle := y, h_ready_tail := shown_tail q ?w\<rparr>"
    by (auto simp: linked_def)
  from inv have i: "k < length (sy_pending s)" "head = h_ready_head ?w"
    "unat head < unat (h_ready_tail ?w) + unat (h_ready_capacity ?w)" "ready_at ?w head = ?e"
    by (auto simp: producer_inv_def Let_def)
  have st': "p' = Used_Store pts clock (head + 1)" "done = [Call (Publish k pts clock)]"
    "s' = s\<lparr>sy_writer := ?w\<lparr>h_ready_head := head + 1\<rparr>, sy_pending := vec_remove k (sy_pending s)\<rparr>"
    using st by (simp_all add: producer_step_def is_alloc_def is_drain_def)
  note f = linked_fields [OF l]
  have ok: "ready_ok ?a" using own by (simp add: owned_def writer_ok_def)
  then have "unat (h_ready_tail ?a) \<le> unat (h_ready_head ?w)" by (simp add: ready_ok_def ring_ok_def f)
  then have room: "h_ready_head ?a - h_ready_tail ?a < ucast (h_ready_capacity ?a)"
    using i(2,3) linked_ready_tail(2) [OF l cinv] by (simp add: f word_less_nat_alt unat_sub_no_underflow)
  let ?tail = "shown_tail q ?w"
  let ?w1 = "?w\<lparr>h_ready_head := head + 1\<rparr>"
  have "ready ?w = (ready ?w)[?i := ?e]" using i(4) by (metis list_update_id)
  then have "?a\<lparr>ready := (ready ?a)[?i := ?e], h_ready_head := head + 1\<rparr> =
      ?w1\<lparr>ready := ready ?w1, recycle := y, h_ready_tail := ?tail\<rparr>"
    by (simp add: a)
  then have "publish_lease_try clock (sy_pending s ! k) pts ?a =
      Some (maybe_publish_timeline_snapshot clock pts (head + 1)
        (update_usage_metrics (?w1\<lparr>ready := ready ?w1, recycle := y, h_ready_tail := ?tail\<rparr>)), Ok ())"
    using publish_lease_try_room [OF ok room, of clock "sy_pending s ! k" pts]
    by (simp only: f i(2) [symmetric])
  then have "publish_lease_try clock (sy_pending s ! k) pts ?a =
      Some ((finish (Used_Store pts clock (head + 1)) ?w1)\<lparr>ready := ready ?w1, recycle := y, h_ready_tail := ?tail\<rparr>, Ok ())"
    by (simp only: update_usage_metrics_change [OF ring_changeI(1)]
        maybe_publish_timeline_snapshot_change [OF ring_changeI(1)] finish_def producer_pc.case)
  moreover have "shown_recycle q ?w1 y" using y by (simp add: shown_recycle_def cong: consumer_pc.case_cong)
  moreover have "shown_tail q ?w1 = ?tail" by (simp add: shown_tail_def cong: consumer_pc.case_cong)
  ultimately show ?thesis using i(1) f(8,9) by (auto simp: st' linked_def)
qed

lemma drain_round_completes:
  assumes own: "owned t" and l: "linked (Drain_Read tail n d) q s t" and r: "rings (sy_writer s)"
    and inv: "producer_inv (Drain_Read tail n d) s" and cinv: "consumer_inv q s"
    and st: "producer_step (Drain_Read tail n d) s = (p', s', done, ok)" and n: "\<not> Suc n < length recycle_fields"
  shows "\<exists>t'. atoms_exec done t = Some t' \<and> linked p' q s' t'"
proof -
  let ?w = "sy_writer s" and ?a = "sy_writer t" and ?d = "recycle_at (sy_writer s) tail"
  from l obtain y where y: "shown_recycle q ?w y"
    and a: "?a = ?w\<lparr>ready := ready ?w, recycle := y, h_ready_tail := shown_tail q ?w\<rparr>"
    by (auto simp: linked_def)
  from inv obtain old where i: "tail = h_rec_tail ?w" "unat tail < unat (h_rec_head ?w)" "n < length recycle_fields"
    "d = copied recycle_fields n ?d old"
    by (auto simp: producer_inv_def Let_def)
  have "(recycle_fields ! n) ?d d = ?d" using recycle_slot.copied_step [OF i(3,4)] n by simp
  then have st': "p' = Drain_Store tail" "done = [Drain_Round]"
    "s' = on_writer (\<lambda>w. w\<lparr>w_allocator := fst (free_by_id (w_allocator w) (rc_buffer_id ?d))\<rparr>) s"
    using st n by (auto simp: producer_step_def is_alloc_def is_drain_def Let_def ring_get_Some [OF ring_okD(2) [OF r]])
  note win = shown_recycle_window [OF y cinv]
  have ring: "ring_ok y (h_rec_head ?w) (h_rec_tail ?w) (ucast (h_rec_capacity ?w))"
    by (rule same_window_ring(1) [OF win ring_okD(2) [OF r]])
  have at: "y ! (unat tail mod unat (h_rec_capacity ?w)) = ?d"
    using same_window_at [OF win] i(1,2) by simp
  have "h_rec_head ?w \<noteq> h_rec_tail ?w" using i(1,2) by auto
  then have one: "drain_one ?a = (?a\<lparr>w_allocator := fst (free_by_id (w_allocator ?w) (rc_buffer_id ?d)),
      h_rec_tail := tail + 1\<rparr>, Ok (Some ?d))"
    using ring_get_Some [OF ring, of tail] at by (simp add: drain_one_def a Let_def i(1))
  have "shown_recycle q (sy_writer s') y"
    using y by (simp add: st'(3) shown_recycle_def cong: consumer_pc.case_cong)
  moreover have "?a\<lparr>w_allocator := fst (free_by_id (w_allocator ?w) (rc_buffer_id ?d)), h_rec_tail := tail + 1\<rparr> =
      (finish p' (sy_writer s'))\<lparr>ready := ready ?w, recycle := y, h_ready_tail := shown_tail q (sy_writer s')\<rparr>"
    by (simp add: st' a) (simp add: shown_tail_def cong: consumer_pc.case_cong)
  moreover have "shown_ready p' (sy_writer s') (ready ?w)" by (simp add: st')
  ultimately have "linked p' q s' (t\<lparr>sy_writer := ?a\<lparr>w_allocator :=
      fst (free_by_id (w_allocator ?w) (rc_buffer_id ?d)), h_rec_tail := tail + 1\<rparr>\<rparr>)"
    using linked_fields(8,9) [OF l] unfolding linked_def st'(3) by auto
  with one show ?thesis by (simp add: st'(2))
qed

text \<open>
  Calls that touch only what the producer owns. Between its calls the atomic model differs from the
  writer at most in a slot of the recycle ring.
\<close>

lemma linked_quiet:
  assumes "linked p q s t" "finish p (sy_writer s) = sy_writer s" "\<And>r. shown_ready p (sy_writer s) r \<Longrightarrow> r = ready (sy_writer s)"
  obtains y where "shown_recycle q (sy_writer s) y"
    "sy_writer t = (sy_writer s)\<lparr>recycle := y, h_ready_tail := shown_tail q (sy_writer s)\<rparr>"
    "sy_pending t = sy_pending s" "sy_held t = sy_held s"
proof -
  from assms obtain r y where y: "shown_ready p (sy_writer s) r" "shown_recycle q (sy_writer s) y"
    "sy_writer t = (sy_writer s)\<lparr>ready := r, recycle := y, h_ready_tail := shown_tail q (sy_writer s)\<rparr>"
    by (auto simp: linked_def)
  have "sy_writer t = (sy_writer s)\<lparr>recycle := y, h_ready_tail := shown_tail q (sy_writer s)\<rparr>"
    using y(1,3) assms(3) by simp
  with y(2) assms(1) show ?thesis by (auto simp: linked_def intro: that)
qed

lemma linked_quietI:
  assumes "shown_recycle q w y" "recycle (sy_writer s) = recycle w"
    "h_rec_capacity (sy_writer s) = h_rec_capacity w" "h_ready_tail (sy_writer s) = h_ready_tail w"
    "sy_writer t = (sy_writer s)\<lparr>recycle := y, h_ready_tail := shown_tail q w\<rparr>" "sy_pending t = sy_pending s" "sy_held t = sy_held s"
  shows "linked P_Idle q s t"
proof -
  have "shown_recycle q (sy_writer s) y" using assms(1) by (simp only: shown_recycle_def assms(2,3))
  moreover have "shown_tail q (sy_writer s) = shown_tail q w" by (simp only: shown_tail_def assms(4))
  then have "sy_writer t = (finish P_Idle (sy_writer s))
      \<lparr>ready := ready (sy_writer s), recycle := y, h_ready_tail := shown_tail q (sy_writer s)\<rparr>"
    using assms(5) by simp
  moreover have "shown_ready P_Idle (sy_writer s) (ready (sy_writer s))" by (simp add: shown_ready_def)
  ultimately show ?thesis using assms(6,7) unfolding linked_def by blast
qed

lemma lease_completes:
  assumes l: "linked (Alloc_Try sz align) q s t"
    and st: "producer_step (Alloc_Try sz align) s = (p', s', done, True)"
  shows "\<exists>t'. atoms_exec done t = Some t' \<and> linked p' q s' t'"
proof -
  let ?w = "sy_writer s"
  obtain y where y: "shown_recycle q ?w y" "sy_writer t = ?w\<lparr>recycle := y, h_ready_tail := shown_tail q ?w\<rparr>" "sy_pending t = sy_pending s"
    "sy_held t = sy_held s"
    by (rule linked_quiet [OF l]) (simp, simp, rule that)
  obtain a x where a: "alloc (w_allocator ?w) sz align = Some (a, x)"
    and st': "p' = P_Idle" "s' = granted a x s" "done = [Call (Lease sz align)]"
    using st by (auto simp: producer_step_def is_alloc_def split: option.splits)
  let ?t = "t\<lparr>sy_writer := (sy_writer s')\<lparr>recycle := y, h_ready_tail := shown_tail q ?w\<rparr>, sy_pending := sy_pending s'\<rparr>"
  have "lease_of (sy_writer t) x = lease_of ?w x" by (simp add: lease_of_def w_arena_def y(2))
  then have "alloc_lease (sy_writer t) sz align = ((sy_writer s')\<lparr>recycle := y, h_ready_tail := shown_tail q ?w\<rparr>, Ok (lease_of ?w x))"
    by (subst alloc_lease.simps) (simp add: y(2) a st'(2) granted_def)
  then have "sys_exec (Lease sz align) t = Some ?t"
    by (simp add: y(3) st'(2) granted_def)
  moreover have "linked P_Idle q s' ?t"
    by (rule linked_quietI [OF y(1)]) (use y(4) in \<open>simp_all add: st'(2) granted_def\<close>)
  ultimately show ?thesis by (simp add: st' del: sys_exec.simps)
qed

lemma drain_end_completes:
  assumes l: "linked Drain_Used q s t" and st: "producer_step Drain_Used s = (p', s', done, ok)"
  shows "\<exists>t'. atoms_exec done t = Some t' \<and> linked p' q s' t'"
proof -
  let ?w = "sy_writer s"
  obtain y where y: "shown_recycle q ?w y" "sy_writer t = ?w\<lparr>recycle := y, h_ready_tail := shown_tail q ?w\<rparr>" "sy_pending t = sy_pending s"
    "sy_held t = sy_held s"
    by (rule linked_quiet [OF l]) (simp, simp, rule that)
  have st': "p' = P_Idle" "done = [Drain_End]"
    "s' = on_writer (\<lambda>w. w\<lparr>h_arena_used_bytes := used_bytes (w_allocator w)\<rparr>) s"
    using st by (simp_all add: producer_step_def is_alloc_def is_drain_def)
  have "linked P_Idle q s' (t\<lparr>sy_writer := (sy_writer s')\<lparr>recycle := y, h_ready_tail := shown_tail q ?w\<rparr>\<rparr>)"
    by (rule linked_quietI [OF y(1)]) (simp_all add: st'(3) y(3,4))
  moreover have "(sy_writer t)\<lparr>h_arena_used_bytes := used_bytes (w_allocator (sy_writer t))\<rparr> =
      (sy_writer s')\<lparr>recycle := y, h_ready_tail := shown_tail q ?w\<rparr>"
    by (simp add: st'(3) y(2))
  ultimately show ?thesis by (simp add: st'(1,2) del: sys.surjective)
qed

lemma start_completes:
  assumes l: "linked P_Idle q s t" and st: "producer_start x s = (p', s', done, ok)"
  shows "\<exists>t'. atoms_exec done t = Some t' \<and> linked p' q s' t'"
proof -
  let ?w = "sy_writer s"
  obtain y where y: "shown_recycle q ?w y" "sy_writer t = ?w\<lparr>recycle := y, h_ready_tail := shown_tail q ?w\<rparr>" "sy_pending t = sy_pending s"
    "sy_held t = sy_held s"
    by (rule linked_quiet [OF l]) (simp, simp, rule that)
  show ?thesis
  proof (cases x)
    case (P_Fill k bytes)
    show ?thesis
    proof (cases "sys_exec (Fill k bytes) s")
      case None
      then show ?thesis using st l by (auto simp: P_Fill simp del: sys_exec.simps)
    next
      case (Some u)
      then have k: "k < length (sy_pending s)" "length bytes = unat (ls_len (sy_pending s ! k))"
        "u = on_writer (copy_payload (sy_pending s ! k) bytes) s"
        by (auto split: if_splits)
      have "linked P_Idle q u (t\<lparr>sy_writer := (sy_writer u)\<lparr>recycle := y, h_ready_tail := shown_tail q ?w\<rparr>\<rparr>)"
        by (rule linked_quietI [OF y(1)]) (simp_all add: k(3) copy_payload_def y(3,4))
      moreover have "sys_exec (Fill k bytes) t = Some (t\<lparr>sy_writer := (sy_writer u)\<lparr>recycle := y, h_ready_tail := shown_tail q ?w\<rparr>\<rparr>)"
        using k y by (simp add: copy_payload_def w_arena_def)
      ultimately show ?thesis using st Some by (auto simp: P_Fill simp del: sys_exec.simps)
    qed
  next
    case (P_Cancel k)
    show ?thesis
    proof (cases "sys_exec (Cancel k) s")
      case None
      then show ?thesis using st l by (auto simp: P_Cancel simp del: sys_exec.simps)
    next
      case (Some u)
      then have k: "k < length (sy_pending s)"
        "u = s\<lparr>sy_writer := fst (free_lease ?w (ls_buffer_id (sy_pending s ! k))),
               sy_pending := vec_remove k (sy_pending s)\<rparr>"
        by (auto split: if_splits)
      let ?t = "t\<lparr>sy_writer := (sy_writer u)\<lparr>recycle := y, h_ready_tail := shown_tail q ?w\<rparr>, sy_pending := sy_pending u\<rparr>"
      have "linked P_Idle q u ?t"
        by (rule linked_quietI [OF y(1)]) (simp_all add: k(2) free_lease_def case_prod_beta Let_def y(3,4))
      moreover have "sys_exec (Cancel k) t = Some ?t"
        using k y by (simp add: free_lease_def case_prod_beta Let_def)
      ultimately show ?thesis using st Some by (auto simp: P_Cancel simp del: sys_exec.simps)
    qed
  next
    case (P_Lease sz align)
    then have "linked p' q s' t" by (intro linked_same [OF l]) (use st in auto)
    then show ?thesis using st P_Lease by simp
  next
    case (P_Publish k pts clock)
    then have "linked p' q s' t" by (intro linked_same [OF l]) (use st in \<open>auto split: if_splits\<close>)
    then show ?thesis using st P_Publish by (auto split: if_splits)
  next
    case P_Drain
    then have "linked p' q s' t" by (intro linked_same [OF l]) (use st in auto)
    then show ?thesis using st P_Drain by simp
  next
    case (P_Emit pts now)
    let ?t = "t\<lparr>sy_writer := emit_timeline_snapshot now pts (sy_writer t)\<rparr>"
    have st': "p' = Snap_Gen pts now (h_ready_head ?w)" "s' = s" "done = [Emit pts now]"
      using st by (auto simp: P_Emit)
    have "sy_writer ?t =
        (force_timeline_snapshot now pts (h_ready_head ?w) ?w)\<lparr>recycle := y, h_ready_tail := shown_tail q ?w\<rparr>"
      by (simp add: y(2) emit_timeline_snapshot_def force_timeline_snapshot_change [OF ring_changeI(2)]
          force_timeline_snapshot_change [OF ring_changeI(3)])
    also have "\<dots> = (finish p' (sy_writer s'))\<lparr>ready := ready ?w, recycle := y, h_ready_tail := shown_tail q (sy_writer s')\<rparr>"
      by (simp add: st' finish_def force_timeline_snapshot_def Let_def)
    finally have "linked p' q s' ?t"
      using y(1,3,4) st' unfolding linked_def by auto
    then show ?thesis by (simp add: st')
  qed
qed

lemma list_update_self: "\<exists>v. xs = xs[i := v]"
  by (metis list_update_id)

lemma producer_step_linked:
  assumes own: "owned t" and l: "linked p q s t" and r: "rings (sy_writer s)"
    and inv: "producer_inv p s" and cinv: "consumer_inv q s"
    and st: "producer_step p s = (p', s', done, True)"
  shows "\<exists>t'. atoms_exec done t = Some t' \<and> linked p' q s' t'"
proof -
  note ring = ring_okD [OF r]
  note step_defs = producer_step_def is_alloc_def is_drain_def
  show ?thesis
  proof (cases "done = []")
    case True
    have "linked p' q s' t"
    proof (cases p)
      case (Drain_Read tail n d)
      then have "Suc n < length recycle_fields"
        using st True ring_get_Some [OF ring(2), of tail] by (auto simp: step_defs Let_def split: if_splits)
      then show ?thesis
        by (intro linked_same [OF l])
          (use st ring_get_Some [OF ring(2), of tail] in \<open>auto simp: Drain_Read step_defs Let_def\<close>)
    next
      case (Pub_Write k pts clock head n)
      show ?thesis
        by (intro linked_same [OF l])
          (use st in \<open>auto simp: Pub_Write step_defs ring_put_field_Some [OF ring(1)]\<close>)
    next
      case (Snap_Store pts now rh generation n)
      have n: "n < length (snapshot_stores pts now rh generation)" using inv by (simp add: Snap_Store producer_inv_def)
      then have "snapshot_stores pts now rh generation ! n \<in> set (snapshot_stores pts now rh generation)" by simp
      note same = snapshot_store_rings [OF this]
      show ?thesis
        by (intro linked_same [OF l])
          (use st finish_snapshot [OF n, of "sy_writer s"] in \<open>auto simp: Snap_Store step_defs Let_def same split: if_splits\<close>)
    next
      case (Beacon pts clock rh)
      show ?thesis
        by (intro linked_same [OF l])
          (use st in \<open>auto simp: Beacon step_defs finish_beacon split: if_splits\<close>)
    next
      case (Mark_Swap pts clock rh prev)
      show ?thesis
        by (intro linked_same [OF l])
          (use st inv in \<open>auto simp: Mark_Swap step_defs finish_bookkeeping(4) [of pts clock rh _ prev] producer_inv_def Let_def split: if_splits\<close>)
    next
      case (Pub_Store k pts clock head)
      with st True show ?thesis by (simp add: step_defs)
    next
      case (Alloc_Try sz align)
      with st True show ?thesis by (auto simp: step_defs split: option.splits)
    next
      case Drain_Used
      with st True show ?thesis by (simp add: step_defs)
    next
      case (Drain_Tail head)
      show ?thesis
        by (intro linked_same [OF l]) (use st in \<open>auto simp: Drain_Tail step_defs Let_def split: if_splits\<close>)
    next
      case (Pub_Tail k pts clock head)
      show ?thesis
        by (intro linked_same [OF l]) (use st in \<open>auto simp: Pub_Tail step_defs list_update_self split: if_splits\<close>)
    qed (intro linked_same [OF l]; use st inv in \<open>auto simp: step_defs producer_inv_def Let_def finish_bookkeeping split: if_splits\<close>)+
    with True show ?thesis by simp
  next
    case False
    with st consider (publish) k pts clock head where "p = Pub_Store k pts clock head"
      | (lease) sz align where "p = Alloc_Try sz align" | (drained) "p = Drain_Used"
      | (round) tail n d where "p = Drain_Read tail n d" "\<not> Suc n < length recycle_fields"
      by (cases p) (auto simp: step_defs Let_def split: if_splits option.splits)
    then show ?thesis
    proof cases
      case publish
      with publish_completes own l inv cinv st show ?thesis by blast
    next
      case lease
      with lease_completes l st show ?thesis by blast
    next
      case drained
      with drain_end_completes l st show ?thesis by blast
    next
      case round
      with drain_round_completes own l r inv cinv st show ?thesis by blast
    qed
  qed
qed

end
