(* ===== verification/Consumer_Steps.thy ===== *)
theory Consumer_Steps
  imports Producer_Steps
begin

text \<open>
  Each step of \<open>try_recv_desc\<close> and \<open>recycle_desc\<close> keeps the invariant of the consumer, leaves alone
  what the producer relies on, and is either invisible in the atomic model or one call of it.
\<close>

section \<open>Steps of the consumer\<close>

lemma given_write_inv:
  assumes inv: "consumer_inv (Give_Write k st head n) s" and r: "rings (sy_writer s)"
    and st: "consumer_step (Give_Write k st head n) s = (q', s', done)"
  shows "consumer_inv q' s' \<and> rings (sy_writer s') \<and> consumer_keeps s s'"
proof -
  let ?w = "sy_writer s"
  let ?i = "unat head mod unat (h_rec_capacity ?w)" and ?e = "given_entry head st (sy_held s ! k)"
  let ?d = "(recycle_fields ! n) ?e (recycle_at ?w head)"
  note ring = ring_okD(2) [OF r]
  from inv obtain old where i: "k < length (sy_held s)" "rec_room ?w head" "n < length recycle_fields"
    "recycle_at ?w head = copied recycle_fields n ?e old"
    by (auto simp: consumer_inv_def Let_def)
  have s': "s' = on_writer (\<lambda>w. w\<lparr>recycle := (recycle w)[?i := ?d]\<rparr>) s"
    "q' = (if Suc n < length recycle_fields then Give_Write k st head (Suc n) else Give_Store k st head)"
    using st by (auto simp: consumer_step_def is_give_def is_latest_def ring_put_field_Some [OF ring])
  have at: "recycle_at (sy_writer s') head = ?d" using ring_index [OF ring] by (simp add: s'(1))
  have "consumer_inv q' s'"
    using recycle_slot.copied_step [OF i(3,4)] i(1-3) at
    by (auto simp: consumer_inv_def Let_def s'(2) split: if_splits) (auto simp: s'(1))
  moreover have "rings (sy_writer s')" using r by (simp add: rings_def s'(1))
  moreover have "consumer_keeps s s'"
    using i(2) same_window_put [of head "h_rec_tail ?w" "ucast (h_rec_capacity ?w)"]
    by (auto simp: consumer_keeps_def Let_def s'(1))
  ultimately show ?thesis by blast
qed

lemma received_read_inv:
  assumes inv: "consumer_inv (Recv_Read tail n d) s" and r: "rings (sy_writer s)"
    and st: "consumer_step (Recv_Read tail n d) s = (q', s', done)"
  shows "consumer_inv q' s' \<and> s' = s"
proof -
  let ?w = "sy_writer s" and ?d' = "(ready_fields ! n) (ready_at (sy_writer s) tail) d"
  from inv obtain old where i: "ready_waits ?w tail" "n < length ready_fields"
    "d = copied ready_fields n (ready_at ?w tail) old"
    by (auto simp: consumer_inv_def Let_def)
  have st': "s' = s" "q' = (if Suc n < length ready_fields then Recv_Read tail (Suc n) ?d' else Recv_Check tail ?d')"
    using st by (simp_all add: consumer_step_def is_give_def is_latest_def ring_get_Some [OF ring_okD(1) [OF r]] Let_def)
  show ?thesis
    using ready_slot.copied_step [OF i(2,3)] i(1,2) st' by (auto simp: consumer_inv_def Let_def split: if_splits)
qed

lemma consumer_keeps_refl [simp]: "consumer_keeps s s"
  by (simp add: consumer_keeps_def)

lemma plain_step_inv:
  assumes plain: "\<not> is_latest q" and inv: "consumer_inv q s" and r: "rings (sy_writer s)"
    and low: "unat (h_rec_head (sy_writer s)) + 1 < 2 ^ 64"
    and st: "consumer_step q s = (q', s', done)"
  shows "consumer_inv q' s' \<and> rings (sy_writer s') \<and> consumer_keeps s s'"
proof -
  note ring = ring_okD [OF r]
  have order: "unat (h_ready_tail (sy_writer s)) \<le> unat (h_ready_head (sy_writer s))"
    using ring(1) by (simp add: ring_ok_def)
  have succ: "unat (h_rec_head (sy_writer s) + 1) = Suc (unat (h_rec_head (sy_writer s)))"
    using unat_succ [OF low] by simp
  note step_defs = consumer_step_def is_give_def is_latest_def consumer_inv_def Let_def
  show ?thesis
  proof (cases q)
    case Give_Write
    with given_write_inv inv r st show ?thesis by blast
  next
    case (Recv_Read tail n d)
    with received_read_inv [of tail n d s q' s' "done"] inv r st
    have "consumer_inv q' s'" "s' = s" by blast+
    with r show ?thesis by auto
  next
    case (Recv_Tail head)
    show ?thesis
      using inv r st unfolding Recv_Tail
      by (auto simp: step_defs ready_fields_def copied_def word_unat_eq_iff split: if_splits)
  next
    case (Recv_Store tail d)
    show ?thesis
      using inv r st ring_ok_popped [OF ring(1)] unfolding Recv_Store
      by (auto simp: step_defs rings_def consumer_keeps_def unat_succ_less)
  next
    case (Give_Tail k status head)
    show ?thesis
      using inv r st ring_room_nat [OF ring(2), of "h_rec_tail (sy_writer s)"] unfolding Give_Tail
      by (auto simp: step_defs recycle_fields_def copied_def split: if_splits)
  next
    case (Give_Store k status head)
    show ?thesis
      using inv r st ring_ok_pushed [OF ring(2) _ low] succ unfolding Give_Store
      by (auto simp: step_defs rings_def consumer_keeps_def)
  next
    case (Recv_Check tail d)
    show ?thesis
      using inv r st unfolding Recv_Check
      by (auto simp: step_defs split: res.splits)
  qed (use plain inv r st order in \<open>auto simp: step_defs split: if_splits\<close>)
qed

subsection \<open>What the atomic model does\<close>

lemma linked_same_recycle:
  assumes l: "linked p q s t" and s': "s' = on_writer (\<lambda>w. w\<lparr>recycle := z\<rparr>) s"
    and show': "\<And>y. shown_recycle q (sy_writer s) y \<Longrightarrow> shown_recycle q' (sy_writer s') y"
    and tail: "shown_tail q' (sy_writer s) = shown_tail q (sy_writer s)"
  shows "linked p q' s' t"
proof -
  from l obtain r y where y: "shown_ready p (sy_writer s) r" "shown_recycle q (sy_writer s) y"
    "sy_writer t = (finish p (sy_writer s))\<lparr>ready := r, recycle := y, h_ready_tail := shown_tail q (sy_writer s)\<rparr>"
    by (auto simp: linked_def)
  have "shown_tail q' (sy_writer s') = shown_tail q' (sy_writer s)"
    by (simp add: s' shown_tail_def cong: consumer_pc.case_cong)
  note tail' = trans [OF this tail]
  have "shown_ready p (sy_writer s') r" using y(1) by (simp add: s' shown_ready_def cong: producer_pc.case_cong)
  moreover have "sy_writer t =
      (finish p (sy_writer s'))\<lparr>ready := r, recycle := y, h_ready_tail := shown_tail q' (sy_writer s')\<rparr>"
    unfolding tail' by (simp add: s' y(3) finish_change [OF ring_changeI(2)])
  moreover have "sy_pending t = sy_pending s'" "sy_held t = sy_held s'" using l by (simp_all add: linked_def s')
  ultimately show ?thesis using show' [OF y(2)] unfolding linked_def by blast
qed

lemma linked_same_consumer:
  assumes "linked p q s t" "\<And>y. shown_recycle q (sy_writer s) y \<Longrightarrow> shown_recycle q' (sy_writer s) y"
    "shown_tail q' (sy_writer s) = shown_tail q (sy_writer s)"
  shows "linked p q' s t"
  by (rule linked_same_recycle [OF assms(1), of _ "recycle (sy_writer s)"]) (use assms(2,3) in simp_all)

lemma receive_completes:
  assumes own: "owned t" and l: "linked p (Recv_Store tail d) s t" and r: "rings (sy_writer s)"
    and inv: "consumer_inv (Recv_Store tail d) s" and pinv: "producer_inv p s"
    and st: "consumer_step (Recv_Store tail d) s = (q', s', done)"
  shows "\<exists>t'. atoms_exec done t = Some t' \<and> linked p q' s' t'"
proof -
  let ?w = "sy_writer s" and ?a = "sy_writer t"
  from l obtain x where x: "shown_ready p ?w x" 
    "?a = (finish p ?w)\<lparr>ready := x, recycle := recycle ?w, h_ready_tail := h_ready_tail ?w\<rparr>"
    by (auto simp: linked_def shown_recycle_def shown_tail_def)
  from inv have i: "tail = h_ready_tail ?w" "unat tail < unat (h_ready_head ?w)" "d = ready_at ?w tail"
    by (auto simp: consumer_inv_def Let_def)
  have st': "q' = C_Idle" "done = [Call Receive]"
    "s' = s\<lparr>sy_writer := ?w\<lparr>h_ready_tail := tail + 1\<rparr>, sy_held := sy_held s @ [received_of d]\<rparr>"
    using st by (simp_all add: consumer_step_def is_give_def is_latest_def)
  note f = linked_fields [OF l]
  have ft: "h_ready_tail ?a = h_ready_tail ?w" by (simp add: x(2))
  have ok: "ready_ok ?a" using own by (simp add: owned_def writer_ok_def)
  have ring: "ring_ok (ready ?a) (h_ready_head ?w) (h_ready_tail ?w) (ucast (h_ready_capacity ?w))"
    using ok by (simp add: ready_ok_def f ft)
  have at: "ready ?a ! (unat (h_ready_tail ?w) mod unat (h_ready_capacity ?w)) = d"
    using same_window_at [OF shown_ready_window [OF x(1) pinv]] i by (simp add: x(2))
  have "h_ready_head ?w \<noteq> h_ready_tail ?w" using i(1,2) by auto
  from ring_pop(2) [OF ring this] have q: "ready_entries ?a = d # ring_list (ready ?a) (h_ready_head ?w)
      (h_ready_tail ?w + 1) (ucast (h_ready_capacity ?w))"
    using at by (simp add: ready_entries_def f ft)
  note rcv = try_recv_desc_some(1) [OF ok q]
  let ?t = "t\<lparr>sy_writer := ?a\<lparr>h_ready_tail := tail + 1\<rparr>, sy_held := sy_held t @ [received_of d]\<rparr>"
  have "sys_exec Receive t = Some ?t" by (simp add: rcv f ft i(1))
  moreover have "shown_ready p (sy_writer s') x"
    using x(1) by (simp add: st'(3) shown_ready_def cong: producer_pc.case_cong)
  moreover have "sy_writer ?t = (finish p (sy_writer s'))
      \<lparr>ready := x, recycle := recycle (sy_writer s'), h_ready_tail := shown_tail C_Idle (sy_writer s')\<rparr>"
    by (simp add: st'(3) x(2) finish_change [OF ring_changeI(3)] shown_tail_def)
  moreover have "shown_recycle C_Idle (sy_writer s') (recycle (sy_writer s'))" by (simp add: shown_recycle_def)
  ultimately have "linked p C_Idle s' ?t \<and> sys_exec Receive t = Some ?t"
    using f(8,9) st'(3) unfolding linked_def by auto
  then show ?thesis by (auto simp: st'(1,2) simp del: sys_exec.simps)
qed

lemma linked_rec_tail:
  assumes "linked p q s t" "producer_inv p s"
  shows "unat (h_rec_tail (sy_writer s)) \<le> unat (h_rec_tail (sy_writer t))"
proof -
  have "unat (h_rec_tail (sy_writer s)) \<le> unat (h_rec_tail (finish p (sy_writer s)))"
    using assms(2) by (cases p) (auto simp: finish_def producer_inv_def Let_def unat_succ_less)
  then show ?thesis using assms(1) by (auto simp: linked_def)
qed

lemma give_back_completes:
  assumes own: "owned t" and l: "linked p (Give_Store k status head) s t"
    and inv: "consumer_inv (Give_Store k status head) s" and pinv: "producer_inv p s"
    and st: "consumer_step (Give_Store k status head) s = (q', s', done)"
  shows "\<exists>t'. atoms_exec done t = Some t' \<and> linked p q' s' t'"
proof -
  let ?w = "sy_writer s" and ?a = "sy_writer t" and ?d = "sy_held s ! k"
  let ?i = "unat head mod unat (h_rec_capacity ?w)" and ?e = "given_entry head status ?d"
  from l obtain x v where x: "shown_ready p ?w x" 
    "?a = (finish p ?w)\<lparr>ready := x, recycle := (recycle ?w)[?i := v], h_ready_tail := h_ready_tail ?w\<rparr>"
    by (auto simp: linked_def shown_recycle_def shown_tail_def)
  from inv have i: "k < length (sy_held s)" "head = h_rec_head ?w"
    "unat head < unat (h_rec_tail ?w) + unat (h_rec_capacity ?w)" "recycle_at ?w head = ?e"
    by (auto simp: consumer_inv_def Let_def)
  have st': "q' = C_Idle" "done = [Call (Give_Back k status)]"
    "s' = s\<lparr>sy_writer := ?w\<lparr>h_rec_head := head + 1\<rparr>, sy_held := vec_remove k (sy_held s)\<rparr>"
    using st by (simp_all add: consumer_step_def is_give_def is_latest_def)
  note f = linked_fields [OF l]
  have ok: "rec_ok ?a" using own by (simp add: owned_def writer_ok_def)
  then have "unat (h_rec_tail ?a) \<le> unat (h_rec_head ?w)" by (simp add: rec_ok_def ring_ok_def f)
  then have room: "h_rec_head ?a - h_rec_tail ?a < ucast (h_rec_capacity ?a)"
    using i(2,3) linked_rec_tail [OF l pinv] by (simp add: f word_less_nat_alt unat_sub_no_underflow)
  let ?a' = "?a\<lparr>recycle := recycle ?w, h_rec_head := head + 1\<rparr>"
  have slots: "(recycle ?a)[?i := ?e] = recycle ?w" using i(4) by (simp add: x(2)) (metis list_update_id)
  have "try_recycle_desc (rv_buffer_id ?d) (rv_offset ?d) (rv_len ?d) status ?a = (?a', Ok True)"
    using try_recycle_desc_room [OF ok room, of "rv_buffer_id ?d" "rv_offset ?d" "rv_len ?d" status]
    by (simp add: f i(2) [symmetric] given_entry_def [symmetric] slots)
  then have "recycle_desc_try (rv_buffer_id ?d) (rv_offset ?d) (rv_len ?d) status ?a = Some (?a', Ok ())"
    by (simp add: recycle_desc_try_eq)
  then have "sys_exec (Give_Back k status) t = Some (t\<lparr>sy_writer := ?a', sy_held := vec_remove k (sy_held t)\<rparr>)"
    using i(1) f(9) by (simp add: Let_def)
  moreover have "shown_ready p (sy_writer s') x"
    using x(1) by (simp add: st'(3) shown_ready_def cong: producer_pc.case_cong)
  moreover have "?a' = (finish p (sy_writer s'))
      \<lparr>ready := x, recycle := recycle (sy_writer s'), h_ready_tail := shown_tail C_Idle (sy_writer s')\<rparr>"
    by (simp add: st'(3) x(2) finish_change [OF ring_changeI(4)] shown_tail_def)
  moreover have "shown_recycle C_Idle (sy_writer s') (recycle (sy_writer s'))" by (simp add: shown_recycle_def)
  ultimately have "linked p C_Idle s' (t\<lparr>sy_writer := ?a', sy_held := vec_remove k (sy_held t)\<rparr>) \<and>
      sys_exec (Give_Back k status) t = Some (t\<lparr>sy_writer := ?a', sy_held := vec_remove k (sy_held t)\<rparr>)"
    using f(8,9) st'(3) unfolding linked_def by auto
  then show ?thesis by (auto simp: st'(1,2) simp del: sys_exec.simps)
qed

lemma shown_recycle_simps [simp]:
  "shown_recycle (Give_Write k st head n) w y \<longleftrightarrow>
     (\<exists>v. y = (recycle w)[unat head mod unat (h_rec_capacity w) := v])"
  "shown_recycle (Give_Store k st head) w y \<longleftrightarrow>
     (\<exists>v. y = (recycle w)[unat head mod unat (h_rec_capacity w) := v])"
  "shown_recycle (Latest_Give_Write l d head n) w y \<longleftrightarrow>
     (\<exists>v. y = (recycle w)[unat head mod unat (h_rec_capacity w) := v])"
  "shown_recycle (Latest_Give_Store l d head) w y \<longleftrightarrow>
     (\<exists>v. y = (recycle w)[unat head mod unat (h_rec_capacity w) := v])"
  "shown_recycle C_Idle w y \<longleftrightarrow> y = recycle w" "shown_recycle Recv_Head w y \<longleftrightarrow> y = recycle w"
  "shown_recycle (Recv_Tail head) w y \<longleftrightarrow> y = recycle w"
  "shown_recycle (Recv_Read tail n d) w y \<longleftrightarrow> y = recycle w"
  "shown_recycle (Recv_Check tail d) w y \<longleftrightarrow> y = recycle w"
  "shown_recycle (Recv_Store tail d) w y \<longleftrightarrow> y = recycle w"
  "shown_recycle (Give_Head k st) w y \<longleftrightarrow> y = recycle w"
  "shown_recycle (Give_Tail k st head) w y \<longleftrightarrow> y = recycle w"
  "shown_recycle Latest_Head w y \<longleftrightarrow> y = recycle w"
  "shown_recycle (Latest_Tail head) w y \<longleftrightarrow> y = recycle w"
  "shown_recycle (Latest_Read l n d) w y \<longleftrightarrow> y = recycle w"
  "shown_recycle (Latest_Give_Head l d) w y \<longleftrightarrow> y = recycle w"
  "shown_recycle (Latest_Give_Tail l d head) w y \<longleftrightarrow> y = recycle w"
  "shown_recycle (Latest_Chosen l n d) w y \<longleftrightarrow> y = recycle w"
  "shown_recycle (Latest_Check l d) w y \<longleftrightarrow> y = recycle w"
  "shown_recycle (Latest_Store l d) w y \<longleftrightarrow> y = recycle w"
  "shown_recycle (Snap_Load n r) w y \<longleftrightarrow> y = recycle w"
  by (simp_all add: shown_recycle_def)

lemma shown_tail_simps [simp]:
  "shown_tail C_Idle w = h_ready_tail w" "shown_tail Recv_Head w = h_ready_tail w"
  "shown_tail (Recv_Tail head) w = h_ready_tail w" "shown_tail (Recv_Read tail n d) w = h_ready_tail w"
  "shown_tail (Recv_Check tail d) w = h_ready_tail w" "shown_tail (Recv_Store tail d) w = h_ready_tail w"
  "shown_tail (Give_Head k st) w = h_ready_tail w" "shown_tail (Give_Tail k st head) w = h_ready_tail w"
  "shown_tail (Give_Write k st head n) w = h_ready_tail w" "shown_tail (Give_Store k st head) w = h_ready_tail w"
  "shown_tail Latest_Head w = h_ready_tail w" "shown_tail (Latest_Tail head) w = h_ready_tail w"
  "shown_tail (Latest_Read l n d) w = lt_cur l" "shown_tail (Latest_Give_Head l d) w = lt_cur l"
  "shown_tail (Latest_Give_Tail l d head) w = lt_cur l" "shown_tail (Latest_Give_Write l d head n) w = lt_cur l"
  "shown_tail (Latest_Give_Store l d head) w = lt_cur l" "shown_tail (Latest_Chosen l n d) w = lt_cur l"
  "shown_tail (Latest_Check l d) w = lt_cur l" "shown_tail (Latest_Store l d) w = lt_cur l"
  "shown_tail (Snap_Load n r) w = h_ready_tail w"
  by (simp_all add: shown_tail_def)

lemma plain_step_linked:
  assumes plain: "\<not> is_latest q" and own: "owned t" and l: "linked p q s t" and r: "rings (sy_writer s)"
    and inv: "consumer_inv q s" and pinv: "producer_inv p s"
    and st: "consumer_step q s = (q', s', done)"
  shows "\<exists>t'. atoms_exec done t = Some t' \<and> linked p q' s' t'"
proof -
  note ring = ring_okD [OF r]
  note step_defs = consumer_step_def is_give_def is_latest_def Let_def
  show ?thesis
  proof (cases q)
    case (Recv_Store tail d)
    then show ?thesis using receive_completes [OF own _ r] l inv pinv st by blast
  next
    case (Give_Store k status head)
    then show ?thesis using give_back_completes [OF own] l inv pinv st by blast
  next
    case (Give_Write k status head n)
    let ?i = "unat head mod unat (h_rec_capacity (sy_writer s))"
    obtain z where z: "s' = on_writer (\<lambda>w. w\<lparr>recycle := (recycle w)[?i := z]\<rparr>) s" "done = []"
      "q' \<in> {Give_Write k status head (Suc n), Give_Store k status head}"
      using st that by (auto simp: Give_Write step_defs ring_put_field_Some [OF ring(2)])
    have "linked p q' s' t"
      by (rule linked_same_recycle [OF l, of _ "(recycle (sy_writer s))[?i := z]"])
        (use z in \<open>auto simp: Give_Write\<close>)
    then show ?thesis by (simp add: z(2))
  next
    case (Recv_Read tail n d)
    then have q': "s' = s" "done = []" "\<exists>d. q' = Recv_Read tail (Suc n) d \<or> q' = Recv_Check tail d"
      using st ring_get_Some [OF ring(1), of tail] by (auto simp: step_defs split: if_splits)
    have "linked p q' s t" by (rule linked_same_consumer [OF l]) (use q'(3) in \<open>auto simp: Recv_Read\<close>)
    then show ?thesis using q'(1,2) by simp
  next
    case (Recv_Tail head)
    have "linked p q' s t"
      by (rule linked_same_consumer [OF l]) (use st in \<open>auto simp: Recv_Tail step_defs split: if_splits\<close>)
    moreover have "s' = s" "done = []" using st by (auto simp: Recv_Tail step_defs split: if_splits)
    ultimately show ?thesis by simp
  next
    case (Give_Tail k status head)
    have "linked p q' s t"
      by (rule linked_same_consumer [OF l]) (use st in \<open>auto simp: Give_Tail step_defs list_update_self split: if_splits\<close>)
    moreover have "s' = s" "done = []" using st by (auto simp: Give_Tail step_defs split: if_splits)
    ultimately show ?thesis by simp
  next
    case (Recv_Check tail d)
    have "linked p q' s t"
      by (rule linked_same_consumer [OF l]) (use st in \<open>auto simp: Recv_Check step_defs split: res.splits\<close>)
    moreover have "s' = s" "done = []" using st by (auto simp: Recv_Check step_defs split: res.splits)
    ultimately show ?thesis by simp
  next
    case Recv_Head
    have "linked p q' s t"
      by (rule linked_same_consumer [OF l]) (use st in \<open>auto simp: Recv_Head step_defs\<close>)
    moreover have "s' = s" "done = []" using st by (auto simp: Recv_Head step_defs)
    ultimately show ?thesis by simp
  next
    case (Give_Head k status)
    have "linked p q' s t"
      by (rule linked_same_consumer [OF l]) (use st in \<open>auto simp: Give_Head step_defs\<close>)
    moreover have "s' = s" "done = []" using st by (auto simp: Give_Head step_defs)
    ultimately show ?thesis by simp
  qed (use plain st l inv in \<open>auto simp: step_defs consumer_inv_def\<close>)
qed

end
