(* ===== verification/Latest_Steps.thy ===== *)
theory Latest_Steps
  imports Consumer_Steps
begin

text \<open>
  The steps of \<open>try_recv_latest_desc\<close>. Its loop gives back the oldest entry, but moves the shared
  tail only with its last store: meanwhile the atomic model is ahead, by the entries the loop has
  given back (\<open>shown_tail\<close>). Each round completes one \<open>Skip_Oldest\<close>, the last store a \<open>Take_After\<close>.
  With \<open>Consumer_Steps\<close> this covers every step of the consumer.
\<close>

section \<open>The locals of the loop\<close>

lemma latest_ok_start:
  assumes "h_ready_tail w = tail" "unat tail < unat head" "unat head \<le> unat (h_ready_head w)"
  shows "latest_ok \<lparr>lt_head = head, lt_tail = tail, lt_cur = tail, lt_dropped = 0\<rparr> w"
proof (cases "saturating_sub head tail = 1")
  case True
  then have "unat head = unat tail + 1" using assms(2) unat_saturating_sub [of head tail] by simp
  moreover then have "head = tail + 1" using unat_succ_less [OF assms(2)] by (simp add: word_unat_eq_iff)
  ultimately show ?thesis using True assms by (simp add: latest_ok_def lt_chosen_def lt_new_tail_def)
next
  case False
  then have "unat head \<noteq> unat tail + 1"
    using assms(2) unat_saturating_sub [of head tail] by (auto simp: word_unat_eq_iff)
  with assms(2) have far: "unat tail + 2 \<le> unat head" by simp
  then have "unat (2 :: u64) \<le> unat head" by simp
  then have "unat (head - 2) = unat head - 2" by (simp add: unat_sub_no_underflow)
  moreover have "\<not> saturating_sub head tail \<le> 1"
    using far by (simp add: unat_saturating_sub word_le_nat_alt)
  ultimately show ?thesis using False assms far by (simp add: latest_ok_def lt_chosen_def lt_new_tail_def)
qed

lemma latest_ok_next:
  assumes "latest_ok l w" "unat (lt_cur l) < unat (lt_chosen l)"
  shows "latest_ok (l\<lparr>lt_cur := lt_cur l + 1, lt_dropped := n\<rparr>) w"
proof -
  let ?l = "l\<lparr>lt_cur := lt_cur l + 1, lt_dropped := n\<rparr>"
  have "lt_chosen ?l = lt_chosen l" "lt_new_tail ?l = lt_new_tail l"
    by (simp_all add: lt_chosen_def lt_new_tail_def)
  then show ?thesis using assms unat_succ_less [OF assms(2)] by (auto simp: latest_ok_def)
qed

lemma latest_ok_cong:
  "\<lbrakk>latest_ok l w; h_ready_tail w' = h_ready_tail w; h_ready_head w' = h_ready_head w\<rbrakk> \<Longrightarrow> latest_ok l w'"
  by (auto simp: latest_ok_def)

lemma latest_new_tail:
  assumes "latest_ok l w"
  shows "lt_new_tail l = lt_chosen l + 1" "unat (lt_new_tail l) = unat (lt_chosen l) + 1"
    "unat (h_ready_tail w) \<le> unat (lt_new_tail l)" "unat (lt_new_tail l) \<le> unat (h_ready_head w)"
  using assms unat_succ_less [of "lt_chosen l" "lt_head l"] by (auto simp: latest_ok_def)

lemma latest_loop_inv:
  "latest_ok l (sy_writer s) \<Longrightarrow> consumer_inv (latest_loop l) s"
  by (auto simp: latest_loop_def consumer_inv_def Let_def word_less_nat_alt ready_fields_def copied_def)

section \<open>The invariant\<close>

lemma latest_read_inv:
  assumes inv: "consumer_inv (Latest_Read l n d) s" and r: "rings (sy_writer s)"
    and st: "consumer_step (Latest_Read l n d) s = (q', s', done)"
  shows "consumer_inv q' s' \<and> s' = s"
proof -
  let ?e = "ready_at (sy_writer s) (lt_cur l)"
  from inv obtain old where i: "latest_ok l (sy_writer s)" "unat (lt_cur l) < unat (lt_chosen l)"
    "n < length ready_fields" "d = copied ready_fields n ?e old"
    by (auto simp: consumer_inv_def Let_def)
  have "s' = s" "q' = (if Suc n < length ready_fields then Latest_Read l (Suc n) ((ready_fields ! n) ?e d)
      else Latest_Give_Head l ((ready_fields ! n) ?e d))"
    using st by (simp_all add: consumer_step_def is_give_def is_latest_def ring_get_Some [OF ring_okD(1) [OF r]] Let_def)
  then show ?thesis
    using i ready_slot.copied_step [OF i(3,4)] by (auto simp: consumer_inv_def latest_skips_def Let_def split: if_splits)
qed

lemma latest_chosen_inv:
  assumes inv: "consumer_inv (Latest_Chosen l n d) s" and r: "rings (sy_writer s)"
    and st: "consumer_step (Latest_Chosen l n d) s = (q', s', done)"
  shows "consumer_inv q' s' \<and> s' = s"
proof -
  let ?e = "ready_at (sy_writer s) (lt_chosen l)"
  from inv obtain old where i: "latest_ok l (sy_writer s)" "n < length ready_fields" "d = copied ready_fields n ?e old"
    by (auto simp: consumer_inv_def Let_def)
  have "s' = s" "q' = (if Suc n < length ready_fields then Latest_Chosen l (Suc n) ((ready_fields ! n) ?e d)
      else Latest_Check l ((ready_fields ! n) ?e d))"
    using st by (simp_all add: consumer_step_def is_give_def is_latest_def ring_get_Some [OF ring_okD(1) [OF r]] Let_def)
  then show ?thesis
    using i ready_slot.copied_step [OF i(2,3)] by (auto simp: consumer_inv_def Let_def split: if_splits)
qed

lemma latest_write_inv:
  assumes inv: "consumer_inv (Latest_Give_Write l e head n) s" and r: "rings (sy_writer s)"
    and st: "consumer_step (Latest_Give_Write l e head n) s = (q', s', done)"
  shows "consumer_inv q' s' \<and> rings (sy_writer s') \<and> consumer_keeps s s'"
proof -
  let ?w = "sy_writer s"
  let ?i = "unat head mod unat (h_rec_capacity ?w)" and ?e = "skipped_entry head e"
  let ?d = "(recycle_fields ! n) ?e (recycle_at ?w head)"
  note ring = ring_okD(2) [OF r]
  from inv obtain old where i: "latest_skips l e ?w" "rec_room ?w head" "n < length recycle_fields"
    "recycle_at ?w head = copied recycle_fields n ?e old"
    by (auto simp: consumer_inv_def Let_def)
  have s': "s' = on_writer (\<lambda>w. w\<lparr>recycle := (recycle w)[?i := ?d]\<rparr>) s"
    "q' = (if Suc n < length recycle_fields then Latest_Give_Write l e head (Suc n) else Latest_Give_Store l e head)"
    using st by (auto simp: consumer_step_def is_give_def is_latest_def ring_put_field_Some [OF ring])
  have at: "recycle_at (sy_writer s') head = ?d" using ring_index [OF ring] by (simp add: s'(1))
  have skips: "latest_skips l e (sy_writer s')" using i(1) by (auto simp: s'(1) latest_skips_def latest_ok_def)
  have "consumer_inv q' s'"
    using recycle_slot.copied_step [OF i(3,4)] i(2,3) at skips
    by (auto simp: consumer_inv_def Let_def s'(2) split: if_splits) (auto simp: s'(1))
  moreover have "rings (sy_writer s')" using r by (simp add: rings_def s'(1))
  moreover have "consumer_keeps s s'"
    using i(2) same_window_put [of head "h_rec_tail ?w" "ucast (h_rec_capacity ?w)"]
    by (auto simp: consumer_keeps_def Let_def s'(1))
  ultimately show ?thesis by blast
qed

lemma latest_step_inv:
  assumes latest: "is_latest q" and inv: "consumer_inv q s" and r: "rings (sy_writer s)"
    and low: "unat (h_rec_head (sy_writer s)) + 1 < 2 ^ 64"
    and st: "consumer_step q s = (q', s', done)"
  shows "consumer_inv q' s' \<and> rings (sy_writer s') \<and> consumer_keeps s s'"
proof -
  let ?w = "sy_writer s"
  note ring = ring_okD [OF r]
  have order: "unat (h_ready_tail ?w) \<le> unat (h_ready_head ?w)" using ring(1) by (simp add: ring_ok_def)
  have succ: "unat (h_rec_head ?w + 1) = Suc (unat (h_rec_head ?w))" using unat_succ [OF low] by simp
  note step_defs = consumer_step_def is_give_def is_latest_def Let_def
  note inv_defs = consumer_inv_def Let_def
  show ?thesis
  proof (cases q)
    case Latest_Head
    then show ?thesis using st r order by (auto simp: step_defs inv_defs)
  next
    case (Latest_Tail head)
    have h: "unat (h_ready_tail ?w) \<le> unat head" "unat head \<le> unat (h_ready_head ?w)"
      using inv by (simp_all add: Latest_Tail inv_defs)
    have ok: "latest_ok \<lparr>lt_head = head, lt_tail = h_ready_tail ?w, lt_cur = h_ready_tail ?w, lt_dropped = 0\<rparr> ?w"
      if "head \<noteq> h_ready_tail ?w"
      using that h by (intro latest_ok_start) (auto simp: word_unat_eq_iff)
    show ?thesis using st r latest_loop_inv [OF ok] by (auto simp: Latest_Tail step_defs inv_defs split: if_splits)
  next
    case (Latest_Read l n d)
    have "consumer_inv q' s'" "s' = s" using latest_read_inv [OF _ r, of l n d] inv st Latest_Read by blast+
    with r show ?thesis by auto
  next
    case (Latest_Chosen l n d)
    have "consumer_inv q' s'" "s' = s" using latest_chosen_inv [OF _ r, of l n d] inv st Latest_Chosen by blast+
    with r show ?thesis by auto
  next
    case (Latest_Give_Head l d)
    then show ?thesis using st inv r by (auto simp: step_defs inv_defs)
  next
    case (Latest_Give_Tail l d head)
    then show ?thesis
      using st inv r ring_room_nat [OF ring(2), of "h_rec_tail ?w"]
      by (auto simp: step_defs inv_defs latest_skips_def recycle_fields_def ready_fields_def copied_def split: if_splits)
  next
    case (Latest_Give_Write l d head n)
    with latest_write_inv inv r st show ?thesis by blast
  next
    case (Latest_Give_Store l d head)
    have i: "latest_ok l ?w" "unat (lt_cur l) < unat (lt_chosen l)" "head = h_rec_head ?w"
      "unat head < unat (h_rec_tail ?w) + unat (h_rec_capacity ?w)"
      using inv by (auto simp: Latest_Give_Store inv_defs latest_skips_def)
    have s': "s' = on_writer (\<lambda>w. w\<lparr>h_rec_head := head + 1\<rparr>) s"
      "q' = latest_loop (l\<lparr>lt_cur := lt_cur l + 1, lt_dropped := lt_dropped l + 1\<rparr>)"
      using st by (simp_all add: Latest_Give_Store step_defs)
    have "latest_ok (l\<lparr>lt_cur := lt_cur l + 1, lt_dropped := lt_dropped l + 1\<rparr>) (sy_writer s')"
      by (rule latest_ok_cong [OF latest_ok_next [OF i(1,2)]]) (simp_all add: s'(1))
    then have "consumer_inv q' s'" unfolding s'(2) by (rule latest_loop_inv)
    then show ?thesis
      using r i(3,4) succ ring_ok_pushed [OF ring(2) _ low] by (simp add: s'(1) rings_def consumer_keeps_def Let_def)
  next
    case (Latest_Check l d)
    then show ?thesis using st inv r by (auto simp: step_defs inv_defs split: res.splits)
  next
    case (Latest_Store l d)
    have ok: "latest_ok l ?w" using inv by (simp add: Latest_Store inv_defs)
    note t = latest_new_tail [OF ok]
    show ?thesis
      using st r t(3,4) ring_skip(1) [OF ring(1) t(3,4)]
      by (auto simp: Latest_Store step_defs inv_defs rings_def consumer_keeps_def)
  qed (use latest in \<open>simp_all add: is_latest_def\<close>)
qed

lemma consumer_step_inv:
  assumes "consumer_inv q s" "rings (sy_writer s)" "unat (h_rec_head (sy_writer s)) + 1 < 2 ^ 64"
    and "consumer_step q s = (q', s', done)"
  shows "consumer_inv q' s' \<and> rings (sy_writer s') \<and> consumer_keeps s s'"
  using latest_step_inv plain_step_inv assms by blast

section \<open>What the atomic model does\<close>

text \<open>What the loop reads is what the atomic model has queued.\<close>

lemma latest_entry:
  assumes own: "owned t" and l: "linked p q s t" and tail: "shown_tail q (sy_writer s) = lt_cur l"
    and ok: "latest_ok l (sy_writer s)" and pinv: "producer_inv p s"
    and pos: "unat (lt_cur l) \<le> unat pos" "unat pos \<le> unat (lt_chosen l)"
  shows "\<exists>ds. drop (unat pos - unat (lt_cur l)) (ready_entries (sy_writer t)) = ready_at (sy_writer s) pos # ds"
proof -
  let ?w = "sy_writer s" and ?a = "sy_writer t"
  let ?cap = "ucast (h_ready_capacity ?w) :: u64"
  from l obtain x y where x: "shown_ready p ?w x"
    "?a = (finish p ?w)\<lparr>ready := x, recycle := y, h_ready_tail := lt_cur l\<rparr>"
    by (auto simp: linked_def tail)
  note f = linked_fields [OF l]
  have ft: "h_ready_tail ?a = lt_cur l" by (simp add: x(2))
  have "ring_ok (ready ?a) (h_ready_head ?w) (lt_cur l) ?cap"
    using own by (simp add: owned_def writer_ok_def ready_ok_def f ft)
  moreover have lt: "unat pos < unat (h_ready_head ?w)" using ok pos by (auto simp: latest_ok_def)
  ultimately have skip: "ring_ok (ready ?a) (h_ready_head ?w) pos ?cap"
    "ring_list (ready ?a) (h_ready_head ?w) pos ?cap = drop (unat pos - unat (lt_cur l)) (ready_entries ?a)"
    using ring_skip [of "ready ?a" "h_ready_head ?w" "lt_cur l" ?cap pos] pos(1)
    by (simp_all add: ready_entries_def f ft)
  have "ready ?a ! (unat pos mod unat ?cap) = ready_at ?w pos"
    using shown_ready_window [OF x(1) pinv] lt ok pos(1)
    by (auto simp: same_window_def latest_ok_def x(2))
  then show ?thesis using ring_pop(2) [OF skip(1)] lt skip(2) by auto
qed

lemma skip_completes:
  assumes own: "owned t" and l: "linked p (Latest_Give_Store m d head) s t"
    and inv: "consumer_inv (Latest_Give_Store m d head) s" and pinv: "producer_inv p s"
    and st: "consumer_step (Latest_Give_Store m d head) s = (q', s', done)"
  shows "\<exists>t'. atoms_exec done t = Some t' \<and> linked p q' s' t'"
proof -
  let ?w = "sy_writer s" and ?a = "sy_writer t"
  let ?i = "unat head mod unat (h_rec_capacity ?w)" and ?e = "skipped_entry head d"
  let ?m = "m\<lparr>lt_cur := lt_cur m + 1, lt_dropped := lt_dropped m + 1\<rparr>"
  from l obtain x v where x: "shown_ready p ?w x"
    "?a = (finish p ?w)\<lparr>ready := x, recycle := (recycle ?w)[?i := v], h_ready_tail := lt_cur m\<rparr>"
    by (auto simp: linked_def shown_recycle_def shown_tail_def)
  from inv have i: "latest_ok m ?w" "unat (lt_cur m) < unat (lt_chosen m)" "d = ready_at ?w (lt_cur m)"
    "head = h_rec_head ?w" "unat head < unat (h_rec_tail ?w) + unat (h_rec_capacity ?w)"
    "recycle_at ?w head = ?e"
    by (auto simp: consumer_inv_def latest_skips_def Let_def)
  have st': "q' = latest_loop ?m" "done = [Skip_Oldest]" "s' = on_writer (\<lambda>w. w\<lparr>h_rec_head := head + 1\<rparr>) s"
    using st by (simp_all add: consumer_step_def is_give_def is_latest_def)
  note f = linked_fields [OF l]
  have ft: "h_ready_tail ?a = lt_cur m" by (simp add: x(2))
  obtain ds where q: "ready_entries ?a = d # ds"
    using latest_entry [OF own l _ i(1) pinv, of "lt_cur m"] i(2,3) by (auto simp: shown_tail_def)
  have ok: "rec_ok ?a" using own by (simp add: owned_def writer_ok_def)
  then have "unat (h_rec_tail ?a) \<le> unat (h_rec_head ?w)" by (simp add: rec_ok_def ring_ok_def f)
  then have room: "h_rec_head ?a - h_rec_tail ?a < ucast (h_rec_capacity ?a)"
    using i(4,5) linked_rec_tail [OF l pinv] by (simp add: f word_less_nat_alt unat_sub_no_underflow)
  let ?a' = "?a\<lparr>recycle := recycle ?w, h_rec_head := head + 1\<rparr>"
  have slots: "(recycle ?a)[?i := ?e] = recycle ?w" using i(6) by (simp add: x(2)) (metis list_update_id)
  have "try_recycle_desc (rd_buffer_id d) (rd_offset d) (rd_length d) 1 ?a = (?a', Ok True)"
    using try_recycle_desc_room [OF ok room, of "rd_buffer_id d" "rd_offset d" "rd_length d" 1]
    by (simp add: f i(4) [symmetric] skipped_entry_def [symmetric] slots)
  then have ex: "skip_oldest t = Some (t\<lparr>sy_writer := ?a'\<lparr>h_ready_tail := lt_cur m + 1\<rparr>\<rparr>)"
    by (simp add: skip_oldest_def q ft)
  have "shown_ready p (sy_writer s') x"
    using x(1) by (simp add: st'(3) shown_ready_def cong: producer_pc.case_cong)
  moreover have "?a'\<lparr>h_ready_tail := lt_cur m + 1\<rparr> = (finish p (sy_writer s'))
      \<lparr>ready := x, recycle := recycle (sy_writer s'), h_ready_tail := shown_tail q' (sy_writer s')\<rparr>"
    by (simp add: st'(1,3) x(2) finish_change [OF ring_changeI(4)] shown_tail_def latest_loop_def)
  moreover have "shown_recycle q' (sy_writer s') (recycle (sy_writer s'))"
    by (simp add: st'(1) latest_loop_def shown_recycle_def)
  ultimately have "linked p q' s' (t\<lparr>sy_writer := ?a'\<lparr>h_ready_tail := lt_cur m + 1\<rparr>\<rparr>)"
    using f(8,9) st'(3) unfolding linked_def by auto
  then show ?thesis by (simp add: st'(2) ex)
qed

lemma take_completes:
  assumes own: "owned t" and l: "linked p (Latest_Store m d) s t"
    and inv: "consumer_inv (Latest_Store m d) s" and pinv: "producer_inv p s"
    and st: "consumer_step (Latest_Store m d) s = (q', s', done)"
  shows "\<exists>t'. atoms_exec done t = Some t' \<and> linked p q' s' t'"
proof -
  let ?w = "sy_writer s" and ?a = "sy_writer t"
  let ?k = "unat (lt_chosen m - lt_cur m)"
  from l obtain x where x: "shown_ready p ?w x"
    "?a = (finish p ?w)\<lparr>ready := x, recycle := recycle ?w, h_ready_tail := lt_cur m\<rparr>"
    by (auto simp: linked_def shown_recycle_def shown_tail_def)
  from inv have i: "latest_ok m ?w" "d = ready_at ?w (lt_chosen m)" by (auto simp: consumer_inv_def Let_def)
  have le: "unat (lt_cur m) \<le> unat (lt_chosen m)" using i(1) by (simp add: latest_ok_def)
  have st': "q' = C_Idle" "done = [Take_After ?k]"
    "s' = s\<lparr>sy_writer := ?w\<lparr>h_ready_tail := lt_new_tail m\<rparr>, sy_held := sy_held s @ [received_of d]\<rparr>"
    using st by (simp_all add: consumer_step_def is_give_def is_latest_def)
  note f = linked_fields [OF l]
  have ft: "h_ready_tail ?a = lt_cur m" by (simp add: x(2))
  obtain ds where q: "drop ?k (ready_entries ?a) = d # ds"
    using latest_entry [OF own l _ i(1) pinv le] i(2)
    by (auto simp: shown_tail_def unat_sub_no_underflow [OF le])
  let ?t = "t\<lparr>sy_writer := ?a\<lparr>h_ready_tail := lt_new_tail m\<rparr>, sy_held := sy_held t @ [received_of d]\<rparr>"
  have ex: "take_after ?k t = Some ?t"
    by (simp add: take_after_def q ft latest_new_tail(1) [OF i(1)])
  have "shown_ready p (sy_writer s') x"
    using x(1) by (simp add: st'(3) shown_ready_def cong: producer_pc.case_cong)
  moreover have "sy_writer ?t = (finish p (sy_writer s'))
      \<lparr>ready := x, recycle := recycle (sy_writer s'), h_ready_tail := shown_tail C_Idle (sy_writer s')\<rparr>"
    by (simp add: st'(3) x(2) finish_change [OF ring_changeI(3)] shown_tail_def)
  moreover have "shown_recycle C_Idle (sy_writer s') (recycle (sy_writer s'))" by (simp add: shown_recycle_def)
  moreover have "sy_pending ?t = sy_pending s'" "sy_held ?t = sy_held s'" using f(8,9) st'(3) by simp_all
  ultimately have "linked p C_Idle s' ?t" unfolding linked_def by blast
  moreover have "atoms_exec done t = Some ?t"
    unfolding st'(2) by (simp only: ex atoms_exec.simps atom_exec.simps option.case)
  ultimately show ?thesis unfolding st'(1) by blast
qed

lemma latest_check_ok:
  assumes own: "owned t" and l: "linked p (Latest_Check m d) s t"
    and inv: "consumer_inv (Latest_Check m d) s" and pinv: "producer_inv p s"
  shows "validate_bounds (sy_writer s) (rd_offset d) (ucast (rd_length d)) = Ok ()"
proof -
  from inv have i: "latest_ok m (sy_writer s)" "d = ready_at (sy_writer s) (lt_chosen m)"
    by (auto simp: consumer_inv_def Let_def)
  have "unat (lt_cur m) \<le> unat (lt_chosen m)" using i(1) by (simp add: latest_ok_def)
  from latest_entry [OF own l _ i(1) pinv this] i(2) have "d \<in> set (ready_entries (sy_writer t))"
    by (auto simp: shown_tail_def intro: in_set_dropD [of _ "unat (lt_chosen m) - unat (lt_cur m)"])
  then have "desc_in_arena (sy_writer t) d" using own by (simp add: owned_def writer_ok_def ready_ok_def)
  then show ?thesis by (simp add: validate_bounds_Ok desc_in_arena_def linked_fields [OF l])
qed

lemma latest_step_linked:
  assumes latest: "is_latest q" and own: "owned t" and l: "linked p q s t" and r: "rings (sy_writer s)"
    and inv: "consumer_inv q s" and pinv: "producer_inv p s"
    and st: "consumer_step q s = (q', s', done)"
  shows "\<exists>t'. atoms_exec done t = Some t' \<and> linked p q' s' t'"
proof -
  note ring = ring_okD [OF r]
  note step_defs = consumer_step_def is_give_def is_latest_def Let_def
  have stutter: "\<exists>t'. atoms_exec done t = Some t' \<and> linked p q' s' t'"
    if "s' = s" "done = []" "shown_tail q' (sy_writer s) = shown_tail q (sy_writer s)"
      "\<And>y. shown_recycle q (sy_writer s) y \<Longrightarrow> shown_recycle q' (sy_writer s) y"
    using linked_same_consumer [OF l that(4,3)] that(1,2) by simp
  show ?thesis
  proof (cases q)
    case Latest_Head
    then show ?thesis using st by (intro stutter) (auto simp: step_defs)
  next
    case (Latest_Tail head)
    then show ?thesis using st by (intro stutter) (auto simp: step_defs latest_loop_def split: if_splits)
  next
    case (Latest_Read m n d)
    then show ?thesis
      using st ring_get_Some [OF ring(1), of "lt_cur m"] by (intro stutter) (auto simp: step_defs split: if_splits)
  next
    case (Latest_Give_Head m d)
    then show ?thesis using st by (intro stutter) (auto simp: step_defs)
  next
    case (Latest_Give_Tail m d head)
    then show ?thesis using st by (intro stutter) (auto simp: step_defs list_update_self split: if_splits)
  next
    case (Latest_Give_Write m d head n)
    let ?i = "unat head mod unat (h_rec_capacity (sy_writer s))"
    obtain z where z: "s' = on_writer (\<lambda>w. w\<lparr>recycle := (recycle w)[?i := z]\<rparr>) s" "done = []"
      "q' \<in> {Latest_Give_Write m d head (Suc n), Latest_Give_Store m d head}"
      using st that by (auto simp: Latest_Give_Write step_defs ring_put_field_Some [OF ring(2)])
    have "linked p q' s' t"
      by (rule linked_same_recycle [OF l, of _ "(recycle (sy_writer s))[?i := z]"])
        (use z in \<open>auto simp: Latest_Give_Write\<close>)
    then show ?thesis by (simp add: z(2))
  next
    case (Latest_Give_Store m d head)
    then show ?thesis using skip_completes [OF own] l inv pinv st by blast
  next
    case (Latest_Chosen m n d)
    then show ?thesis
      using st ring_get_Some [OF ring(1), of "lt_chosen m"] by (intro stutter) (auto simp: step_defs split: if_splits)
  next
    case (Latest_Check m d)
    then have "validate_bounds (sy_writer s) (rd_offset d) (ucast (rd_length d)) = Ok ()"
      using latest_check_ok [OF own _ _ pinv] l inv by blast
    then show ?thesis using st by (intro stutter) (auto simp: Latest_Check step_defs)
  next
    case (Latest_Store m d)
    then show ?thesis using take_completes [OF own] l inv pinv st by blast
  qed (use latest in \<open>simp_all add: is_latest_def\<close>)
qed

lemma consumer_step_linked:
  assumes "owned t" "linked p q s t" "rings (sy_writer s)" "consumer_inv q s" "producer_inv p s"
    and "consumer_step q s = (q', s', done)"
  shows "\<exists>t'. atoms_exec done t = Some t' \<and> linked p q' s' t'"
  using latest_step_linked plain_step_linked assms by blast

end
