(* ===== verification/Linearization.thy ===== *)
theory Linearization
  imports Latest_Steps
begin

text \<open>
  Producer and consumer together: for every schedule of single accesses the calls completed are a run
  of the atomic model, so what is proved of whole calls, single ownership first of all, holds at
  every moment of an interleaving.
\<close>

section \<open>Calls of the atomic model keep ownership\<close>

lemma owned_drain_round:
  assumes own: "owned t" and x: "atom_exec Drain_Round t = Some t'"
  shows "owned t'"
proof -
  let ?w = "sy_writer t"
  have ok: "writer_ok ?w" using own by (simp add: owned_def)
  note o = writer_okD [OF ok]
  have "rec_queue ?w \<noteq> []" using x drain_one_empty [OF o(2)] by (auto split: res.splits)
  then obtain d ds where q: "rec_entries ?w = d # ds" by (cases "rec_entries ?w") (auto simp: rec_queue_def)
  note one = drain_one_some [OF o(2) q]
  let ?w' = "?w\<lparr>w_allocator := fst (free_by_id (w_allocator ?w) (rc_buffer_id d)), h_rec_tail := h_rec_tail ?w + 1\<rparr>"
  have t': "t' = t\<lparr>sy_writer := ?w'\<rparr>" using x one(1) by simp
  have rq: "ready_queue ?w' = ready_queue ?w" "rec_queue ?w' = map returned_of ds"
    by (simp_all add: ready_queue_def ready_entries_def rec_queue_def one(3))
  have ro: "ready_ok ?w'" using o(1) by (simp add: ready_ok_def ready_entries_def desc_in_arena_def)
  let ?b = "returned_buffer (returned_of d)"
  have m: "mset (?b # circulating t') = mset (circulating t)"
    unfolding circulating_def by (simp add: t' rq) (simp add: rec_queue_def q image_mset.compositionality comp_def)
  have dist: "distinct (map fst (circulating t))" using own by (simp add: owned_def)
  have "mset (circulating t') \<subseteq># mset (circulating t)" by (simp add: m [symmetric])
  from distinct_mset_mono(2) [OF this dist] have sub: "set (circulating t') \<subseteq> set (circulating t)" .
  have "mset (?b # circulating t') \<subseteq># mset (circulating t)" by (simp only: m subset_mset.order_refl)
  from distinct_mset_mono(1) [OF this dist] have d: "distinct (map fst (?b # circulating t'))" .
  have id: "fst ?b = rc_buffer_id d" by (simp add: returned_of_def returned_buffer_def)
  have "leased (w_allocator ?w') b" if b: "b \<in> set (circulating t')" for b
  proof -
    have "leased (w_allocator ?w) b" using b sub own by (auto simp: owned_def)
    moreover have "rc_buffer_id d \<notin> fst ` set (circulating t')" using d by (simp add: id)
    then have "fst b \<noteq> rc_buffer_id d" using imageI [OF b, of fst] by metis
    ultimately show ?thesis by (auto simp: leased_def free_by_id_live split: prod.splits)
  qed
  moreover have "writer_ok ?w'" using ro one(2) o(3) by (simp add: writer_ok_def alloc_wf_free)
  moreover have "\<forall>l\<in>set (sy_pending t'). ls_ptr l = w_arena ?w' + ls_offset l"
    using own by (simp add: owned_def t' w_arena_def)
  ultimately show ?thesis using d by (simp add: owned_def t')
qed

text \<open>Without interference the rounds of \<open>drain_recycles\<close> and its last store are the whole call.\<close>

lemma drain_rounds:
  assumes "rec_ok (sy_writer t)"
  shows "atoms_exec (replicate (length (rec_entries (sy_writer t))) Drain_Round @ [Drain_End]) t = sys_exec Drain t"
  using assms
proof (induction "rec_entries (sy_writer t)" arbitrary: t)
  case Nil
  then have "drain_one (sy_writer t) = (sy_writer t, Ok None)" by (simp add: drain_one_empty rec_queue_def)
  then have "drain_loop (sy_writer t) = (sy_writer t, Ok ())" by (subst drain_loop.simps) simp
  then show ?case by (simp add: Nil(1) [symmetric] drain_recycles_def)
next
  case (Cons d ds)
  note one = drain_one_some [OF Cons(3) Cons(2) [symmetric]]
  let ?w = "(sy_writer t)\<lparr>w_allocator := fst (free_by_id (w_allocator (sy_writer t)) (rc_buffer_id d)),
      h_rec_tail := h_rec_tail (sy_writer t) + 1\<rparr>"
  let ?t = "t\<lparr>sy_writer := ?w\<rparr>"
  have "atoms_exec (replicate (length ds) Drain_Round @ [Drain_End]) ?t = sys_exec Drain ?t"
    using Cons(1) [of ?t] one(2,3) by simp
  moreover have "drain_loop (sy_writer t) = drain_loop ?w" by (simp add: drain_loop.simps [of "sy_writer t"] one(1))
  ultimately show ?case by (simp add: Cons(2) [symmetric] one(1) drain_recycles_def)
qed

text \<open>The rounds of \<open>try_recv_latest_desc\<close> and its end only move buffers, or lose some.\<close>

lemma skip_moves:
  assumes ok: "writer_ok (sy_writer s)" and low: "unat (h_rec_head (sy_writer s)) + 1 < 2 ^ 64"
    and x: "skip_oldest s = Some s'"
  shows "moves s s'"
proof -
  let ?w = "sy_writer s"
  note o = writer_okD [OF ok]
  obtain d ds where q: "ready_entries ?w = d # ds"
    using x by (auto simp: skip_oldest_def split: list.splits)
  note t = try_recv_desc_some [OF o(1) q]
  note c = try_recycle_desc_cases [OF o(2) low, of "rd_buffer_id d" "rd_offset d" "rd_length d" 1]
  have "rec_space ?w \<noteq> 0"
  proof
    assume "rec_space ?w = 0"
    with c x show False by (simp add: skip_oldest_def q)
  qed
  with c x obtain w where w: "only_recycled ?w w" "rec_ok w"
    "rec_queue w = rec_queue ?w @ [(rd_buffer_id d, rd_offset d, rd_length d, 1)]"
    and s': "s' = s\<lparr>sy_writer := w\<lparr>h_ready_tail := h_ready_tail w + 1\<rparr>\<rparr>"
    by (auto simp: skip_oldest_def q)
  have al: "w_allocator w = w_allocator ?w" "w_arena w = w_arena ?w" "h_arena_size w = h_arena_size ?w"
    "h_ready_tail w = h_ready_tail ?w"
    using w(1) by (auto simp: only_recycled_def)
  note rd = ready_ok_recycled [OF w(1), of "h_ready_tail w + 1"]
  have "ready_entries (w\<lparr>h_ready_tail := h_ready_tail w + 1\<rparr>) = ds" "ready_ok (w\<lparr>h_ready_tail := h_ready_tail w + 1\<rparr>)"
    using rd t(2,3) by (simp_all add: al(4))
  moreover from this have "ready_queue (w\<lparr>h_ready_tail := h_ready_tail w + 1\<rparr>) = map frame_of ds"
    by (simp add: ready_queue_def)
  moreover have "returned_buffer (rd_buffer_id d, rd_offset d, rd_length d, 1) = frame_buffer (frame_of d)"
    by (simp add: returned_buffer_def frame_buffer_def frame_of_def)
  ultimately show ?thesis
    by (intro movesI) (use o al w in \<open>simp_all add: s' writer_ok_def circulating_def\<close>,
      simp add: ready_queue_def q image_mset.compositionality comp_def)
qed

lemma take_after_entries:
  assumes ok: "ready_ok w" and q: "drop k (ready_entries w) = d # ds"
  shows "unat (h_ready_tail w + of_nat k + 1) = unat (h_ready_tail w) + k + 1"
    "ready_ok (w\<lparr>h_ready_tail := h_ready_tail w + of_nat k + 1\<rparr>)"
    "ready_entries (w\<lparr>h_ready_tail := h_ready_tail w + of_nat k + 1\<rparr>) = ds"
proof -
  have "k < length (ready_entries w)" using q by (metis drop_all linorder_not_less list.distinct(1))
  then have k: "unat (h_ready_tail w) + k + 1 \<le> unat (h_ready_head w)" by (simp add: length_ready)
  then have small: "unat (h_ready_tail w) + k + 1 < 2 ^ 64" using unat_u64_less [of "h_ready_head w"] by simp
  have kk: "unat (of_nat k :: u64) = k" using small by (simp add: unat_of_nat take_bit_nat_eq_self)
  have "unat (h_ready_tail w + of_nat k) = unat (h_ready_tail w) + k"
    using small kk by (simp add: unat_add_no_overflow)
  then show u: "unat (h_ready_tail w + of_nat k + 1) = unat (h_ready_tail w) + k + 1"
    using unat_succ [of "h_ready_tail w + of_nat k"] small by simp
  have le: "unat (h_ready_tail w) \<le> unat (h_ready_tail w + of_nat k + 1)"
    "unat (h_ready_tail w + of_nat k + 1) \<le> unat (h_ready_head w)"
    using u k by simp_all
  show "ready_ok (w\<lparr>h_ready_tail := h_ready_tail w + of_nat k + 1\<rparr>)" by (rule ready_skip(1) [OF ok le])
  have "drop (k + 1) (ready_entries w) = ds" using q by (metis add.commute drop_drop drop_0 drop_Suc_Cons plus_1_eq_Suc One_nat_def)
  then show "ready_entries (w\<lparr>h_ready_tail := h_ready_tail w + of_nat k + 1\<rparr>) = ds"
    using ready_skip(2) [OF ok le] u by simp
qed

lemma take_moves:
  assumes ok: "writer_ok (sy_writer s)" and x: "take_after k s = Some s'"
  shows "moves s s'"
proof -
  let ?w = "sy_writer s"
  note o = writer_okD [OF ok]
  obtain d ds where q: "drop k (ready_entries ?w) = d # ds" using x by (auto simp: take_after_def split: list.splits)
  let ?w' = "?w\<lparr>h_ready_tail := h_ready_tail ?w + of_nat k + 1\<rparr>"
  have s': "s' = s\<lparr>sy_writer := ?w', sy_held := sy_held s @ [received_of d]\<rparr>"
    using x by (simp add: take_after_def q)
  note e = take_after_entries [OF o(1) q]
  have rq: "ready_queue ?w' = map frame_of ds" by (simp add: ready_queue_def e(3))
  have rf: "held_buffer (received_of d) = frame_buffer (frame_of d)" by (metis buffer_conv(2) received_frame_of)
  have "mset (frame_of d # map frame_of ds) \<subseteq># mset (ready_queue ?w)"
    unfolding ready_queue_def by (metis append_take_drop_id list.simps(9) map_append mset_append mset_subset_eq_add_right q)
  from image_mset_subseteq_mono [OF this, of frame_buffer]
  have "mset (circulating s') \<subseteq># mset (circulating s)"
    unfolding circulating_def by (simp add: s' rq rf image_mset.compositionality comp_def)
  then show ?thesis by (rule movesI [rotated 2]) (use o e(2) in \<open>simp_all add: s' writer_ok_def\<close>)
qed

lemma atoms_exec_append:
  "atoms_exec xs s = Some t \<Longrightarrow> atoms_exec (xs @ ys) s = atoms_exec ys t"
  by (induction xs arbitrary: s) (auto split: option.splits)

text \<open>
  Without interference the rounds of \<open>try_recv_latest_desc\<close> and its end are the whole call too.
\<close>

lemma try_recycle_desc_tail:
  "try_recycle_desc i off len st w = (w', r) \<Longrightarrow>
   try_recycle_desc i off len st (w\<lparr>h_ready_tail := c\<rparr>) = (w'\<lparr>h_ready_tail := c\<rparr>, r)"
  by (auto simp: try_recycle_desc_def Let_def split: if_splits option.splits)

lemma skip_rounds:
  assumes "ready_ok (w\<lparr>h_ready_tail := cur\<rparr>)" "rec_ok w" "unat cur \<le> unat chosen"
    "unat chosen < unat (h_ready_head w)" "unat (h_rec_head w) + (unat chosen - unat cur) < 2 ^ 64"
  shows "\<exists>m. unat cur + m \<le> unat chosen \<and>
    atoms_exec (replicate m Skip_Oldest) (t\<lparr>sy_writer := w\<lparr>h_ready_tail := cur\<rparr>\<rparr>) =
      Some (t\<lparr>sy_writer := (fst (recycle_until cur chosen dropped w))\<lparr>h_ready_tail := cur + of_nat m\<rparr>\<rparr>)"
  using assms
proof (induction "unat chosen - unat cur" arbitrary: cur dropped w)
  case 0
  then have "\<not> cur < chosen" by (simp add: word_less_nat_alt)
  with 0 show ?case by (intro exI [of _ 0]) (simp add: recycle_until_stop)
next
  case (Suc n)
  from Suc(2) have lt: "cur < chosen" by (simp add: word_less_nat_alt)
  have u: "unat (cur + 1) = unat cur + 1" using lt by (intro unat_succ_less) (simp add: word_less_nat_alt)
  let ?v = "w\<lparr>h_ready_tail := cur\<rparr>" and ?d = "ready_at w cur"
  have ring: "ring_ok (ready w) (h_ready_head w) cur (ucast (h_ready_capacity w))"
    using Suc(3) by (simp add: ready_ok_def)
  have "h_ready_head w \<noteq> cur" using Suc(5,6) by auto
  from ring_pop(2) [OF ring this] obtain ds where q: "ready_entries ?v = ?d # ds" by (simp add: ready_entries_def)
  have wrap: "unat (h_rec_head w) + 1 < 2 ^ 64" using Suc(2,7) by simp
  note c = try_recycle_desc_cases [OF Suc(4) wrap, of "rd_buffer_id ?d" "rd_offset ?d" "rd_length ?d" 1]
  note step = recycle_until.simps [of cur chosen "dropped" w]
  have get: "ring_get (ready w) cur (ucast (h_ready_capacity w)) = Some ?d" using ring_get_Some [OF ring] by simp
  show ?case
  proof (cases "rec_space w = 0")
    case True
    with c have "fst (recycle_until cur chosen dropped w) = w" by (simp add: step lt get)
    with Suc(5) show ?thesis by (intro exI [of _ 0]) simp
  next
    case False
    with c obtain w1 where w1: "try_recycle_desc (rd_buffer_id ?d) (rd_offset ?d) (rd_length ?d) 1 w = (w1, Ok True)"
      "only_recycled w w1" "rec_ok w1" "unat (h_rec_head w1) = unat (h_rec_head w) + 1" by auto
    note fr = only_recycled_frame [OF w1(2)]
    have go: "recycle_until cur chosen dropped w = recycle_until (cur + 1) chosen (dropped + 1) w1"
      by (simp add: step lt get w1(1))
    have ok: "ready_ok (w1\<lparr>h_ready_tail := cur + 1\<rparr>)"
      using ready_skip(1) [OF Suc(3), of "cur + 1"] u Suc(2,6) ready_ok_recycled [OF w1(2), of "cur + 1"]
      by simp
    have "n = unat chosen - unat (cur + 1)" "unat (cur + 1) \<le> unat chosen" using Suc(2) u by simp_all
    moreover have "unat (h_rec_head w1) + (unat chosen - unat (cur + 1)) < 2 ^ 64"
      using Suc(2,7) u by (simp add: w1(4))
    ultimately obtain m where m: "unat (cur + 1) + m \<le> unat chosen"
      "atoms_exec (replicate m Skip_Oldest) (t\<lparr>sy_writer := w1\<lparr>h_ready_tail := cur + 1\<rparr>\<rparr>) =
        Some (t\<lparr>sy_writer := (fst (recycle_until cur chosen dropped w))\<lparr>h_ready_tail := cur + 1 + of_nat m\<rparr>\<rparr>)"
      using Suc(1) [OF _ ok w1(3), of "dropped + 1"] Suc(6) unfolding go fr(3) by blast
    have "skip_oldest (t\<lparr>sy_writer := ?v\<rparr>) = Some (t\<lparr>sy_writer := w1\<lparr>h_ready_tail := cur + 1\<rparr>\<rparr>)"
      using q by (simp add: skip_oldest_def try_recycle_desc_tail [OF w1(1)])
    with m u show ?thesis by (intro exI [of _ "Suc m"]) (simp add: add.assoc)
  qed
qed

lemma latest_rounds:
  assumes ok: "ready_ok (sy_writer t)" "rec_ok (sy_writer t)" and ne: "ready_queue (sy_writer t) \<noteq> []"
    and wrap: "unat (h_rec_head (sy_writer t)) + length (ready_queue (sy_writer t)) < 2 ^ 64"
  shows "\<exists>m k. atoms_exec (replicate m Skip_Oldest @ [Take_After k]) t = sys_exec Receive_Latest t"
proof (rule try_recv_latest_some [OF ok ne wrap])
  let ?w = "sy_writer t" and ?n = "length (ready_queue (sy_writer t))"
  fix w1 d x
  assume r: "try_recv_latest_desc ?w = (w1\<lparr>h_ready_tail := x\<rparr>, Ok (Some (received_of d, of_nat (skip_count ?w))))"
    and d: "d = ready_entries ?w ! (?n - 2)" and o: "only_recycled ?w w1"
    and x: "unat x = unat (h_ready_tail ?w) + (if ?n = 1 then 1 else ?n - 1)"
    and w1: "if ?n = 1 then w1 = ?w else fst (recycle_until (h_ready_tail ?w) (h_ready_head ?w - 2) 0 ?w) = w1"
  have n: "?n = unat (h_ready_head ?w) - unat (h_ready_tail ?w)" "0 < ?n" 
    by (rule length_ready(1)) (metis ne length_greater_0_conv)
  have "\<exists>m. unat (h_ready_tail ?w) + m \<le> unat (h_ready_tail ?w) + (?n - 2) \<and>
      atoms_exec (replicate m Skip_Oldest) t = Some (t\<lparr>sy_writer := w1\<lparr>h_ready_tail := h_ready_tail ?w + of_nat m\<rparr>\<rparr>)"
  proof (cases "?n = 1")
    case True
    with w1 show ?thesis by (intro exI [of _ 0]) simp
  next
    case False
    with n have two: "unat (2 :: u64) \<le> unat (h_ready_head ?w)" "2 \<le> ?n" by simp_all
    then have c: "unat (h_ready_head ?w - 2) = unat (h_ready_tail ?w) + (?n - 2)"
      using n(1) by (simp add: unat_sub_no_underflow)
    show ?thesis
      using skip_rounds [where w = ?w and cur = "h_ready_tail ?w" and chosen = "h_ready_head ?w - 2" and t = t
          and dropped = 0] ok wrap w1 False n two c by auto
  qed
  then obtain m where m: "m \<le> ?n - 2"
    "atoms_exec (replicate m Skip_Oldest) t = Some (t\<lparr>sy_writer := w1\<lparr>h_ready_tail := h_ready_tail ?w + of_nat m\<rparr>\<rparr>)"
    by auto
  let ?v = "w1\<lparr>h_ready_tail := h_ready_tail ?w + of_nat m\<rparr>"
  define k where "k = ?n - 2 - m"
  have k: "k + m = ?n - 2" unfolding k_def by (rule le_add_diff_inverse2 [OF m(1)])
  have small: "unat (h_ready_tail ?w) + ?n < 2 ^ 64" using n unat_u64_less [of "h_ready_head ?w"] by simp
  then have um: "unat (h_ready_tail ?w + of_nat m) = unat (h_ready_tail ?w) + m"
    using m(1) by (simp add: unat_add_no_overflow unat_of_nat take_bit_nat_eq_self)
  have "ready_entries ?v = drop m (ready_entries ?w)"
    using ready_skip(2) [OF ok(1), of "h_ready_tail ?w + of_nat m"] um m(1) n
      ready_ok_recycled [OF o, of "h_ready_tail ?w + of_nat m"] by simp
  then have "drop k (ready_entries ?v) = drop (?n - 2) (ready_entries ?w)"
    by (simp only: drop_drop k)
  also have "\<dots> = d # drop (Suc (?n - 2)) (ready_entries ?w)"
    unfolding d using n(2) by (intro Cons_nth_drop_Suc [symmetric]) (simp add: ready_queue_def)
  finally have q: "drop k (ready_entries ?v) = d # drop (Suc (?n - 2)) (ready_entries ?w)" .
  have okv: "ready_ok ?v"
    using ready_skip(1) [OF ok(1), of "h_ready_tail ?w + of_nat m"] um m(1) n
      ready_ok_recycled [OF o, of "h_ready_tail ?w + of_nat m"] by simp
  have v: "h_ready_tail ?v = h_ready_tail ?w + of_nat m" by simp
  have "k + m + 1 = (if ?n = 1 then 1 else ?n - 1)"
    unfolding k using n(2) by (cases "?n = 1"; simp only: if_True if_False; arith)
  then have "unat (h_ready_tail ?w + of_nat m + of_nat k + 1) = unat x"
    using take_after_entries(1) [OF okv q] unfolding v um x by linarith
  then have "h_ready_tail ?w + of_nat m + of_nat k + 1 = x" by (simp add: word_unat_eq_iff)
  then have "take_after k (t\<lparr>sy_writer := ?v\<rparr>) = sys_exec Receive_Latest t"
    by (simp add: take_after_def q r)
  then have "atoms_exec (replicate m Skip_Oldest @ [Take_After k]) t = sys_exec Receive_Latest t"
    by (simp add: atoms_exec_append [OF m(2)] del: sys_exec.simps split: option.split)
  then show ?thesis by blast
qed

text \<open>What a call needs to be calm, seen from the threads.\<close>

definition heads_low :: "nat \<Rightarrow> writer \<Rightarrow> bool" where
  "heads_low n w \<longleftrightarrow> unat (h_ready_head w) + n < 2 ^ 64 \<and> unat (h_rec_head w) + 2 ^ 32 + n < 2 ^ 64"

definition calm_atom :: "writer \<Rightarrow> atom \<Rightarrow> bool" where
  "calm_atom w x \<longleftrightarrow> (case x of
     Call (Lease sz align) \<Rightarrow> fresh_lease w sz align
   | Call Receive_Latest \<Rightarrow> False | Call Attach \<Rightarrow> False | Call Drain \<Rightarrow> False
   | _ \<Rightarrow> True)"

lemma owned_atom:
  assumes own: "owned t" and low: "heads_low 1 (sy_writer t)" and calm: "calm_atom w x"
    and w: "w_allocator (sy_writer t) = w_allocator w" "h_arena_size (sy_writer t) = h_arena_size w"
    and x: "atom_exec x t = Some t'"
  shows "owned t'"
proof (cases x)
  case Drain_Round
  with owned_drain_round [OF own] x show ?thesis by simp
next
  case Drain_End
  then have "t' = t\<lparr>sy_writer := (sy_writer t)\<lparr>h_arena_used_bytes := used_bytes (w_allocator (sy_writer t))\<rparr>\<rparr>"
    using x by simp
  then show ?thesis
    using own by (simp add: owned_def writer_ok_def circulating_def ready_ok_def rec_ok_def ready_queue_def
        rec_queue_def ready_entries_def rec_entries_def desc_in_arena_def w_arena_def)
next
  case Skip_Oldest
  have "writer_ok (sy_writer t)" "unat (h_rec_head (sy_writer t)) + 1 < 2 ^ 64"
    using own low by (simp_all add: owned_def heads_low_def)
  with skip_moves x Skip_Oldest owned_moves [OF own] show ?thesis by simp
next
  case (Take_After k)
  have "writer_ok (sy_writer t)" using own by (simp add: owned_def)
  with take_moves x Take_After owned_moves [OF own] show ?thesis by simp
next
  case (Emit pts now)
  then have "t' = t\<lparr>sy_writer := force_timeline_snapshot now pts (h_ready_head (sy_writer t)) (sy_writer t)\<rparr>"
    using x by (simp add: emit_timeline_snapshot_def)
  then show ?thesis
    using own by (simp add: owned_def writer_ok_def circulating_def ready_ok_def rec_ok_def ready_queue_def
        rec_queue_def ready_entries_def rec_entries_def desc_in_arena_def w_arena_def
        force_timeline_snapshot_def Let_def)
next
  case (Call c)
  have "ready_ok (sy_writer t)" using own by (simp add: owned_def writer_ok_def)
  then have "length (ready_queue (sy_writer t)) \<le> unat (h_ready_capacity (sy_writer t))"
    by (auto simp: ready_ok_def ready_queue_def ready_entries_def ring_ok_def)
  then have "length (ready_queue (sy_writer t)) < 2 ^ 32"
    using unat_u32_less [of "h_ready_capacity (sy_writer t)"] by simp
  then have counters: "unat (h_ready_head (sy_writer t)) + 1 < 2 ^ 64"
    "unat (h_rec_head (sy_writer t)) + length (ready_queue (sy_writer t)) + 1 < 2 ^ 64"
    using low by (simp_all add: heads_low_def)
  have "calm c t"
  proof (cases c)
    case (Lease sz align)
    then have fresh: "roomy (h_arena_size w) (max align 1)"
      "case alloc (w_allocator w) sz align of Some (a, x) \<Rightarrow> live (w_allocator w) (al_buffer_id x) = None | None \<Rightarrow> False"
      using calm Call by (simp_all add: calm_atom_def fresh_lease_def)
    then obtain a y where a: "alloc (w_allocator (sy_writer t)) sz align = Some (a, y)"
      "live (w_allocator (sy_writer t)) (al_buffer_id y) = None"
      by (auto simp: w split: option.splits)
    have "alloc_lease (sy_writer t) sz align =
        ((sy_writer t)\<lparr>w_allocator := a\<rparr>, Ok (lease_of (sy_writer t) y))"
      by (subst alloc_lease.simps) (simp add: a(1))
    with a(2) fresh(1) counters show ?thesis by (simp add: calm_def Lease lease_of_def w)
  qed (use counters in \<open>simp_all add: calm_def\<close>)
  with owned_step [OF own] x Call show ?thesis by simp
qed

text \<open>Every step completes at most one call, and a calm one.\<close>

lemma producer_completes_calm:
  "producer_step p s = (p', s', done, True) \<Longrightarrow> length done \<le> 1 \<and> (\<forall>x\<in>set done. calm_atom (sy_writer s) x)"
  by (cases p) (auto simp: producer_step_def is_alloc_def is_drain_def calm_atom_def Let_def
      split: if_splits option.splits)

lemma start_completes_calm:
  "producer_start x s = (p', s', done, ok) \<Longrightarrow> length done \<le> 1 \<and> (\<forall>x\<in>set done. calm_atom (sy_writer s) x)"
  by (cases x) (auto simp: calm_atom_def simp del: sys_exec.simps split: if_splits option.splits)

lemma consumer_completes_calm:
  "consumer_step q s = (q', s', done) \<Longrightarrow> length done \<le> 1 \<and> (\<forall>x\<in>set done. calm_atom (sy_writer s) x)"
  by (cases q) (auto simp: consumer_step_def is_give_def is_latest_def calm_atom_def Let_def
      split: if_splits option.splits res.splits)

lemma owned_atoms:
  assumes own: "owned t" and low: "heads_low 1 (sy_writer t)"
    and calm: "length done \<le> 1 \<and> (\<forall>x\<in>set done. calm_atom (sy_writer s) x)"
    and l: "linked p q s t" and x: "atoms_exec done t = Some t'"
  shows "owned t'"
proof (cases "done")
  case Nil
  with own x show ?thesis by simp
next
  case (Cons y ys)
  with calm have "ys = []" "calm_atom (sy_writer s) y" by auto
  then show ?thesis
    using owned_atom [OF own low _ linked_fields(6,5) [OF l]] x Cons by (auto split: option.splits)
qed

section \<open>Both threads\<close>

definition tracked :: "conf \<Rightarrow> sys \<Rightarrow> bool" where
  "tracked c t \<longleftrightarrow> owned t \<and> rings (sy_writer (cf_sys c)) \<and>
     producer_inv (cf_producer c) (cf_sys c) \<and> consumer_inv (cf_consumer c) (cf_sys c) \<and>
     linked (cf_producer c) (cf_consumer c) (cf_sys c) t"

text \<open>The step from \<open>c\<close> to \<open>c'\<close> completes calls that take the atomic model from \<open>t\<close> to \<open>t'\<close>.\<close>

definition advances :: "conf \<Rightarrow> sys \<Rightarrow> conf \<Rightarrow> bool" where
  "advances c t c' \<longleftrightarrow> (\<exists>new t'. cf_trace c' = cf_trace c @ new \<and> atoms_exec new t = Some t' \<and> tracked c' t') \<and>
     unat (h_ready_head (sy_writer (cf_sys c'))) \<le> unat (h_ready_head (sy_writer (cf_sys c))) + 1 \<and>
     unat (h_rec_head (sy_writer (cf_sys c'))) \<le> unat (h_rec_head (sy_writer (cf_sys c))) + 1"

lemma heads_low_linked: "linked p q s t \<Longrightarrow> heads_low n (sy_writer t) = heads_low n (sy_writer s)"
  by (simp add: heads_low_def linked_fields)

lemma producer_advances:
  assumes k: "tracked c t" and low: "heads_low 1 (sy_writer (cf_sys c))"
    and c': "c' = c\<lparr>cf_sys := s', cf_producer := p', cf_producer_calls := calls, cf_trace := cf_trace c @ new, cf_calm := ok\<rparr>"
    and keeps: "producer_inv p' s' \<and> rings (sy_writer s') \<and> producer_keeps (cf_sys c) s'"
    and calm: "length new \<le> 1 \<and> (\<forall>x\<in>set new. calm_atom (sy_writer (cf_sys c)) x)"
    and ends: "\<exists>t'. atoms_exec new t = Some t' \<and> linked p' (cf_consumer c) s' t'"
  shows "advances c t c'"
proof -
  from ends obtain t' where t': "atoms_exec new t = Some t'" "linked p' (cf_consumer c) s' t'" by blast
  have l: "linked (cf_producer c) (cf_consumer c) (cf_sys c) t" and own: "owned t"
    and cinv: "consumer_inv (cf_consumer c) (cf_sys c)"
    using k by (simp_all add: tracked_def)
  have "owned t'" by (rule owned_atoms [OF own _ calm l t'(1)]) (simp only: heads_low_linked [OF l] low)
  moreover have "consumer_inv (cf_consumer c) s'" using keeps cinv consumer_inv_stable by blast
  ultimately have "tracked c' t'" using keeps t'(2) by (simp add: tracked_def c')
  moreover have "cf_trace c' = cf_trace c @ new" by (simp add: c')
  moreover have "unat (h_ready_head (sy_writer s')) \<le> unat (h_ready_head (sy_writer (cf_sys c))) + 1"
    "h_rec_head (sy_writer s') = h_rec_head (sy_writer (cf_sys c))"
    using keeps by (simp_all add: producer_keeps_def Let_def)
  ultimately show ?thesis using t'(1) unfolding advances_def c' by auto
qed

lemma consumer_advances:
  assumes k: "tracked c t" and low: "heads_low 1 (sy_writer (cf_sys c))"
    and c': "c' = c\<lparr>cf_sys := s', cf_consumer := q', cf_trace := cf_trace c @ new\<rparr>"
    and keeps: "consumer_inv q' s' \<and> rings (sy_writer s') \<and> consumer_keeps (cf_sys c) s'"
    and calm: "length new \<le> 1 \<and> (\<forall>x\<in>set new. calm_atom (sy_writer (cf_sys c)) x)"
    and ends: "\<exists>t'. atoms_exec new t = Some t' \<and> linked (cf_producer c) q' s' t'"
  shows "advances c t c'"
proof -
  from ends obtain t' where t': "atoms_exec new t = Some t'" "linked (cf_producer c) q' s' t'" by blast
  have l: "linked (cf_producer c) (cf_consumer c) (cf_sys c) t" and own: "owned t"
    and pinv: "producer_inv (cf_producer c) (cf_sys c)"
    using k by (simp_all add: tracked_def)
  have "owned t'" by (rule owned_atoms [OF own _ calm l t'(1)]) (simp only: heads_low_linked [OF l] low)
  moreover have "producer_inv (cf_producer c) s'" using keeps pinv producer_inv_stable by blast
  ultimately have "tracked c' t'" using keeps t'(2) by (simp add: tracked_def c')
  moreover have "cf_trace c' = cf_trace c @ new" by (simp add: c')
  moreover have "unat (h_rec_head (sy_writer s')) \<le> unat (h_rec_head (sy_writer (cf_sys c))) + 1"
    using keeps unfolding consumer_keeps_def Let_def by blast
  moreover have "h_ready_head (sy_writer s') = h_ready_head (sy_writer (cf_sys c))"
    using keeps consumer_keeps_fields(2) by blast
  ultimately show ?thesis using t'(1) unfolding advances_def c' by auto
qed

lemma producer_turn_advances:
  assumes k: "tracked c t" and low: "heads_low 1 (sy_writer (cf_sys c))" and ok: "cf_calm (producer_turn c)"
  shows "advances c t (producer_turn c)"
proof -
  have r: "rings (sy_writer (cf_sys c))" and own: "owned t"
    and pinv: "producer_inv (cf_producer c) (cf_sys c)" and cinv: "consumer_inv (cf_consumer c) (cf_sys c)"
    and l: "linked (cf_producer c) (cf_consumer c) (cf_sys c) t"
    using k by (simp_all add: tracked_def)
  have head: "unat (h_ready_head (sy_writer (cf_sys c))) + 1 < 2 ^ 64" using low by (simp add: heads_low_def)
  show ?thesis
  proof (cases "cf_producer c = P_Idle \<and> cf_producer_calls c \<noteq> []")
    case True
    then obtain x xs where x: "cf_producer c = P_Idle" "cf_producer_calls c = x # xs"
      by (cases "cf_producer_calls c") auto
    obtain p' s' new b where st: "producer_start x (cf_sys c) = (p', s', new, b)" by (metis prod_cases4)
    have "producer_turn c = c\<lparr>cf_sys := s', cf_producer := p', cf_producer_calls := xs,
        cf_trace := cf_trace c @ new, cf_calm := (cf_calm c \<and> b)\<rparr>"
      by (simp add: producer_turn_def x st)
    then show ?thesis
      by (rule producer_advances [OF k low])
        (use producer_start_inv [OF r st] start_completes_calm [OF st] start_completes [OF l [unfolded x(1)] st] in auto)
  next
    case False
    obtain p' s' new b where st: "producer_step (cf_producer c) (cf_sys c) = (p', s', new, b)" by (metis prod_cases4)
    have turn: "producer_turn c = c\<lparr>cf_sys := s', cf_producer := p',
        cf_producer_calls := (if cf_producer c = P_Idle then tl (cf_producer_calls c) else cf_producer_calls c),
        cf_trace := cf_trace c @ new, cf_calm := (cf_calm c \<and> b)\<rparr>"
      using False st by (auto simp: producer_turn_def split: producer_pc.split list.split)
    then have b: "b" using ok by simp
    note st' = st [unfolded eqTrueI [OF b]]
    show ?thesis
      by (rule producer_advances [OF k low turn producer_step_inv [OF pinv r head st']
            producer_completes_calm [OF st'] producer_step_linked [OF own l r pinv cinv st']])
  qed
qed

lemma consumer_turn_advances:
  assumes k: "tracked c t" and low: "heads_low 1 (sy_writer (cf_sys c))"
  shows "advances c t (consumer_turn c)"
proof -
  have r: "rings (sy_writer (cf_sys c))" and own: "owned t"
    and pinv: "producer_inv (cf_producer c) (cf_sys c)" and cinv: "consumer_inv (cf_consumer c) (cf_sys c)"
    and l: "linked (cf_producer c) (cf_consumer c) (cf_sys c) t"
    using k by (simp_all add: tracked_def)
  have head: "unat (h_rec_head (sy_writer (cf_sys c))) + 1 < 2 ^ 64" using low by (simp add: heads_low_def)
  have quiet: "advances c t c'"
    if "cf_sys c' = cf_sys c" "cf_producer c' = cf_producer c" "cf_trace c' = cf_trace c"
      "consumer_inv (cf_consumer c') (cf_sys c)" "linked (cf_producer c) (cf_consumer c') (cf_sys c) t" for c'
    using that k by (simp add: advances_def tracked_def)
  show ?thesis
  proof (cases "\<exists>n s. cf_consumer c = Snap_Load n s")
    case True
    then obtain n s where n: "cf_consumer c = Snap_Load n s" by blast
    have "consumer_inv (cf_consumer (consumer_turn c)) (cf_sys c)"
      by (simp add: consumer_turn_def n Let_def consumer_inv_def)
    moreover have "linked (cf_producer c) (cf_consumer (consumer_turn c)) (cf_sys c) t"
      by (rule linked_same_consumer [OF l]) (auto simp: consumer_turn_def n Let_def split: if_splits)
    ultimately show ?thesis by (intro quiet) (simp_all add: consumer_turn_def n Let_def)
  next
    case no_load: False
    show ?thesis
    proof (cases "cf_consumer c = C_Idle \<and> cf_consumer_calls c \<noteq> []")
      case True
      then obtain x xs where x: "cf_consumer c = C_Idle" "cf_consumer_calls c = x # xs"
        by (cases "cf_consumer_calls c") auto
      have "consumer_inv (consumer_start x (cf_sys c)) (cf_sys c)"
        by (cases x) (simp_all add: consumer_inv_def Let_def snapshot_loads_def)
      moreover have "linked (cf_producer c) (consumer_start x (cf_sys c)) (cf_sys c) t"
        by (rule linked_same_consumer [OF l]; cases x) (auto simp: x(1) split: if_splits)
      ultimately show ?thesis by (intro quiet) (simp_all add: consumer_turn_def x)
    next
      case False
      obtain q' s' new where st: "consumer_step (cf_consumer c) (cf_sys c) = (q', s', new)" by (metis prod_cases3)
      have turn: "consumer_turn c = c\<lparr>cf_sys := s', cf_consumer := q', cf_trace := cf_trace c @ new\<rparr>"
        using False no_load st by (auto simp: consumer_turn_def split: consumer_pc.split list.split)
      show ?thesis
        by (rule consumer_advances [OF k low turn consumer_step_inv [OF cinv r head st]
              consumer_completes_calm [OF st] consumer_step_linked [OF own l r cinv pinv st]])
    qed
  qed
qed

lemma producer_turn_calm: "cf_calm (producer_turn c) \<Longrightarrow> cf_calm c"
  by (simp add: producer_turn_def Let_def split: prod.splits)

lemma consumer_turn_calm: "cf_calm (consumer_turn c) = cf_calm c"
  by (simp add: consumer_turn_def Let_def split: consumer_pc.splits list.splits prod.splits)

lemma turns_calm: "cf_calm (turns sched c) \<Longrightarrow> cf_calm c"
proof (induction sched arbitrary: c)
  case (Cons x xs)
  then have "cf_calm (turn x c)" by simp
  then show ?case by (cases x) (simp_all add: producer_turn_calm consumer_turn_calm)
qed simp

lemma turn_advances:
  assumes "tracked c t" "heads_low 1 (sy_writer (cf_sys c))" "cf_calm (turn x c)"
  shows "advances c t (turn x c)"
  using assms producer_turn_advances consumer_turn_advances by (cases x) auto

lemma turns_tracked:
  assumes "tracked c t" "heads_low (length sched + n) (sy_writer (cf_sys c))" "cf_calm (turns sched c)"
  shows "\<exists>new t'. cf_trace (turns sched c) = cf_trace c @ new \<and> atoms_exec new t = Some t' \<and>
    tracked (turns sched c) t' \<and> heads_low n (sy_writer (cf_sys (turns sched c)))"
  using assms
proof (induction sched arbitrary: c t)
  case Nil
  then show ?case by simp
next
  case (Cons x xs)
  have "heads_low 1 (sy_writer (cf_sys c))" using Cons.prems(2) by (simp add: heads_low_def)
  moreover have "cf_calm (turn x c)" using Cons.prems(3) turns_calm by simp
  ultimately have a: "advances c t (turn x c)" by (rule turn_advances [OF Cons.prems(1)])
  then obtain new t1 where n: "cf_trace (turn x c) = cf_trace c @ new" "atoms_exec new t = Some t1"
    "tracked (turn x c) t1"
    by (auto simp: advances_def)
  have "heads_low (length xs + n) (sy_writer (cf_sys (turn x c)))"
    using a Cons.prems(2) by (simp add: advances_def heads_low_def)
  from Cons.IH [OF n(3) this] Cons.prems(3) obtain more t2 where m:
    "cf_trace (turns xs (turn x c)) = cf_trace (turn x c) @ more" "atoms_exec more t1 = Some t2"
    "tracked (turns xs (turn x c)) t2" "heads_low n (sy_writer (cf_sys (turns xs (turn x c))))"
    by auto
  have "atoms_exec (new @ more) t = Some t2" using atoms_exec_append [OF n(2)] m(2) by simp
  then show ?case using m(1,3,4) n(1) by (intro exI [of _ "new @ more"] exI [of _ t2]) simp
qed

lemma tracked_start:
  assumes "owned s"
  shows "tracked (start_conf s ps cs) s"
  using assms
  by (simp add: tracked_def start_conf_def rings_def producer_inv_def consumer_inv_def linked_idle
      owned_def writer_ok_def ready_ok_def rec_ok_def)

text \<open>
  C3: single accesses refine whole calls.  Start from a state in which every buffer has one owner,
  let the producer make any calls of \<open>alloc_lease\<close>, \<open>publish_lease\<close>, \<open>free_lease\<close>, \<open>drain_recycles\<close> and
  fill its leases, the consumer any calls of \<open>try_recv_desc\<close>, \<open>try_recv_latest_desc\<close>, \<open>recycle_desc\<close> and
  \<open>timeline_snapshot\<close>, and interleave their loads, stores and field copies in any way.  As long as allocations find room,
  the calls the threads have completed are a run of whole calls, each at one instant between its
  start and its end, with the same leases pending and the same frames in the consumer's hands; when
  both threads are between calls the memory is the same too, and no thread panics.
\<close>

theorem interleaving_refines_calls:
  assumes "owned s" and "heads_low (length sched) (sy_writer s)"
    and "c = turns sched (start_conf s ps cs)" and "cf_calm c"
  shows "\<exists>t. atoms_exec (cf_trace c) s = Some t \<and> owned t \<and>
    sy_pending t = sy_pending (cf_sys c) \<and> sy_held t = sy_held (cf_sys c) \<and>
    (cf_producer c = P_Idle \<and> cf_consumer c = C_Idle \<longrightarrow> cf_sys c = t) \<and>
    cf_producer c \<noteq> P_Dead \<and> cf_consumer c \<noteq> C_Dead"
proof -
  have "heads_low (length sched + 0) (sy_writer (cf_sys (start_conf s ps cs)))"
    using assms(2) by (simp add: start_conf_def)
  from turns_tracked [OF tracked_start [OF assms(1)] this] assms(3,4) obtain t where
    t: "atoms_exec (cf_trace c) s = Some t" "tracked c t"
    by (auto simp: start_conf_def)
  then have l: "linked (cf_producer c) (cf_consumer c) (cf_sys c) t"
    and inv: "producer_inv (cf_producer c) (cf_sys c)" "consumer_inv (cf_consumer c) (cf_sys c)" and "owned t"
    by (simp_all add: tracked_def)
  have "cf_producer c \<noteq> P_Dead" "cf_consumer c \<noteq> C_Dead"
    using inv by (auto simp: producer_inv_def consumer_inv_def Let_def)
  moreover have "cf_sys c = t" if "cf_producer c = P_Idle \<and> cf_consumer c = C_Idle"
    using l that by (simp add: linked_idle)
  ultimately show ?thesis using t(1) \<open>owned t\<close> linked_fields(8,9) [OF l] by auto
qed

subsection \<open>What is in the threads' hands\<close>

definition in_hands :: "sys \<Rightarrow> buffer list" where
  "in_hands s = map lease_buffer (sy_pending s) @ map held_buffer (sy_held s)"

lemma producer_step_arena:
  "producer_step p s = (p', s', done, ok) \<Longrightarrow> producer_inv p s \<Longrightarrow> arena (sy_writer s') = arena (sy_writer s)"
proof (cases p)
  case (Snap_Store pts now rh generation n)
  assume st: "producer_step p s = (p', s', done, ok)" and inv: "producer_inv p s"
  have "arena (g w) = arena w" if "g \<in> set (snapshot_stores pts now rh generation)" for g w
    using that by (auto simp: snapshot_stores_def)
  moreover have "snapshot_stores pts now rh generation ! n \<in> set (snapshot_stores pts now rh generation)"
    using inv by (simp add: Snap_Store producer_inv_def)
  ultimately show ?thesis
    using st by (auto simp: Snap_Store producer_step_def is_alloc_def is_drain_def Let_def)
qed (auto simp: producer_step_def is_alloc_def is_drain_def granted_def producer_inv_def Let_def
    split: if_splits option.splits)

lemma consumer_step_arena:
  "consumer_step q s = (q', s', done) \<Longrightarrow> arena (sy_writer s') = arena (sy_writer s)"
  by (cases q) (auto simp: consumer_step_def is_give_def is_latest_def Let_def split: if_splits option.splits res.splits)

lemma turn_arena:
  assumes "producer_inv (cf_producer c) (cf_sys c)"
  shows "arena (sy_writer (cf_sys (turn x c))) = arena (sy_writer (cf_sys c)) \<or>
    (\<exists>k bytes. cf_trace (turn x c) = cf_trace c @ [Call (Fill k bytes)])"
proof (cases x)
  case Consumer
  then show ?thesis
    by (auto simp: consumer_turn_def Let_def dest!: consumer_step_arena
        split: consumer_pc.split list.split prod.split)
next
  case Producer
  show ?thesis
  proof (cases "cf_producer c = P_Idle \<and> cf_producer_calls c \<noteq> []")
    case True
    then obtain y ys where y: "cf_producer c = P_Idle" "cf_producer_calls c = y # ys"
      by (cases "cf_producer_calls c") auto
    then show ?thesis
      by (cases y) (auto simp: Producer producer_turn_def Let_def free_lease_def split: option.split prod.split)
  next
    case False
    obtain p' s' new b where st: "producer_step (cf_producer c) (cf_sys c) = (p', s', new, b)" by (metis prod_cases4)
    have "cf_sys (producer_turn c) = s'"
      using False st by (auto simp: producer_turn_def split: producer_pc.split list.split)
    then show ?thesis using producer_step_arena [OF st assms] by (simp add: Producer)
  qed
qed

text \<open>
  C4: at every moment of an interleaving the blocks of the leases not yet published and of the frames in
  the consumer's hands are live, have different ids and do not overlap, and whatever access either
  thread makes next, the filling of a lease included, the bytes of the frames held do not change:
  the consumer may read them at any time.
\<close>

theorem interleaved_exclusive:
  assumes "owned s" and "heads_low (Suc (length sched)) (sy_writer s)"
    and "c = turns sched (start_conf s ps cs)" and "cf_calm (turn x c)"
  shows "distinct (map fst (in_hands (cf_sys c))) \<and>
    (\<forall>b\<in>set (in_hands (cf_sys c)). leased (w_allocator (sy_writer (cf_sys c))) b) \<and>
    (\<forall>b\<in>set (in_hands (cf_sys c)). \<forall>b'\<in>set (in_hands (cf_sys c)).
       b \<noteq> b' \<longrightarrow> disjoint_ranges (buffer_range b) (buffer_range b')) \<and>
    (\<forall>d\<in>set (sy_held (cf_sys c)).
       payload_bytes (sy_writer (cf_sys (turn x c))) (held_buffer d) =
       payload_bytes (sy_writer (cf_sys c)) (held_buffer d))"
proof -
  let ?c = "start_conf s ps cs"
  have low: "heads_low (length sched + 1) (sy_writer (cf_sys ?c))"
    using assms(2) by (simp add: start_conf_def)
  have "cf_calm (turns [x] c)" using assms(4) by simp
  then have calm: "cf_calm (turns sched ?c)" using turns_calm assms(3) by blast
  from turns_tracked [OF tracked_start [OF assms(1)] low calm] obtain t where k: "tracked c t"
    and heads: "heads_low 1 (sy_writer (cf_sys c))"
    using assms(3) by auto
  then have own: "owned t" and l: "linked (cf_producer c) (cf_consumer c) (cf_sys c) t"
    and pinv: "producer_inv (cf_producer c) (cf_sys c)"
    by (simp_all add: tracked_def)
  note f = linked_fields [OF l]
  have sub: "mset (in_hands (cf_sys c)) \<subseteq># mset (circulating t)"
    by (simp add: in_hands_def circulating_def f)
  have dist: "distinct (map fst (circulating t))" using own by (simp add: owned_def)
  note d = distinct_mset_mono [OF sub dist]
  have live: "leased (w_allocator (sy_writer (cf_sys c))) b" if "b \<in> set (in_hands (cf_sys c))" for b
    using own d(2) that f(6) by (auto simp: owned_def)
  have wf: "alloc_wf (h_arena_size (sy_writer t)) (w_allocator (sy_writer t))"
    using own by (simp add: owned_def writer_ok_def)
  have apart: "disjoint_ranges (buffer_range b) (buffer_range b')"
    if "b \<in> set (in_hands (cf_sys c))" "b' \<in> set (in_hands (cf_sys c))" "b \<noteq> b'" for b b'
  proof (rule leased_disjoint [OF wf])
    show "leased (w_allocator (sy_writer t)) b" "leased (w_allocator (sy_writer t)) b'"
      using live that(1,2) f(6) by simp_all
    show "fst b \<noteq> fst b'" using d(1) that by (metis inj_on_eq_iff distinct_map)
  qed
  have "payload_bytes (sy_writer (cf_sys (turn x c))) (held_buffer h) =
      payload_bytes (sy_writer (cf_sys c)) (held_buffer h)" if h: "h \<in> set (sy_held (cf_sys c))" for h
  proof (cases "arena (sy_writer (cf_sys (turn x c))) = arena (sy_writer (cf_sys c))")
    case True
    then show ?thesis by (simp add: payload_bytes_def)
  next
    case False
    with turn_arena [OF pinv] obtain k bytes where fill: "cf_trace (turn x c) = cf_trace c @ [Call (Fill k bytes)]"
      by blast
    have "heads_low 1 (sy_writer (cf_sys c))" using heads assms(3) by simp
    from turn_advances [OF k this assms(4)] obtain new t' where
      "cf_trace (turn x c) = cf_trace c @ new" "atoms_exec new t = Some t'" "tracked (turn x c) t'"
      by (auto simp: advances_def)
    with fill have x: "sys_exec (Fill k bytes) t = Some t'" and k': "tracked (turn x c) t'"
      by (auto simp del: sys_exec.simps split: option.splits)
    have "held_buffer h \<in> set (map frame_buffer (ready_queue (sy_writer t)) @ map held_buffer (sy_held t))"
      using h f(9) by simp
    note stable = fill_stable [OF own x this]
    have "arena (sy_writer t') = arena (sy_writer (cf_sys (turn x c)))"
      using k' linked_fields(7) by (auto simp: tracked_def)
    with stable f(7) show ?thesis by (simp add: payload_bytes_def)
  qed
  with d(1) live apart show ?thesis by blast
qed

end
