(* ===== verification/Races.thy ===== *)
theory Races
  imports Linearization Delivery
begin

text \<open>
  Two interleavings that no run of whole calls has. They need what \<open>interleaving_refines_calls\<close> excludes
  or does not speak of: an allocation that drops a queued frame moves the consumer's counter from the
  producer's side, and a timeline snapshot is read while the next one is being stored.
\<close>

lemma turns_append: "turns (xs @ ys) c = turns ys (turns xs c)"
  by (induction xs arbitrary: c) simp_all

lemmas turn_defs = consumer_turn_def consumer_step_def is_give_def is_latest_def producer_turn_def producer_step_def
  is_alloc_def is_drain_def Let_def

section \<open>Dropping a frame the consumer is taking\<close>

text \<open>The consumer's turns up to the store of the tail.\<close>

lemma receive_turns:
  assumes ok: "writer_ok (sy_writer s)" and q: "ready_entries (sy_writer s) = d # ds"
    and c: "cf_sys c = s" "cf_consumer c = C_Idle" "cf_consumer_calls c = C_Receive # cs"
  shows "turns (replicate 14 Consumer) c =
    c\<lparr>cf_consumer := Recv_Store (h_ready_tail (sy_writer s)) d, cf_consumer_calls := cs\<rparr>"
proof -
  let ?w = "sy_writer s"
  have ready: "ready_ok ?w" using ok by (rule writer_okD(1))
  then have ring: "ring_ok (ready ?w) (h_ready_head ?w) (h_ready_tail ?w) (ucast (h_ready_capacity ?w))"
    by (simp add: ready_ok_def)
  have ne: "h_ready_head ?w \<noteq> h_ready_tail ?w" using q by (auto simp: ready_entries_def)
  have at: "ready_at ?w (h_ready_tail ?w) = d"
    using ring_pop(2) [OF ring ne] q by (simp add: ready_entries_def)
  have "desc_in_arena ?w d" using ready q by (simp add: ready_ok_def)
  then have bounds: "validate_bounds ?w (rd_offset d) (ucast (rd_length d)) = Ok ()"
    by (simp add: validate_bounds_Ok desc_in_arena_def)
  show ?thesis
    by (simp add: turn_defs c ne ring_get_Some [OF ring] at bounds ready_fields_def numeral_eq_Suc)
qed

text \<open>The producer's turns from an attempt that fails to the next attempt: one drop.\<close>

definition dropped_one :: "ready_desc \<Rightarrow> writer \<Rightarrow> writer" where
  "dropped_one d w =
     (let a = fst (free_by_id (w_allocator w) (rd_buffer_id d))
      in w\<lparr>w_allocator := a, h_ready_tail := h_ready_tail w + 1, h_arena_used_bytes := used_bytes a\<rparr>)"

lemma drop_turns:
  assumes ok: "ready_ok (sy_writer s)" and q: "ready_entries (sy_writer s) = d # ds"
    and full: "alloc (w_allocator (sy_writer s)) sz align = None"
    and c: "cf_sys c = s" "cf_producer c = Alloc_Try sz align"
  shows "turns (replicate 15 Producer) c =
    c\<lparr>cf_sys := on_writer (dropped_one d) s, cf_calm := False\<rparr>"
proof -
  let ?w = "sy_writer s"
  have ring: "ring_ok (ready ?w) (h_ready_head ?w) (h_ready_tail ?w) (ucast (h_ready_capacity ?w))"
    using ok by (simp add: ready_ok_def)
  have ne: "h_ready_head ?w \<noteq> h_ready_tail ?w" using q by (auto simp: ready_entries_def)
  have at: "ready_at ?w (h_ready_tail ?w) = d"
    using ring_pop(2) [OF ring ne] q by (simp add: ready_entries_def)
  show ?thesis
    by (simp add: turn_defs c ne full ring_get_Some [OF ring] at ready_fields_def numeral_eq_Suc dropped_one_def)
qed

lemma atomic_drop:
  assumes "ready_ok w" "ready_entries w = d # ds"
  shows "drop_oldest_ready w = (dropped_one d w, Ok True)"
  using assms ring_pop(2) [of "ready w" "h_ready_head w" "h_ready_tail w" "ucast (h_ready_capacity w)"]
  by (auto simp: drop_oldest_ready_def dropped_one_def ready_ok_def ready_entries_def Let_def ring_get_Some)

text \<open>
  C17: a drop races with a receive.  Let the arena be full and a frame be queued.  The consumer reads the
  oldest descriptor and checks it; before it stores the tail, the producer's \<open>alloc_lease\<close> frees that
  frame's block and hands it out again; then the consumer stores the tail.  Now the consumer holds
  the frame and the producer a lease whose block lies inside it, so filling the lease changes the
  bytes the consumer reads. No reset and no reused id is involved.
\<close>

theorem drop_races_receive:
  fixes s :: sys
  assumes "owned s" and "ready_entries (sy_writer s) = d # ds" and "fl_free (w_allocator (sy_writer s)) = []"
    and "roomy (h_arena_size (sy_writer s)) (max align 1)"
    and "alloc (fst (free_by_id (w_allocator (sy_writer s)) (rd_buffer_id d))) sz align = Some (a, x)"
    and "c = turns (replicate 14 Consumer @ replicate 17 Producer @ [Consumer])
               (start_conf s [P_Lease sz align] [C_Receive])"
  shows "\<exists>l. cf_producer c = P_Idle \<and> cf_consumer c = C_Idle \<and>
    sy_held (cf_sys c) = sy_held s @ [received_of d] \<and> sy_pending (cf_sys c) = sy_pending s @ [l] \<and>
    range_bytes (buffer_range (lease_buffer l)) \<subseteq> range_bytes (buffer_range (held_buffer (received_of d)))"
proof -
  let ?w = "sy_writer s" and ?c = "start_conf s [P_Lease sz align] [C_Receive]"
  let ?w1 = "dropped_one d ?w" and ?a1 = "fst (free_by_id (w_allocator ?w) (rd_buffer_id d))"
  have ok: "writer_ok ?w" using assms(1) by (simp add: owned_def)
  note o = writer_okD [OF ok]
  have full: "alloc (w_allocator ?w) sz align = None" using assms(3) by (simp add: alloc_carve)
  let ?c1 = "?c\<lparr>cf_consumer := Recv_Store (h_ready_tail ?w) d, cf_consumer_calls := []\<rparr>"
  have c1: "turns (replicate 14 Consumer) ?c = ?c1"
    by (rule receive_turns [OF ok assms(2)]) (simp_all add: start_conf_def)
  let ?c2 = "?c1\<lparr>cf_producer := Alloc_Try sz align, cf_producer_calls := []\<rparr>"
  have c2: "turn Producer ?c1 = ?c2" by (simp add: producer_turn_def start_conf_def)
  let ?c3 = "?c2\<lparr>cf_sys := on_writer (dropped_one d) s, cf_calm := False\<rparr>"
  have c3: "turns (replicate 15 Producer) ?c2 = ?c3"
    by (rule drop_turns [OF o(1) assms(2) full]) (simp_all add: start_conf_def)
  let ?c4 = "?c3\<lparr>cf_producer := P_Idle, cf_sys := granted a x (on_writer (dropped_one d) s),
      cf_trace := [Call (Lease sz align)]\<rparr>"
  have c4: "turn Producer ?c3 = ?c4"
    using assms(5) by (simp add: turn_defs start_conf_def dropped_one_def)
  have "turns (replicate 14 Consumer @ replicate 17 Producer @ [Consumer]) ?c =
      turn Consumer (turn Producer (turns (replicate 15 Producer) (turn Producer (turns (replicate 14 Consumer) ?c))))"
  proof -
    have "replicate 17 Producer = Producer # replicate 15 Producer @ [Producer]" by (simp add: numeral_eq_Suc)
    then show ?thesis by (simp only: turns_append turns.simps append.simps append_assoc)
  qed
  then have c: "c = turn Consumer ?c4" by (simp only: assms(6) c1 c2 c3 c4)
  let ?l = "lease_of ?w1 x"
  have final: "cf_producer c = P_Idle" "cf_consumer c = C_Idle" "sy_held (cf_sys c) = sy_held s @ [received_of d]"
    "sy_pending (cf_sys c) = sy_pending s @ [?l]"
    by (simp_all add: c turn_defs start_conf_def granted_def)
  have "frame_buffer (frame_of d) \<in> set (circulating s)"
    using assms(2) by (simp add: circulating_def ready_queue_def)
  then have live: "live (w_allocator ?w) (rd_buffer_id d) = Some (rd_offset d, ucast (rd_length d))"
    using assms(1) by (auto simp: owned_def leased_def frame_buffer_def frame_of_def)
  have free: "free_bytes ?a1 = range_bytes (rd_offset d, ucast (rd_length d))"
    using free_by_id_Some(3) [OF o(3) live, of ?a1 "snd (free_by_id (w_allocator ?w) (rd_buffer_id d))"] assms(3)
    by (simp add: all_bytes_def)
  have wf: "alloc_wf (h_arena_size ?w) ?a1" by (rule alloc_wf_free [OF o(3)])
  note al = alloc_Some [OF wf assms(4,5)]
  have "range_bytes (buffer_range (lease_buffer ?l)) \<subseteq> range_bytes (buffer_range (held_buffer (received_of d)))"
    using al(2,5) by (simp add: free buffer_range_def lease_buffer_def lease_of_def held_buffer_def received_of_def)
  with final show ?thesis by blast
qed

text \<open>
  C18: the consumer can move the tail of the ready ring back.  When the producer drops two frames while the
  consumer is taking the first of them, the consumer's store undoes the second drop: the ring offers
  a frame again whose block has been freed.
\<close>

theorem receive_undoes_drop:
  fixes s :: sys
  assumes "owned s" and "ready_entries (sy_writer s) = d # d' # ds"
    and "alloc (w_allocator (sy_writer s)) sz align = None"
    and "alloc (free_all [rd_buffer_id d] (w_allocator (sy_writer s))) sz align = None"
    and "alloc (free_all [rd_buffer_id d, rd_buffer_id d'] (w_allocator (sy_writer s))) sz align = Some (a, x)"
    and "roomy (h_arena_size (sy_writer s)) (max align 1)"
    and "rd_buffer_id d' \<noteq> fl_next_id (w_allocator (sy_writer s))"
    and "c = turns (replicate 14 Consumer @ replicate 32 Producer @ [Consumer])
               (start_conf s [P_Lease sz align] [C_Receive])"
  shows "cf_producer c = P_Idle \<and> cf_consumer c = C_Idle \<and>
    ready_entries (sy_writer (cf_sys c)) = d' # ds \<and>
    live (w_allocator (sy_writer (cf_sys c))) (rd_buffer_id d') = None"
proof -
  let ?w = "sy_writer s" and ?c = "start_conf s [P_Lease sz align] [C_Receive]"
  let ?w1 = "dropped_one d ?w" and ?w2 = "dropped_one d' (dropped_one d ?w)"
  have ok: "writer_ok ?w" using assms(1) by (simp add: owned_def)
  note o = writer_okD [OF ok]
  note one = try_recv_desc_some(2,3) [OF o(1) assms(2)]
  have w1: "ready_ok ?w1" "ready_entries ?w1 = d' # ds"
    using one by (simp_all add: dropped_one_def Let_def ready_ok_def ready_entries_def desc_in_arena_def)
  let ?c1 = "?c\<lparr>cf_consumer := Recv_Store (h_ready_tail ?w) d, cf_consumer_calls := []\<rparr>"
  have c1: "turns (replicate 14 Consumer) ?c = ?c1"
    by (rule receive_turns [OF ok assms(2)]) (simp_all add: start_conf_def)
  let ?c2 = "?c1\<lparr>cf_producer := Alloc_Try sz align, cf_producer_calls := []\<rparr>"
  have c2: "turn Producer ?c1 = ?c2" by (simp add: producer_turn_def start_conf_def)
  let ?c3 = "?c2\<lparr>cf_sys := on_writer (dropped_one d) s, cf_calm := False\<rparr>"
  have c3: "turns (replicate 15 Producer) ?c2 = ?c3"
    by (rule drop_turns [OF o(1) assms(2,3)]) (simp_all add: start_conf_def)
  let ?c4 = "?c3\<lparr>cf_sys := on_writer (dropped_one d') (on_writer (dropped_one d) s), cf_calm := False\<rparr>"
  have c4: "turns (replicate 15 Producer) ?c3 = ?c4"
    by (rule drop_turns) (use w1 assms(4) in \<open>simp_all add: start_conf_def dropped_one_def Let_def\<close>)
  let ?c5 = "?c4\<lparr>cf_producer := P_Idle, cf_sys := granted a x (on_writer (dropped_one d') (on_writer (dropped_one d) s)),
      cf_trace := [Call (Lease sz align)]\<rparr>"
  have c5: "turn Producer ?c4 = ?c5"
    using assms(5) by (simp add: turn_defs start_conf_def dropped_one_def)
  have "turns (replicate 14 Consumer @ replicate 32 Producer @ [Consumer]) ?c =
      turn Consumer (turn Producer (turns (replicate 15 Producer) (turns (replicate 15 Producer)
        (turn Producer (turns (replicate 14 Consumer) ?c)))))"
  proof -
    have "replicate 32 Producer = Producer # replicate 15 Producer @ replicate 15 Producer @ [Producer]"
      by (simp add: numeral_eq_Suc)
    then show ?thesis by (simp only: turns_append turns.simps append.simps append_assoc)
  qed
  then have c: "c = turn Consumer ?c5" by (simp only: assms(8) c1 c2 c3 c4 c5)
  have wf: "alloc_wf (h_arena_size ?w) (free_all [rd_buffer_id d, rd_buffer_id d'] (w_allocator ?w))"
    by (rule alloc_wf_free_all [OF o(3)])
  note al = alloc_Some [OF wf assms(6,5)]
  have "live a (rd_buffer_id d') = None"
    using assms(7) by (simp add: al(7) update_conv free_by_id_live free_by_id_next)
  moreover have "ready_entries (sy_writer (cf_sys c)) = d' # ds"
    using one(2) by (simp add: c turn_defs start_conf_def granted_def dropped_one_def ready_entries_def)
  ultimately show ?thesis by (simp add: c turn_defs start_conf_def granted_def)
qed

section \<open>Reading a snapshot while the next is stored\<close>

text \<open>
  C19: a timeline snapshot can be torn.  The consumer loads the sequence number, then the producer begins
  the next snapshot and stores its monotonic time, then the consumer loads the rest: it gets the new
  time with the old time stamp under the old sequence number, a snapshot that neither was nor will
  be published, and the source element takes the two values for a pair.
\<close>

theorem torn_snapshot:
  fixes s :: sys
  assumes "c = turns ([Producer, Producer] @ replicate 5 Consumer @ [Producer] @ replicate 3 Consumer)
      (start_conf s [P_Emit pts now] [C_Snapshot])"
    and "now \<noteq> h_timeline_sink_mono_ns (sy_writer s)"
  shows "cf_snapshots c = [(timeline_snapshot (sy_writer s))\<lparr>ts_sink_mono_ns := now\<rparr>] \<and>
    cf_snapshots c \<noteq> [timeline_snapshot (sy_writer s)] \<and>
    cf_snapshots c \<noteq> [timeline_snapshot (emit_timeline_snapshot now pts (sy_writer s))]"
proof -
  have "cf_snapshots c = [(timeline_snapshot (sy_writer s))\<lparr>ts_sink_mono_ns := now\<rparr>]"
    by (simp add: assms(1) turn_defs start_conf_def snapshot_loads_def snapshot_stores_def blank_snapshot_def
        timeline_snapshot_def numeral_eq_Suc)
  moreover have "(timeline_snapshot (sy_writer s))\<lparr>ts_sink_mono_ns := now\<rparr> \<noteq> timeline_snapshot (sy_writer s)"
    using assms(2) by (simp add: timeline_snapshot_def)
  moreover have "(timeline_snapshot (sy_writer s))\<lparr>ts_sink_mono_ns := now\<rparr> \<noteq>
      timeline_snapshot (emit_timeline_snapshot now pts (sy_writer s))"
    by (simp add: timeline_snapshot_def emit_timeline_snapshot_def force_timeline_snapshot_def Let_def)
  ultimately show ?thesis by simp
qed

section \<open>Concrete instances\<close>

definition small_sys :: sys where
  "small_sys = \<lparr>sy_writer = small_writer 2, sy_pending = [], sy_held = []\<rparr>"

lemma small_sys_owned: "owned small_sys"
  unfolding small_sys_def by (rule reachable_owned [OF reachable.created [OF small_create]]) simp_all

lemma small_alloc: "alloc (w_allocator (small_writer 2)) 100 64 =
    Some (take_block (new_allocator 4096) 100 0 [(100, 3996)])"
  using small_ok(4) [of 2] by (simp add: small_arena alloc_new_allocator)

text \<open>
  The consumer looks for a frame before and while the producer writes one: at the end the slot holds
  the first three fields of a descriptor and nothing has been published.
\<close>

definition mixed_turns :: "side list" where
  "mixed_turns = [Consumer, Consumer, Producer, Producer, Producer, Consumer, Producer, Producer,
     Producer, Consumer, Producer, Producer, Consumer]"

definition mixed_conf :: conf where
  "mixed_conf = turns mixed_turns (start_conf small_sys [P_Lease 100 64, P_Publish 0 7 (0, 0)] [C_Receive, C_Receive])"

lemma mixed_facts:
  "cf_calm mixed_conf" "cf_trace mixed_conf = [Call (Lease 100 64)]"
  "cf_producer mixed_conf = Pub_Write 0 7 (0, 0) 0 3" "cf_consumer mixed_conf = Recv_Tail 0"
  "sy_held (cf_sys mixed_conf) = []" "map lease_buffer (sy_pending (cf_sys mixed_conf)) = [(1, 0, 100)]"
  "cf_producer (turn Producer mixed_conf) = Pub_Write 0 7 (0, 0) 0 4" "cf_calm (turn Producer mixed_conf)"
proof -
  have fresh: "fresh_lease (small_writer 2) 100 64"
    using small_ok(3) [of 2] by (simp add: fresh_lease_def small_alloc small_facts roomy_def unat_max take_block_def)
  note eval = mixed_conf_def mixed_turns_def start_conf_def small_sys_def turn_defs small_alloc small_facts
    fresh granted_def ring_put_field_def ring_get_def ring_put_def ready_fields_def
  show "cf_calm mixed_conf" "cf_trace mixed_conf = [Call (Lease 100 64)]"
    "cf_producer mixed_conf = Pub_Write 0 7 (0, 0) 0 3" "cf_consumer mixed_conf = Recv_Tail 0"
    "sy_held (cf_sys mixed_conf) = []" "map lease_buffer (sy_pending (cf_sys mixed_conf)) = [(1, 0, 100)]"
    "cf_producer (turn Producer mixed_conf) = Pub_Write 0 7 (0, 0) 0 4" "cf_calm (turn Producer mixed_conf)"
    by (simp_all add: eval lease_buffer_def lease_of_def take_block_def)
qed

theorem interleaving_refines_calls_witness:
  "cf_producer mixed_conf = Pub_Write 0 7 (0, 0) 0 3 \<and>
   (\<exists>t. atoms_exec [Call (Lease 100 64)] small_sys = Some t \<and> owned t \<and> sy_held t = [])"
proof -
  have "\<exists>t. atoms_exec (cf_trace mixed_conf) small_sys = Some t \<and> owned t \<and>
    sy_pending t = sy_pending (cf_sys mixed_conf) \<and> sy_held t = sy_held (cf_sys mixed_conf) \<and>
    (cf_producer mixed_conf = P_Idle \<and> cf_consumer mixed_conf = C_Idle \<longrightarrow> cf_sys mixed_conf = t) \<and>
    cf_producer mixed_conf \<noteq> P_Dead \<and> cf_consumer mixed_conf \<noteq> C_Dead"
    by (rule interleaving_refines_calls [OF small_sys_owned _ mixed_conf_def mixed_facts(1)])
      (simp add: heads_low_def small_sys_def small_facts mixed_turns_def)
  then show ?thesis by (auto simp: mixed_facts simp del: atoms_exec.simps)
qed

theorem interleaved_exclusive_witness:
  "cf_producer mixed_conf = Pub_Write 0 7 (0, 0) 0 3 \<and>
   leased (w_allocator (sy_writer (cf_sys mixed_conf))) (1, 0, 100)"
proof -
  have h: "in_hands (cf_sys mixed_conf) = [(1, 0, 100)]" by (simp add: in_hands_def mixed_facts)
  from interleaved_exclusive [OF small_sys_owned _ mixed_conf_def mixed_facts(8)]
  have "\<forall>b\<in>set (in_hands (cf_sys mixed_conf)). leased (w_allocator (sy_writer (cf_sys mixed_conf))) b"
    by (simp add: heads_low_def small_sys_def small_facts mixed_turns_def)
  with h show ?thesis by (simp add: mixed_facts)
qed

theorem drop_races_receive_witness:
  "\<exists>c l d. c = turns (replicate 14 Consumer @ replicate 17 Producer @ [Consumer])
       (start_conf \<lparr>sy_writer = full_writer, sy_pending = [], sy_held = []\<rparr> [P_Lease 100 64] [C_Receive]) \<and>
     sy_held (cf_sys c) = [d] \<and> sy_pending (cf_sys c) = [l] \<and>
     range_bytes (buffer_range (lease_buffer l)) \<subseteq> range_bytes (buffer_range (held_buffer d))"
proof -
  let ?s = "\<lparr>sy_writer = full_writer, sy_pending = [], sy_held = []\<rparr>"
  let ?d = "ready_entry 0 \<lparr>ls_buffer_id = 1, ls_offset = 0, ls_len = 4096, ls_ptr = 0\<rparr> 5"
  have own: "owned ?s"
    using full_writer_ok by (simp add: owned_def circulating_def leased_def frame_buffer_def) (simp add: full_writer_def)
  have q: "ready_entries (sy_writer ?s) = ?d # []"
    by (simp add: full_writer_def ready_entries_def ring_list_def small_fields)
  have "free_list_allocator.fl_free (fst (free_by_id (w_allocator full_writer) 1)) = [(0, 4096)]"
    by (simp add: full_writer_def free_by_id_def insert_and_coalesce_def merge_step_def)
  then have "alloc (fst (free_by_id (w_allocator full_writer) 1)) 100 64 \<noteq> None"
    by (simp add: alloc_carve fits_def align_up_def Let_def word_le_nat_alt unat_max max_def)
  then obtain a x where al: "alloc (fst (free_by_id (w_allocator full_writer) 1)) 100 64 = Some (a, x)" by auto
  have free: "fl_free (w_allocator (sy_writer ?s)) = []" by (simp add: full_writer_def)
  have room: "roomy (h_arena_size (sy_writer ?s)) (max 64 1)" by (simp add: full_writer_ok roomy_def unat_max)
  have "alloc (fst (free_by_id (w_allocator (sy_writer ?s)) (rd_buffer_id ?d))) 100 64 = Some (a, x)"
    using al by (simp add: ready_entry_def)
  from drop_races_receive [OF own q free room this refl] show ?thesis by auto
qed

text \<open>Two frames queued that share the arena.\<close>

definition two_frames :: "ready_desc list" where
  "two_frames =
     [ready_entry 0 \<lparr>ls_buffer_id = 1, ls_offset = 0, ls_len = 2048, ls_ptr = 0\<rparr> 5,
      ready_entry 1 \<lparr>ls_buffer_id = 2, ls_offset = 2048, ls_len = 2048, ls_ptr = 0\<rparr> 6]"

definition two_frames_sys :: sys where
  "two_frames_sys =
     \<lparr>sy_writer = (small_writer 2)\<lparr>ready := two_frames, h_ready_head := 2,
        w_allocator := \<lparr>fl_free = [], fl_used = [(1, (0, 2048)), (2, (2048, 2048))], fl_next_id = 3\<rparr>\<rparr>,
      sy_pending = [], sy_held = []\<rparr>"

lemma two_frames_facts:
  "owned two_frames_sys" "ready_entries (sy_writer two_frames_sys) = two_frames"
  "h_arena_size (sy_writer two_frames_sys) = 4096" "fl_next_id (w_allocator (sy_writer two_frames_sys)) = 3"
proof -
  let ?w = "sy_writer two_frames_sys"
  show q: "ready_entries ?w = two_frames"
    by (simp add: two_frames_sys_def two_frames_def ready_entries_def ring_list_def small_fields upt_conv_Cons)
  show "h_arena_size ?w = 4096" "fl_next_id (w_allocator ?w) = 3" by (simp_all add: two_frames_sys_def small_arena)
  have rq: "rec_queue ?w = []" by (simp add: two_frames_sys_def rec_queue_def rec_entries_def small_fields)
  have "map (unat \<circ> rd_seq) two_frames = [Suc 0..<Suc (unat (2 :: u64))]"
    by (simp add: two_frames_def ready_entry_def upt_conv_Cons)
  then have "ready_ok ?w"
    unfolding ready_ok_def q
    by (simp add: two_frames_sys_def two_frames_def ring_ok_def small_fields small_arena desc_in_arena_def ready_entry_def)
  moreover have "rec_ok ?w" by (simp add: two_frames_sys_def rec_ok_def ring_ok_def small_fields)
  moreover have "alloc_wf (h_arena_size ?w) (w_allocator ?w)"
    by (simp add: two_frames_sys_def small_arena alloc_wf_def in_bounds_def used_disjoint_def disjoint_ranges_def)
  ultimately show "owned two_frames_sys"
    by (simp add: owned_def circulating_def writer_ok_def rq ready_queue_def q)
      (simp add: two_frames_sys_def two_frames_def ready_entry_def frame_of_def frame_buffer_def leased_def)
qed

theorem receive_undoes_drop_witness:
  "\<exists>c. c = turns (replicate 14 Consumer @ replicate 32 Producer @ [Consumer])
       (start_conf two_frames_sys [P_Lease 4096 64] [C_Receive]) \<and>
     ready_entries (sy_writer (cf_sys c)) = [two_frames ! 1] \<and> live (w_allocator (sy_writer (cf_sys c))) 2 = None"
proof -
  let ?a = "w_allocator (sy_writer two_frames_sys)"
  have q: "ready_entries (sy_writer two_frames_sys) = two_frames ! 0 # two_frames ! 1 # []"
    by (simp add: two_frames_facts(2)) (simp add: two_frames_def)
  have ids: "rd_buffer_id (two_frames ! 0) = 1" "rd_buffer_id (two_frames ! 1) = 2"
    by (simp_all add: two_frames_def ready_entry_def)
  have n0: "alloc ?a 4096 64 = None" by (simp add: two_frames_sys_def alloc_carve)
  have f1: "free_all [1] ?a = \<lparr>fl_free = [(0, 2048)], fl_used = [(2, (2048, 2048))], fl_next_id = 3\<rparr>"
    by (simp add: two_frames_sys_def free_by_id_def insert_and_coalesce_def merge_step_def)
  have f2: "free_all [1, 2] ?a = \<lparr>fl_free = [(0, 4096)], fl_used = [], fl_next_id = 3\<rparr>"
    by (simp add: two_frames_sys_def free_by_id_def insert_and_coalesce_def merge_step_def)
  have n1: "alloc (free_all [1] ?a) 4096 64 = None"
    unfolding f1 by (simp add: alloc_carve fits_def align_up_def Let_def word_le_nat_alt unat_max max_def)
  have "alloc (free_all [1, 2] ?a) 4096 64 \<noteq> None"
    unfolding f2 by (simp add: alloc_carve fits_def align_up_def Let_def word_le_nat_alt unat_max max_def)
  then obtain a x where n2: "alloc (free_all [1, 2] ?a) 4096 64 = Some (a, x)" by auto
  have room: "roomy (h_arena_size (sy_writer two_frames_sys)) (max 64 1)"
    by (simp add: two_frames_facts(3) roomy_def unat_max)
  from receive_undoes_drop [OF two_frames_facts(1) q n0 _ _ room _ refl, unfolded ids, OF n1 n2]
  show ?thesis by (simp add: two_frames_facts(4))
qed

theorem torn_snapshot_witness:
  "cf_snapshots (turns ([Producer, Producer] @ replicate 5 Consumer @ [Producer] @ replicate 3 Consumer)
       (start_conf small_sys [P_Emit 7 1000] [C_Snapshot])) =
     [(timeline_snapshot (small_writer 2))\<lparr>ts_sink_mono_ns := 1000\<rparr>]"
proof -
  have "h_timeline_sink_mono_ns (small_writer 2) = 0"
  proof -
    have "arena_start 2 2 = 8192" by (simp add: arena_start_def align_up_nat_def)
    then show ?thesis
      by (simp add: small_writer_def writer_create_def small_backend_def small_config_def default_config_def
          map_layout_eq create_defs)
  qed
  then have "1000 \<noteq> h_timeline_sink_mono_ns (sy_writer small_sys)" by (simp add: small_sys_def)
  from torn_snapshot [OF refl this, of 7] show ?thesis by (simp add: small_sys_def)
qed

end
