(* ===== verification/Relay.thy ===== *)
theory Relay
  imports Text Gst
begin

text \<open>
  The relay daemon, \<open>src/src/bin/shm2_relayd.rs\<close>, up to its start: reading its arguments and
  rewriting pipeline descriptions. Its listener and clients are in theory \<open>Clients\<close>.
\<close>

section \<open>Where to listen\<close>

datatype listen_spec = Tcp string u16 | Vsock u32 u32

text \<open>\<open>linux\<close>: whether the target is Linux. \<open>Inl\<close> carries the message of an error.\<close>

definition parse_listen :: "bool \<Rightarrow> string \<Rightarrow> string + listen_spec" where
  "parse_listen linux spec =
     (case strip_prefix ''tcp://'' spec of
        Some rest \<Rightarrow>
          (case rsplit_once CHR '':'' rest of
             None \<Rightarrow> Inl ''tcp listen must be tcp://host:port''
           | Some (host0, port) \<Rightarrow>
               let host = (if host0 = [] then ''0.0.0.0'' else host0)
               in case parse_uint (2 ^ 16) port of
                    None \<Rightarrow> Inl ''invalid tcp port''
                  | Some n \<Rightarrow> Inr (Tcp host (of_nat n)))
      | None \<Rightarrow>
          (case (if linux then strip_prefix ''vsock://'' spec else None) of
             Some rest \<Rightarrow>
               (case split_once CHR '':'' rest of
                  None \<Rightarrow> Inl ''vsock listen must be vsock://cid:port''
                | Some (cid, port) \<Rightarrow>
                    (case parse_uint (2 ^ 32) cid of
                       None \<Rightarrow> Inl ''invalid vsock cid''
                     | Some c \<Rightarrow>
                         (case parse_uint (2 ^ 32) port of
                            None \<Rightarrow> Inl ''invalid vsock port''
                          | Some n \<Rightarrow> Inr (Vsock (of_nat c) (of_nat n)))))
           | None \<Rightarrow> Inl ''listen must be tcp://host:port or vsock://cid:port''))"

text \<open>\<open>format!("{}:{}", host, port)\<close>, the address the listener binds.\<close>

definition tcp_address :: "string \<Rightarrow> u16 \<Rightarrow> string" where
  "tcp_address host port = host @ '':'' @ show_nat (unat port)"

section \<open>Pipeline descriptions\<close>

definition is_caps :: "string \<Rightarrow> bool" where
  "is_caps w \<longleftrightarrow> starts_with ''video/'' w \<or> starts_with ''audio/'' w \<or> starts_with ''text/'' w \<or>
     starts_with ''application/'' w"

text \<open>The loop over the words, from the current one on.\<close>

fun caps_words :: "string list \<Rightarrow> string list" where
  "caps_words [] = []"
| "caps_words (t # ts) =
     (if t = ''!'' \<and> ts \<noteq> [] \<and> is_caps (hd ts)
      then ''!'' # ''capsfilter'' # (''caps='' @ hd ts) # caps_words (tl ts)
      else t # caps_words ts)"

definition normalize_caps_filters :: "string \<Rightarrow> string" where
  "normalize_caps_filters input =
     (let tokens = split_whitespace input
      in if tokens = [] then input else join '' '' (caps_words tokens))"

definition normalize_pipeline :: "string \<Rightarrow> string" where
  "normalize_pipeline input = normalize_caps_filters (replace_str [CHR 0x5C, CHR ''!''] ''!'' input)"

section \<open>Arguments\<close>

record relay_args =
  ra_listen :: string
  ra_shm_path :: "string option"
  ra_shm_size :: "string option"
  ra_input :: "string option"
  ra_splash :: "string option"
  ra_output :: "string option"

definition default_args :: relay_args where
  "default_args = \<lparr>ra_listen = ''tcp://0.0.0.0:5555'', ra_shm_path = None, ra_shm_size = None,
     ra_input = None, ra_splash = None, ra_output = None\<rparr>"

text \<open>The options that take a value: what they set, and the error when the value is missing.\<close>

definition value_option :: "string \<Rightarrow> ((string \<Rightarrow> relay_args \<Rightarrow> relay_args) \<times> string) option" where
  "value_option arg =
     (if arg = ''--listen'' then Some (\<lambda>v. ra_listen_update (\<lambda>_. v), ''--listen requires a value'')
      else if arg = ''--shm-path'' then
        Some (\<lambda>v. ra_shm_path_update (\<lambda>_. Some v), ''--shm-path requires a value'')
      else if arg = ''--shm-size'' then
        Some (\<lambda>v. ra_shm_size_update (\<lambda>_. Some v), ''--shm-size requires a value'')
      else if arg = ''--input'' then
        Some (\<lambda>v. ra_input_update (\<lambda>_. Some v), ''--input requires a pipeline string'')
      else if arg = ''--splash'' then
        Some (\<lambda>v. ra_splash_update (\<lambda>_. Some v), ''--splash requires a pipeline string'')
      else if arg = ''--output'' then
        Some (\<lambda>v. ra_output_update (\<lambda>_. Some v), ''--output requires a pipeline string'')
      else None)"

fun parse_arg_loop :: "string list \<Rightarrow> relay_args \<Rightarrow> string + relay_args" where
  "parse_arg_loop [] st = Inr st"
| "parse_arg_loop [arg] st =
     (case value_option arg of
        Some (set_value, missing) \<Rightarrow> Inl missing
      | None \<Rightarrow> if arg = ''--help'' \<or> arg = ''-h'' then Inl ''help'' else Inl (''unknown arg: '' @ arg))"
| "parse_arg_loop (arg # v # rest) st =
     (case value_option arg of
        Some (set_value, missing) \<Rightarrow> parse_arg_loop rest (set_value v st)
      | None \<Rightarrow> if arg = ''--help'' \<or> arg = ''-h'' then Inl ''help'' else Inl (''unknown arg: '' @ arg))"

text \<open>From the arguments after the program's name: where to listen, input, output and splash.\<close>

definition parse_args :: "bool \<Rightarrow> string list \<Rightarrow> string + listen_spec \<times> string \<times> string \<times> string option" where
  "parse_args linux args =
     (case parse_arg_loop args default_args of
        Inl e \<Rightarrow> Inl e
      | Inr st \<Rightarrow>
          if ra_shm_path st \<noteq> None \<or> ra_shm_size st \<noteq> None
          then Inl ''--shm-path/--shm-size are deprecated; use --output''
          else case ra_input st of
            None \<Rightarrow> Inl ''--input is required''
          | Some input \<Rightarrow>
              (case ra_output st of
                 None \<Rightarrow> Inl ''--output is required''
               | Some output \<Rightarrow>
                   (case parse_listen linux (ra_listen st) of
                      Inl e \<Rightarrow> Inl e
                    | Inr listen \<Rightarrow>
                        Inr (listen, normalize_pipeline input, normalize_pipeline output,
                             map_option normalize_pipeline (ra_splash st)))))"

section \<open>Listening and pipelines\<close>

lemma parse_listen_tcp_iff:
  "parse_listen linux spec = Inr (Tcp host port) \<longleftrightarrow>
     (\<exists>h p n. spec = ''tcp://'' @ h @ '':'' @ p \<and> CHR '':'' \<notin> set p \<and> parse_uint (2 ^ 16) p = Some n \<and>
        host = (if h = [] then ''0.0.0.0'' else h) \<and> port = of_nat n)"
proof (cases "strip_prefix ''tcp://'' spec")
  case None
  then have "\<nexists>r. spec = ''tcp://'' @ r" by (rule iffD1 [OF strip_prefix_None])
  moreover have "parse_listen linux spec \<noteq> Inr (Tcp host port)"
    by (auto simp: parse_listen_def None split: option.split)
  ultimately show ?thesis by blast
next
  case (Some rest)
  note pre = this
  then have s: "spec = ''tcp://'' @ rest" by (simp only: strip_prefix_Some)
  show ?thesis
  proof (cases "rsplit_once CHR '':'' rest")
    case None
    then have "CHR '':'' \<notin> set rest" by (simp only: rsplit_once_None) simp
    then have "rest \<noteq> h @ '':'' @ p" for h p by auto
    then have "\<nexists>h p. spec = ''tcp://'' @ h @ '':'' @ p" unfolding s by (simp only: same_append_eq simp_thms)
    moreover have "parse_listen linux spec = Inl ''tcp listen must be tcp://host:port''"
      by (simp only: parse_listen_def pre None option.case)
    ultimately show ?thesis by (metis Inl_Inr_False)
  next
    case (Some hp)
    obtain h p where hp: "hp = (h, p)" by force
    have r: "rest = h @ '':'' @ p" "CHR '':'' \<notin> set p" using Some unfolding hp rsplit_once_Some by simp_all
    have uniq: "h' = h \<and> p' = p" if "rest = h' @ '':'' @ p'" "CHR '':'' \<notin> set p'" for h' p'
    proof -
      have "rsplit_once CHR '':'' rest = Some (h', p')" using that by (simp add: rsplit_once_Some)
      with Some hp show ?thesis by simp
    qed
    have eq: "parse_listen linux spec = (case parse_uint (2 ^ 16) p of None \<Rightarrow> Inl ''invalid tcp port''
        | Some n \<Rightarrow> Inr (Tcp (if h = [] then ''0.0.0.0'' else h) (of_nat n)))"
      by (simp only: parse_listen_def pre Some hp option.case prod.case Let_def)
    have "parse_listen linux spec = Inr (Tcp host port) \<longleftrightarrow> (\<exists>n. parse_uint (2 ^ 16) p = Some n \<and>
        host = (if h = [] then ''0.0.0.0'' else h) \<and> port = of_nat n)"
      unfolding eq by (auto split: option.split)
    moreover have "(\<exists>h' p' n. spec = ''tcp://'' @ h' @ '':'' @ p' \<and> CHR '':'' \<notin> set p' \<and> parse_uint (2 ^ 16) p' = Some n \<and>
        host = (if h' = [] then ''0.0.0.0'' else h') \<and> port = of_nat n) \<longleftrightarrow>
      (\<exists>n. parse_uint (2 ^ 16) p = Some n \<and> host = (if h = [] then ''0.0.0.0'' else h) \<and> port = of_nat n)"
      unfolding s same_append_eq using uniq r by blast
    ultimately show ?thesis by blast
  qed
qed

text \<open>
  The listen address round trip. What \<open>tcp://\<close> specifications accept is exactly a host, the last
  colon and a port in range, an empty host meaning all addresses; and the address the listener
  binds, printed from the parsed host and port, parses to the same host and port again, whatever
  colons the host contains.
\<close>

lemma listen_roundtrip:
  "(parse_listen linux spec = Inr (Tcp host port) \<longrightarrow>
      parse_listen linux (''tcp://'' @ tcp_address host port) = Inr (Tcp host port)) \<and>
   (parse_listen linux (''tcp://'' @ rest) = Inr (Tcp host port) \<longleftrightarrow>
      (\<exists>h p n. rest = h @ '':'' @ p \<and> CHR '':'' \<notin> set p \<and> parse_uint (2 ^ 16) p = Some n \<and>
         host = (if h = [] then ''0.0.0.0'' else h) \<and> port = of_nat n))"
proof -
  have "parse_listen linux (''tcp://'' @ tcp_address host port) = Inr (Tcp host port)" if "host \<noteq> []"
    unfolding parse_listen_tcp_iff tcp_address_def
    using that show_nat_no_sign(1) parse_uint_show [of "unat port" "2 ^ 16"] unat_u16_less [of port]
    by (intro exI [of _ host] exI [of _ "show_nat (unat port)"] exI [of _ "unat port"]) simp
  moreover have "host \<noteq> []" if "parse_listen linux spec = Inr (Tcp host port)"
    using that unfolding parse_listen_tcp_iff by (auto split: if_splits)
  moreover have "(parse_listen linux (''tcp://'' @ rest) = Inr (Tcp host port)) =
      (\<exists>h p n. rest = h @ '':'' @ p \<and> CHR '':'' \<notin> set p \<and> parse_uint (2 ^ 16) p = Some n \<and>
         host = (if h = [] then ''0.0.0.0'' else h) \<and> port = of_nat n)"
    unfolding parse_listen_tcp_iff by (simp only: same_append_eq)
  ultimately show ?thesis by blast
qed

lemma demo_listen: "parse_listen linux ''tcp://:80'' = Inr (Tcp ''0.0.0.0'' 80)"
proof -
  have "parse_uint (2 ^ 16) ''80'' = Some 80" by (simp add: parse_uint_def digit_value_def)
  then have "\<exists>h p n. ''tcp://:80'' = ''tcp://'' @ h @ '':'' @ p \<and> CHR '':'' \<notin> set p \<and> parse_uint (2 ^ 16) p = Some n \<and>
      ''0.0.0.0'' = (if h = [] then ''0.0.0.0'' else h) \<and> (80 :: u16) = of_nat n"
    by (intro exI [of _ "[]"] exI [of _ "''80''"] exI [of _ 80]) simp
  then show ?thesis by (simp only: parse_listen_tcp_iff)
qed

text \<open>No word that looks like caps follows a \<open>!\<close> in the result.\<close>

fun no_bare_caps :: "string list \<Rightarrow> bool" where
  "no_bare_caps (a # b # ws) \<longleftrightarrow> \<not> (a = ''!'' \<and> is_caps b) \<and> no_bare_caps (b # ws)"
| "no_bare_caps ws \<longleftrightarrow> True"

lemma not_caps_words [simp]: "\<not> is_caps ''capsfilter''" "\<not> is_caps (''caps='' @ w)" "\<not> is_caps ''!''"
  by (simp_all add: is_caps_def starts_with_def)

lemma caps_words_hd: "ts \<noteq> [] \<Longrightarrow> caps_words ts \<noteq> [] \<and> hd (caps_words ts) = hd ts"
  by (cases ts) auto

lemma no_bare_caps_Cons:
  "no_bare_caps (a # ws) \<longleftrightarrow> (ws = [] \<or> \<not> (a = ''!'' \<and> is_caps (hd ws))) \<and> no_bare_caps ws"
  by (cases ws) auto

lemma no_bare_caps_words: "no_bare_caps (caps_words ts)"
proof (induction ts rule: caps_words.induct)
  case (2 t ts)
  show ?case
  proof (cases "t = ''!'' \<and> ts \<noteq> [] \<and> is_caps (hd ts)")
    case True
    then show ?thesis using 2(1) by (simp add: no_bare_caps_Cons)
  next
    case False
    then show ?thesis using 2(2) caps_words_hd [of ts] by (cases ts) (auto simp: no_bare_caps_Cons)
  qed
qed simp

lemma caps_words_id: "no_bare_caps ts \<Longrightarrow> caps_words ts = ts"
  by (induction ts rule: caps_words.induct) (auto simp: no_bare_caps_Cons)

lemma is_word_caps: "is_word w \<Longrightarrow> is_word (''caps='' @ w)" "is_word ''!''" "is_word ''capsfilter''"
  by (simp_all add: is_word_def is_whitespace_def)

lemma caps_words_are_words: "\<forall>w\<in>set ts. is_word w \<Longrightarrow> \<forall>w\<in>set (caps_words ts). is_word w"
proof (induction ts rule: caps_words.induct)
  case (2 t ts)
  show ?case
  proof (cases "t = ''!'' \<and> ts \<noteq> [] \<and> is_caps (hd ts)")
    case True
    then obtain v vs where ts: "ts = v # vs" by (cases ts) auto
    then show ?thesis using True 2 is_word_caps by simp
  next
    case False
    then have "caps_words (t # ts) = t # caps_words ts" by (simp only: caps_words.simps if_False)
    moreover have "\<forall>w\<in>set (caps_words ts). is_word w" using 2(2) [OF False] 2(3) by simp
    ultimately show ?thesis using 2(3) by simp
  qed
qed simp

text \<open>
  The reference, word by word: each word with the word before it. A word that begins with one of the
  four media types and stands right after a \<open>!\<close> becomes a \<open>capsfilter\<close> with that word as its caps;
  every other word stays.
\<close>

definition rewritten_word :: "string \<times> string \<Rightarrow> string list" where
  "rewritten_word pw =
     (case pw of (before, w) \<Rightarrow>
        if before = ''!'' \<and> (\<exists>media\<in>{''video/'', ''audio/'', ''text/'', ''application/''}. \<exists>rest. w = media @ rest)
        then [''capsfilter'', ''caps='' @ w] else [w])"

definition rewritten_words :: "string list \<Rightarrow> string list" where
  "rewritten_words ws = concat (map rewritten_word (zip ([] # ws) ws))"

lemma is_caps_iff:
  "is_caps w \<longleftrightarrow> (\<exists>media\<in>{''video/'', ''audio/'', ''text/'', ''application/''}. \<exists>rest. w = media @ rest)"
  unfolding is_caps_def starts_with_iff by blast

lemma rewritten_word_eq:
  "rewritten_word (before, w) = (if before = ''!'' \<and> is_caps w then [''capsfilter'', ''caps='' @ w] else [w])"
  by (simp only: rewritten_word_def prod.case is_caps_iff)

lemma rewritten_from:
  "concat (map rewritten_word (zip (before # ts) ts)) =
     (if before = ''!'' \<and> ts \<noteq> [] \<and> is_caps (hd ts)
      then ''capsfilter'' # (''caps='' @ hd ts) # caps_words (tl ts) else caps_words ts)"
proof (induction ts arbitrary: before)
  case (Cons t ts)
  have "\<not> (t = ''!'' \<and> is_caps t)" using not_caps_words(3) by blast
  then show ?case using Cons [of t] by (auto simp: rewritten_word_eq simp del: append_Cons)
qed simp

lemma caps_words_rewritten: "caps_words ts = rewritten_words ts"
  by (simp add: rewritten_words_def rewritten_from)

text \<open>
  C39: rewriting caps. The words of a rewritten description are those of the input, each handled by
  itself: a media type right after a \<open>!\<close> becomes \<open>capsfilter\<close> and \<open>caps=\<close> followed by that word, and
  every other word is kept, in order. They are joined by single spaces, whatever white space
  was between them (a description of white space only is returned as it is). No media type follows
  a \<open>!\<close> any more, so rewriting twice is rewriting once.
\<close>

theorem normalize_caps_filters_correct:
  "normalize_caps_filters s =
     (if split_whitespace s = [] then s else join '' '' (rewritten_words (split_whitespace s))) \<and>
   split_whitespace (normalize_caps_filters s) = rewritten_words (split_whitespace s) \<and>
   no_bare_caps (split_whitespace (normalize_caps_filters s)) \<and>
   normalize_caps_filters (normalize_caps_filters s) = normalize_caps_filters s"
proof -
  let ?ts = "split_whitespace s"
  have words: "\<forall>w\<in>set (caps_words ?ts). is_word w"
    by (rule caps_words_are_words) (use split_whitespace_words in blast)
  have one: "split_whitespace (normalize_caps_filters s) = caps_words ?ts"
    using split_join [OF words] by (simp add: normalize_caps_filters_def Let_def)
  have "normalize_caps_filters (normalize_caps_filters s) = normalize_caps_filters s"
  proof (cases "?ts = []")
    case True
    then show ?thesis by (simp add: normalize_caps_filters_def)
  next
    case False
    then have "caps_words ?ts \<noteq> []" using caps_words_hd by blast
    moreover have "normalize_caps_filters s = join '' '' (caps_words ?ts)"
      using False by (simp add: normalize_caps_filters_def)
    moreover have "normalize_caps_filters (normalize_caps_filters s) =
        (let tokens = split_whitespace (normalize_caps_filters s)
         in if tokens = [] then normalize_caps_filters s else join '' '' (caps_words tokens))"
      by (rule normalize_caps_filters_def)
    then have "normalize_caps_filters (normalize_caps_filters s) =
        (if caps_words ?ts = [] then normalize_caps_filters s else join '' '' (caps_words ?ts))"
      by (simp only: Let_def one caps_words_id [OF no_bare_caps_words])
    ultimately show ?thesis by presburger
  qed
  moreover have "normalize_caps_filters s = (if ?ts = [] then s else join '' '' (rewritten_words ?ts))"
    by (simp add: normalize_caps_filters_def Let_def caps_words_rewritten)
  ultimately show ?thesis using no_bare_caps_words [of ?ts] caps_words_rewritten [of ?ts] unfolding one
    by (intro conjI) assumption+
qed

lemma demo_caps:
  "normalize_caps_filters ''v  ! video/x-raw !s'' = ''v ! capsfilter caps=video/x-raw !s''"
  by code_simp

section \<open>Reading the arguments\<close>

definition apply_option :: "string \<times> string \<Rightarrow> relay_args \<Rightarrow> relay_args" where
  "apply_option fv st = (case value_option (fst fv) of Some (set_value, _) \<Rightarrow> set_value (snd fv) st | None \<Rightarrow> st)"

definition flat_options :: "(string \<times> string) list \<Rightarrow> string list" where
  "flat_options ps = concat (map (\<lambda>(f, v). [f, v]) ps)"

text \<open>The value an option was given last.\<close>

definition last_value :: "(string \<times> string) list \<Rightarrow> string \<Rightarrow> string option" where
  "last_value ps flag = map_of (rev ps) flag"

lemma parse_arg_loop_options:
  assumes "\<forall>fv\<in>set ps. value_option (fst fv) \<noteq> None"
  shows "parse_arg_loop (flat_options ps @ rest) st = parse_arg_loop rest (fold apply_option ps st)"
  using assms
proof (induction ps arbitrary: st)
  case (Cons fv ps)
  obtain f v where fv: "fv = (f, v)" by force
  from Cons.prems obtain g m where "value_option f = Some (g, m)" by (auto simp: fv)
  then have "parse_arg_loop (f # v # (flat_options ps @ rest)) st = parse_arg_loop (flat_options ps @ rest) (apply_option fv st)"
    by (cases "flat_options ps @ rest") (simp_all add: apply_option_def fv)
  then show ?case using Cons by (simp add: flat_options_def fv)
qed (simp add: flat_options_def)

lemma last_value_Cons:
  "last_value ((f, v) # ps) k = (case last_value ps k of Some x \<Rightarrow> Some x | None \<Rightarrow> if k = f then Some v else None)"
  by (auto simp: last_value_def map_add_def split: option.split)

text \<open>A field that exactly one option sets ends with the value that option was given last.\<close>

lemma fold_field:
  assumes "\<And>f v st. get (apply_option (f, v) st) = (if f = k then wrap v else get st)"
  shows "get (fold apply_option ps st) = (case last_value ps k of Some v \<Rightarrow> wrap v | None \<Rightarrow> get st)"
proof (induction ps arbitrary: st)
  case (Cons fv ps)
  obtain f v where fv: "fv = (f, v)" by force
  show ?case using Cons assms by (auto simp: fv last_value_Cons split: option.split)
qed (simp add: last_value_def)

lemma apply_option_fields:
  "ra_listen (apply_option (f, v) st) = (if f = ''--listen'' then v else ra_listen st)"
  "ra_shm_path (apply_option (f, v) st) = (if f = ''--shm-path'' then Some v else ra_shm_path st)"
  "ra_shm_size (apply_option (f, v) st) = (if f = ''--shm-size'' then Some v else ra_shm_size st)"
  "ra_input (apply_option (f, v) st) = (if f = ''--input'' then Some v else ra_input st)"
  "ra_splash (apply_option (f, v) st) = (if f = ''--splash'' then Some v else ra_splash st)"
  "ra_output (apply_option (f, v) st) = (if f = ''--output'' then Some v else ra_output st)"
  by (simp_all add: apply_option_def value_option_def)

lemma fold_options:
  "ra_listen (fold apply_option ps st) = (case last_value ps ''--listen'' of Some v \<Rightarrow> v | None \<Rightarrow> ra_listen st)"
  "ra_shm_path (fold apply_option ps st) = (case last_value ps ''--shm-path'' of Some v \<Rightarrow> Some v | None \<Rightarrow> ra_shm_path st)"
  "ra_shm_size (fold apply_option ps st) = (case last_value ps ''--shm-size'' of Some v \<Rightarrow> Some v | None \<Rightarrow> ra_shm_size st)"
  "ra_input (fold apply_option ps st) = (case last_value ps ''--input'' of Some v \<Rightarrow> Some v | None \<Rightarrow> ra_input st)"
  "ra_splash (fold apply_option ps st) = (case last_value ps ''--splash'' of Some v \<Rightarrow> Some v | None \<Rightarrow> ra_splash st)"
  "ra_output (fold apply_option ps st) = (case last_value ps ''--output'' of Some v \<Rightarrow> Some v | None \<Rightarrow> ra_output st)"
  by (rule fold_field, rule apply_option_fields)+

text \<open>
  The relay's arguments. On a list of options, each with its value, the last value of each
  option counts, in whatever order they come: a deprecated option is refused, input and output are
  required, the listen address has its default, and the pipelines are rewritten. An option
  without its value, a request for help and an unknown argument end the reading, whatever came
  before them.
\<close>

lemma parse_args_last_wins:
  assumes "\<forall>fv\<in>set ps. value_option (fst fv) \<noteq> None"
  shows "parse_args linux (flat_options ps) =
      (if last_value ps ''--shm-path'' \<noteq> None \<or> last_value ps ''--shm-size'' \<noteq> None
       then Inl ''--shm-path/--shm-size are deprecated; use --output''
       else case (last_value ps ''--input'', last_value ps ''--output'') of
         (None, _) \<Rightarrow> Inl ''--input is required''
       | (Some i, None) \<Rightarrow> Inl ''--output is required''
       | (Some i, Some out) \<Rightarrow>
           (case parse_listen linux (case last_value ps ''--listen'' of Some l \<Rightarrow> l | None \<Rightarrow> ''tcp://0.0.0.0:5555'') of
              Inl e \<Rightarrow> Inl e
            | Inr l \<Rightarrow> Inr (l, normalize_pipeline i, normalize_pipeline out,
                           map_option normalize_pipeline (last_value ps ''--splash'')))) \<and>
    parse_args linux (flat_options ps @ ''--help'' # rest) = Inl ''help'' \<and>
    parse_args linux (flat_options ps @ [''--input'']) = Inl ''--input requires a pipeline string'' \<and>
    (value_option x = None \<and> x \<noteq> ''--help'' \<and> x \<noteq> ''-h'' \<longrightarrow>
       parse_args linux (flat_options ps @ x # rest) = Inl (''unknown arg: '' @ x))"
proof -
  let ?st = "fold apply_option ps default_args"
  have no_value: "value_option ''--help'' = None" by (simp add: value_option_def)
  have input: "\<exists>g. value_option ''--input'' = Some (g, ''--input requires a pipeline string'')"
    by (simp add: value_option_def)
  note run = parse_arg_loop_options [OF assms]
  have "parse_arg_loop (''--help'' # rest) ?st = Inl ''help''" using no_value by (cases rest) simp_all
  then have h: "parse_args linux (flat_options ps @ ''--help'' # rest) = Inl ''help''" by (simp add: parse_args_def run)
  have i: "parse_args linux (flat_options ps @ [''--input'']) = Inl ''--input requires a pipeline string''"
    using input by (auto simp: parse_args_def run)
  have x: "parse_args linux (flat_options ps @ x # rest) = Inl (''unknown arg: '' @ x)"
    if "value_option x = None" "x \<noteq> ''--help''" "x \<noteq> ''-h''"
    using that by (cases rest) (simp_all add: parse_args_def run)
  have loop: "parse_arg_loop (flat_options ps) default_args = Inr ?st" using run [of "[]"] by simp
  have f: "ra_listen ?st = (case last_value ps ''--listen'' of Some v \<Rightarrow> v | None \<Rightarrow> ''tcp://0.0.0.0:5555'')"
    "ra_shm_path ?st = last_value ps ''--shm-path''" "ra_shm_size ?st = last_value ps ''--shm-size''"
    "ra_input ?st = last_value ps ''--input''" "ra_splash ?st = last_value ps ''--splash''"
    "ra_output ?st = last_value ps ''--output''"
    by (simp_all add: fold_options default_args_def split: option.split)
  show ?thesis
    using h i x unfolding parse_args_def [of linux "flat_options ps"] loop sum.case f
    by (auto split: option.split)
qed

end
