(* ===== verification/Utf8.thy ===== *)
theory Utf8
  imports Prelude
begin

text \<open>
  The lossy conversion of bytes to text, \<open>String::from_utf8_lossy\<close> of the Rust library, as far as
  \<open>src/src/bin/shm2_relayd.rs\<close> uses it. Text is the list of its bytes in UTF-8.
\<close>

section \<open>The conversion\<close>

text \<open>The replacement character, U+FFFD.\<close>

definition REPLACEMENT :: "u8 list" where
  "REPLACEMENT = [0xEF, 0xBF, 0xBD]"

text \<open>The ranges of the bytes that must follow a first byte, if it can begin a character.\<close>

definition followers :: "u8 \<Rightarrow> (u8 \<times> u8) list option" where
  "followers b =
     (if b < 0x80 then Some []
      else if b < 0xC2 then None
      else if b < 0xE0 then Some [(0x80, 0xBF)]
      else if b = 0xE0 then Some [(0xA0, 0xBF), (0x80, 0xBF)]
      else if b = 0xED then Some [(0x80, 0x9F), (0x80, 0xBF)]
      else if b < 0xF0 then Some [(0x80, 0xBF), (0x80, 0xBF)]
      else if b = 0xF0 then Some [(0x90, 0xBF), (0x80, 0xBF), (0x80, 0xBF)]
      else if b < 0xF4 then Some [(0x80, 0xBF), (0x80, 0xBF), (0x80, 0xBF)]
      else if b = 0xF4 then Some [(0x80, 0x8F), (0x80, 0xBF), (0x80, 0xBF)]
      else None)"

fun matched :: "(u8 \<times> u8) list \<Rightarrow> u8 list \<Rightarrow> nat" where
  "matched ((lo, hi) # rs) (b # bs) = (if lo \<le> b \<and> b \<le> hi then Suc (matched rs bs) else 0)"
| "matched rs bs = 0"

text \<open>
  A byte that cannot begin a character, or a character that is broken off, with the following bytes
  that would have fitted, is replaced; then the conversion goes on.
\<close>

function from_utf8_lossy :: "u8 list \<Rightarrow> u8 list" where
  "from_utf8_lossy [] = []"
| "from_utf8_lossy (b # bs) =
     (case followers b of
        None \<Rightarrow> REPLACEMENT @ from_utf8_lossy bs
      | Some rs \<Rightarrow>
          let n = matched rs bs
          in (if n = length rs then b # take n bs else REPLACEMENT) @ from_utf8_lossy (drop n bs))"
  by pat_completeness auto
termination by (relation "measure length") auto

declare from_utf8_lossy.simps(2) [simp del]

section \<open>Facts\<close>

lemma followers_ascii: "b < 0x80 \<Longrightarrow> followers b = Some []"
  by (simp add: followers_def)

lemma followers_high: "followers b = Some rs \<Longrightarrow> \<forall>r\<in>set rs. 0x80 \<le> fst r"
  by (auto simp: followers_def split: if_splits)

lemma lossy_ascii: "b < 0x80 \<Longrightarrow> from_utf8_lossy (b # bs) = b # from_utf8_lossy bs"
  by (simp add: from_utf8_lossy.simps(2) followers_ascii)

lemma matched_le: "matched rs bs \<le> length bs"
  by (induction rs bs rule: matched.induct) auto

lemma matched_stop: "\<forall>r\<in>set rs. 0x80 \<le> fst r \<Longrightarrow> b < 0x80 \<Longrightarrow> matched rs (as @ b # bs) = matched rs as"
proof (induction rs arbitrary: as)
  case (Cons r rs)
  then have "\<not> fst r \<le> b" by (auto simp: not_le intro: order.strict_trans2)
  then show ?case using Cons by (cases r; cases as) auto
qed simp

text \<open>An ASCII byte ends whatever was begun before it.\<close>

lemma lossy_append_ascii:
  "b < 0x80 \<Longrightarrow> from_utf8_lossy (as @ b # bs) = from_utf8_lossy as @ b # from_utf8_lossy bs"
proof (induction as rule: from_utf8_lossy.induct)
  case 1
  then show ?case by (simp add: lossy_ascii)
next
  case (2 a as)
  show ?case
  proof (cases "followers a")
    case None
    then show ?thesis using 2 by (simp add: from_utf8_lossy.simps(2))
  next
    case (Some rs)
    have m: "matched rs (as @ b # bs) = matched rs as" using matched_stop followers_high [OF Some] 2(3) by blast
    have l: "matched rs as \<le> length as" by (rule matched_le)
    have "from_utf8_lossy (drop (matched rs as) as @ b # bs) =
        from_utf8_lossy (drop (matched rs as) as) @ b # from_utf8_lossy bs"
      using 2(2) [OF Some refl 2(3)] .
    then show ?thesis using l by (simp add: from_utf8_lossy.simps(2) Some m Let_def)
  qed
qed

lemma lossy_all_ascii: "\<forall>b\<in>set bs. b < 0x80 \<Longrightarrow> from_utf8_lossy bs = bs"
  by (induction bs) (simp_all add: lossy_ascii)

text \<open>The conversion adds no ASCII bytes.\<close>

lemma matched_take:
  "\<forall>r\<in>set rs. 0x80 \<le> fst r \<Longrightarrow> \<forall>x\<in>set (take (matched rs bs) bs). 0x80 \<le> x"
  by (induction rs bs rule: matched.induct) (auto dest: order.trans)

lemma lossy_ascii_bytes: "x < 0x80 \<Longrightarrow> x \<in> set (from_utf8_lossy bs) \<Longrightarrow> x \<in> set bs"
proof (induction bs rule: from_utf8_lossy.induct)
  case (2 b bs)
  have r: "x \<notin> set REPLACEMENT" using 2(3) by (auto simp: REPLACEMENT_def word_less_nat_alt)
  show ?case
  proof (cases "followers b")
    case None
    then show ?thesis using 2 r by (auto simp: from_utf8_lossy.simps(2))
  next
    case (Some rs)
    then show ?thesis using 2(2) [OF Some refl 2(3)] 2(4) r
      by (auto simp: from_utf8_lossy.simps(2) Let_def split: if_splits dest: in_set_takeD in_set_dropD)
  qed
qed simp

section \<open>Text that is well formed\<close>

text \<open>The encoding of a character, given by its code point.\<close>

definition scalar_value :: "nat \<Rightarrow> bool" where
  "scalar_value c \<longleftrightarrow> c < 0xD800 \<or> 0xE000 \<le> c \<and> c < 0x110000"

definition utf8_encode :: "nat \<Rightarrow> u8 list" where
  "utf8_encode c =
     (if c < 0x80 then [of_nat c]
      else if c < 0x800 then [of_nat (0xC0 + c div 64), of_nat (0x80 + c mod 64)]
      else if c < 0x10000 then
        [of_nat (0xE0 + c div 4096), of_nat (0x80 + c div 64 mod 64), of_nat (0x80 + c mod 64)]
      else
        [of_nat (0xF0 + c div 262144), of_nat (0x80 + c div 4096 mod 64), of_nat (0x80 + c div 64 mod 64),
         of_nat (0x80 + c mod 64)])"

definition utf8_text :: "u8 list \<Rightarrow> bool" where
  "utf8_text bs \<longleftrightarrow> (\<exists>cs. (\<forall>c\<in>set cs. scalar_value c) \<and> bs = concat (map utf8_encode cs))"

definition fits :: "(u8 \<times> u8) list \<Rightarrow> u8 list \<Rightarrow> bool" where
  "fits rs bs \<longleftrightarrow> list_all2 (\<lambda>(lo, hi) b. lo \<le> b \<and> b \<le> hi) rs bs"

lemma fits_matched: "fits rs bs \<Longrightarrow> matched rs (bs @ s) = length rs \<and> length bs = length rs"
  unfolding fits_def
  by (induction rule: list_all2_induct) (auto split: prod.splits)

lemma byte_le: "n < 256 \<Longrightarrow> m < 256 \<Longrightarrow> (of_nat m :: u8) \<le> of_nat n \<longleftrightarrow> m \<le> n"
  by (simp add: word_le_nat_alt unat_of_nat)

lemma byte_less: "n < 256 \<Longrightarrow> m < 256 \<Longrightarrow> (of_nat m :: u8) < of_nat n \<longleftrightarrow> m < n"
  by (simp add: word_less_nat_alt unat_of_nat)

lemma byte_eq: "n < 256 \<Longrightarrow> m < 256 \<Longrightarrow> (of_nat m :: u8) = of_nat n \<longleftrightarrow> m = n"
  by (simp add: word_unat_eq_iff unat_of_nat)

text \<open>The comparisons of \<open>followers\<close>, on numbers.\<close>

lemma followers_nat:
  assumes "m < 256"
  shows "followers (of_nat m) =
     (if m < 0x80 then Some []
      else if m < 0xC2 then None
      else if m < 0xE0 then Some [(0x80, 0xBF)]
      else if m = 0xE0 then Some [(0xA0, 0xBF), (0x80, 0xBF)]
      else if m = 0xED then Some [(0x80, 0x9F), (0x80, 0xBF)]
      else if m < 0xF0 then Some [(0x80, 0xBF), (0x80, 0xBF)]
      else if m = 0xF0 then Some [(0x90, 0xBF), (0x80, 0xBF), (0x80, 0xBF)]
      else if m < 0xF4 then Some [(0x80, 0xBF), (0x80, 0xBF), (0x80, 0xBF)]
      else if m = 0xF4 then Some [(0x80, 0x8F), (0x80, 0xBF), (0x80, 0xBF)]
      else None)"
  using assms byte_less [of 128 m] byte_less [of 194 m] byte_less [of 224 m] byte_less [of 240 m] byte_less [of 244 m]
    byte_eq [of 224 m] byte_eq [of 237 m] byte_eq [of 240 m] byte_eq [of 244 m]
  by (simp add: followers_def)

lemmas followers_numeral = followers_nat [of "numeral k", unfolded of_nat_numeral] for k

lemma fits_nat:
  "fits ((lo, hi) # rs) (of_nat m # bs) \<longleftrightarrow> unat lo \<le> m \<and> m \<le> unat hi \<and> fits rs bs" if "m < 256" for m
  using that by (simp add: fits_def word_le_nat_alt unat_of_nat)

lemma fits_Nil [simp]: "fits [] []"
  by (simp add: fits_def)

lemma mod_64 [simp]: "n mod 64 \<le> (63 :: nat)"
  using mod_less_divisor [of 64 n] by linarith

lemma encode_begins:
  assumes "scalar_value c"
  shows "\<exists>b fs rs. utf8_encode c = b # fs \<and> followers b = Some rs \<and> fits rs fs"
proof -
  consider "c < 0x80" | "0x80 \<le> c" "c < 0x800" | "0x800 \<le> c" "c < 0x10000" | "0x10000 \<le> c" by linarith
  then show ?thesis
  proof cases
    case 1
    then show ?thesis by (simp add: utf8_encode_def followers_nat)
  next
    case 2
    then have "2 \<le> c div 64" "c div 64 < 32" "c mod 64 < 64" by auto
    then show ?thesis using 2 by (simp add: utf8_encode_def followers_nat fits_nat del: of_nat_add)
  next
    case 3
    define a where "a = c div 64"
    have d: "c div 4096 = a div 64" by (simp add: a_def div_mult2_eq [symmetric])
    have a: "32 \<le> a" "a < 1024" "a < 864 \<or> 896 \<le> a" using 3 assms by (auto simp: a_def scalar_value_def)
    then have "a div 64 < 16" "c mod 64 < 64" "a mod 64 < 64" by auto
    moreover have "32 \<le> a mod 64" if "a div 64 = 0" using that a(1) div_mult_mod_eq [of a 64] by linarith
    moreover have "a \<le> 63" if "a div 64 = 0" using that by (simp add: div_eq_0_iff)
    moreover have "a mod 64 \<le> 31" if "a div 64 = 13" using that a(3) div_mult_mod_eq [of a 64] calculation(3) by linarith
    ultimately show ?thesis using 3
      by (auto simp add: utf8_encode_def d a_def [symmetric] followers_nat fits_nat simp del: of_nat_add)
  next
    case 4
    define a where "a = c div 4096"
    have d: "c div 262144 = a div 64" by (simp add: a_def div_mult2_eq [symmetric])
    have "c < 0x110000" using assms by (auto simp: scalar_value_def)
    then have a: "16 \<le> a" "a < 272" using 4 by (auto simp: a_def)
    then have b: "a div 64 < 5" "c mod 64 < 64" "c div 64 mod 64 < 64" "a mod 64 < 64" by auto
    have "16 \<le> a mod 64" if "a div 64 = 0" using that a(1) div_mult_mod_eq [of a 64] by linarith
    moreover have "a mod 64 < 16" if "a div 64 = 4" using that a(2) div_mult_mod_eq [of a 64] by linarith
    moreover have "a div 64 = 0 \<or> a div 64 \<in> {1, 2, 3} \<or> a div 64 = 4" using b(1) by auto
    ultimately show ?thesis using 4 b
      by (elim disjE) (auto simp: utf8_encode_def d a_def [symmetric] followers_nat followers_numeral fits_nat simp del: of_nat_add)
  qed
qed

text \<open>Well-formed text is converted to itself.\<close>

lemma lossy_utf8:
  assumes "utf8_text bs"
  shows "from_utf8_lossy bs = bs"
proof -
  have "from_utf8_lossy (concat (map utf8_encode cs)) = concat (map utf8_encode cs)" if "\<forall>c\<in>set cs. scalar_value c" for cs
    using that
  proof (induction cs)
    case (Cons c cs)
    then obtain b fs rs where e: "utf8_encode c = b # fs" "followers b = Some rs" "fits rs fs"
      using encode_begins [of c] by (metis list.set_intros(1))
    then show ?case using Cons fits_matched [OF e(3), of "concat (map utf8_encode cs)"]
      by (simp add: from_utf8_lossy.simps(2) Let_def)
  qed simp
  then show ?thesis using assms by (auto simp: utf8_text_def)
qed

end
