(* ===== verification/Clients.thy ===== *)
theory Clients
  imports Relay Utf8
begin

text \<open>
  The relay daemon at run time, \<open>src/src/bin/shm2_relayd.rs\<close>: the lines a client sends, the callback
  that forwards samples, and the client counter that switches the input and the splash pipeline.
  Pipelines, sockets and the main loop are parameters.
\<close>

section \<open>A client's lines\<close>

text \<open>What one \<open>read\<close> returns; no bytes at the end of the stream.\<close>

datatype read_result = Read "u8 list" | Read_Error

definition NL :: u8 where "NL = 10"
definition CR :: u8 where "CR = 13"

text \<open>Taking whole lines, with their line feed, off the front of what is pending.\<close>

function drain_lines :: "u8 list \<Rightarrow> u8 list list \<times> u8 list" where
  "drain_lines pending =
     (if NL \<in> set pending then
        (let line = takeWhile (\<lambda>b. b \<noteq> NL) pending @ [NL]
         in case drain_lines (drop (length line) pending) of (ls, rest) \<Rightarrow> (line # ls, rest))
      else ([], pending))"
  by pat_completeness auto
termination
  by (relation "measure length") (auto dest: length_pos_if_in_set intro!: diff_less)

declare drain_lines.simps [simp del]

text \<open>
  \<open>trim_end_matches\<close>, and what is printed of a line after its lossy conversion to text: nothing if
  nothing is left. In UTF-8 a carriage return and a line feed are one byte, and no other character
  has these bytes, so trimming the bytes of the text trims its characters.
\<close>

definition trim_line :: "u8 list \<Rightarrow> u8 list" where
  "trim_line line = rev (dropWhile (\<lambda>b. b = CR \<or> b = NL) (rev line))"

definition printed :: "u8 list \<Rightarrow> u8 list list" where
  "printed line = (let msg = trim_line (from_utf8_lossy line) in if msg \<noteq> [] then [msg] else [])"

definition hold_round :: "u8 list \<Rightarrow> u8 list \<Rightarrow> u8 list list \<times> u8 list" where
  "hold_round pending data =
     (case drain_lines (pending @ data) of
        (ls, rest) \<Rightarrow>
          if length rest \<ge> 1024 then (concat (map printed ls) @ printed rest, [])
          else (concat (map printed ls), rest))"

text \<open>The messages printed, and whether the function returns \<open>Ok\<close>.\<close>

fun hold_loop :: "read_result list \<Rightarrow> u8 list \<Rightarrow> u8 list list \<times> bool" where
  "hold_loop [] pending = ((if pending \<noteq> [] then printed pending else []), True)"
| "hold_loop (Read_Error # rs) pending = ([], False)"
| "hold_loop (Read data # rs) pending =
     (if data = [] then ((if pending \<noteq> [] then printed pending else []), True)
      else case hold_round pending data of
        (out, pending') \<Rightarrow> (case hold_loop rs pending' of (out', ok) \<Rightarrow> (out @ out', ok)))"

definition hold_connection :: "read_result list \<Rightarrow> u8 list list \<times> bool" where
  "hold_connection rs = hold_loop rs []"

text \<open>The same for a vsock descriptor, which it closes: the third component counts the calls.\<close>

fun hold_vsock_loop :: "read_result list \<Rightarrow> u8 list \<Rightarrow> u8 list list \<times> bool \<times> nat" where
  "hold_vsock_loop [] pending = ((if pending \<noteq> [] then printed pending else []), True, 1)"
| "hold_vsock_loop (Read_Error # rs) pending = ([], False, 1)"
| "hold_vsock_loop (Read data # rs) pending =
     (if data = [] then ((if pending \<noteq> [] then printed pending else []), True, 1)
      else case hold_round pending data of
        (out, pending') \<Rightarrow> (case hold_vsock_loop rs pending' of (out', ok, closes) \<Rightarrow> (out @ out', ok, closes)))"

definition hold_vsock_connection :: "read_result list \<Rightarrow> u8 list list \<times> bool \<times> nat" where
  "hold_vsock_connection rs = hold_vsock_loop rs []"

section \<open>Forwarding samples\<close>

text \<open>
  The \<open>new_sample\<close> callback: from whether the \<open>appsrc\<close> still exists, the sample pulled (its caps and
  its buffer) and whether copying and pushing succeed, to the new flag, what is done to the
  \<open>appsrc\<close>, and the flow result.
\<close>

datatype ('c, 'b) appsrc_call = Set_Caps 'c | Push_Buffer 'b

definition new_sample ::
    "bool \<Rightarrow> ('c option \<times> 'b option) option \<Rightarrow> bool \<Rightarrow> bool \<Rightarrow> bool \<Rightarrow>
     bool \<times> ('c, 'b) appsrc_call list \<times> unit flow" where
  "new_sample appsrc_alive pulled copy_ok push_ok caps_set =
     (if \<not> appsrc_alive then (caps_set, [], No_Flow Flushing)
      else case pulled of
        None \<Rightarrow> (caps_set, [], No_Flow Eos)
      | Some (caps, buffer) \<Rightarrow>
          let (caps_set1, calls) =
                (if \<not> caps_set then (case caps of Some c \<Rightarrow> (True, [Set_Caps c]) | None \<Rightarrow> (False, []))
                 else (True, []))
          in case buffer of
               None \<Rightarrow> (caps_set1, calls, No_Flow Flow_Error)
             | Some b \<Rightarrow>
                 if \<not> copy_ok then (caps_set1, calls, No_Flow Flow_Error)
                 else (caps_set1, calls @ [Push_Buffer b], if push_ok then Flow () else No_Flow Flow_Error))"

text \<open>The calls over a stream of samples, while the \<open>appsrc\<close> lives and takes what is pushed.\<close>

fun forward :: "('c option \<times> 'b option) list \<Rightarrow> bool \<Rightarrow> ('c, 'b) appsrc_call list" where
  "forward [] caps_set = []"
| "forward (s # ss) caps_set =
     (case new_sample True (Some s) True True caps_set of (caps_set1, calls, r) \<Rightarrow> calls @ forward ss caps_set1)"

definition set_calls :: "('c, 'b) appsrc_call list \<Rightarrow> 'c list" where
  "set_calls calls = concat (map (\<lambda>c. case c of Set_Caps x \<Rightarrow> [x] | Push_Buffer b \<Rightarrow> []) calls)"

definition push_calls :: "('c, 'b) appsrc_call list \<Rightarrow> 'b list" where
  "push_calls calls = concat (map (\<lambda>c. case c of Set_Caps x \<Rightarrow> [] | Push_Buffer b \<Rightarrow> [b]) calls)"

text \<open>Every buffer is pushed, in order, and only the first caps that come are set, once.\<close>

lemma forward_calls:
  "push_calls (forward ss caps_set) = concat (map (\<lambda>(c, b). case b of None \<Rightarrow> [] | Some x \<Rightarrow> [x]) ss) \<and>
   set_calls (forward ss caps_set) =
     (if caps_set then [] else take 1 (concat (map (\<lambda>(c, b). case c of None \<Rightarrow> [] | Some x \<Rightarrow> [x]) ss)))"
proof (induction ss arbitrary: caps_set)
  case (Cons s ss)
  obtain c b where s: "s = (c, b)" by force
  show ?case using Cons
    by (cases c; cases b; cases caps_set) (simp_all add: s new_sample_def push_calls_def set_calls_def)
qed (simp add: push_calls_def set_calls_def)

section \<open>The client counter\<close>

datatype gst_state = State_Null | State_Playing

text \<open>
  \<open>rl_calls\<close>: for each thread that has changed the counter and not yet called \<open>invoke\<close>, whether it
  is the listener, and the count it will report. \<open>rl_queue\<close>: the closures the main loop has
  not run yet, oldest first. \<open>rl_running\<close>: the count of the closure that is between its two
  calls. \<open>rl_input\<close> and \<open>rl_splash\<close>: the state each pipeline was last set to with success.
\<close>

record relay =
  rl_count :: usize
  rl_open :: nat
  rl_calls :: "(bool \<times> usize) list"
  rl_queue :: "usize list"
  rl_running :: "usize option"
  rl_input :: gst_state
  rl_splash :: "gst_state option"

text \<open>After \<open>main\<close> has set up: no client, the splash pipeline playing if there is one.\<close>

definition relay_start :: "bool \<Rightarrow> relay" where
  "relay_start has_splash =
     \<lparr>rl_count = 0, rl_open = 0, rl_calls = [], rl_queue = [], rl_running = None, rl_input = State_Null,
      rl_splash = (if has_splash then Some State_Playing else None)\<rparr>"

text \<open>
  The closure of \<open>notify_client_count\<close>: the states it asks for, and its two calls, the input's first.
  \<open>ok\<close> is the answer of \<open>set_state\<close>, which the closure does not look at.
\<close>

definition input_state :: "usize \<Rightarrow> gst_state" where
  "input_state count = (if count > 0 then State_Playing else State_Null)"

definition splash_state :: "usize \<Rightarrow> gst_state" where
  "splash_state count = (if count > 0 then State_Null else State_Playing)"

definition set_input :: "usize \<Rightarrow> bool \<Rightarrow> relay \<Rightarrow> relay" where
  "set_input count ok r = r\<lparr>rl_running := Some count, rl_input := (if ok then input_state count else rl_input r)\<rparr>"

definition set_splash :: "usize \<Rightarrow> bool \<Rightarrow> relay \<Rightarrow> relay" where
  "set_splash count ok r =
     r\<lparr>rl_running := None, rl_splash := (if ok then map_option (\<lambda>_. splash_state count) (rl_splash r) else rl_splash r)\<rparr>"

datatype relay_event = Connect | Disconnect | Invoke nat | Set_Input bool | Set_Splash bool

text \<open>
  The listener accepts one connection at a time: it reports a connection before it starts that
  client's thread and accepts the next. \<open>None\<close>: the event cannot happen now. The main loop runs,
  so that \<open>invoke\<close> hands the closure to it; it runs one closure at a time, and the other threads go
  on between the two calls of a closure. Without a splash pipeline the second call does nothing.
\<close>

fun relay_exec :: "relay_event \<Rightarrow> relay \<Rightarrow> relay option" where
  "relay_exec Connect r =
     (if True \<in> fst ` set (rl_calls r) then None
      else Some (r\<lparr>rl_count := rl_count r + 1, rl_open := rl_open r + 1,
                  rl_calls := rl_calls r @ [(True, rl_count r + 1)]\<rparr>))"
| "relay_exec Disconnect r =
     (if rl_open r \<le> length (filter fst (rl_calls r)) then None
      else Some (r\<lparr>rl_count := rl_count r - 1, rl_open := rl_open r - 1,
                  rl_calls := rl_calls r @ [(False, saturating_sub (rl_count r) 1)]\<rparr>))"
| "relay_exec (Invoke k) r =
     (if k < length (rl_calls r)
      then Some (r\<lparr>rl_calls := vec_remove k (rl_calls r), rl_queue := rl_queue r @ [snd (rl_calls r ! k)]\<rparr>)
      else None)"
| "relay_exec (Set_Input ok) r =
     (case (rl_running r, rl_queue r) of
        (None, count # rest) \<Rightarrow> Some (set_input count ok (r\<lparr>rl_queue := rest\<rparr>))
      | _ \<Rightarrow> None)"
| "relay_exec (Set_Splash ok) r =
     (case rl_running r of None \<Rightarrow> None | Some count \<Rightarrow> Some (set_splash count ok r))"

fun relay_run :: "relay_event list \<Rightarrow> relay \<Rightarrow> relay option" where
  "relay_run [] r = Some r"
| "relay_run (e # es) r = (case relay_exec e r of None \<Rightarrow> None | Some r1 \<Rightarrow> relay_run es r1)"

section \<open>The vsock listener's socket\<close>

text \<open>The calls, and the answers of \<open>socket\<close>, \<open>bind\<close> and \<open>listen\<close>; \<open>None\<close> is the last error of the system.\<close>

datatype socket_call = C_socket | C_bind int u32 u32 | C_listen int int | C_close_socket int

definition vsock_listen :: "int \<Rightarrow> int \<Rightarrow> int \<Rightarrow> u32 \<Rightarrow> u32 \<Rightarrow> socket_call list \<times> int option" where
  "vsock_listen fd bound listening cid port =
     (if fd < 0 then ([C_socket], None)
      else if bound < 0 then ([C_socket, C_bind fd cid port, C_close_socket fd], None)
      else if listening < 0 then ([C_socket, C_bind fd cid port, C_listen fd 64, C_close_socket fd], None)
      else ([C_socket, C_bind fd cid port, C_listen fd 64], Some fd))"

lemma vsock_listen_closes:
  "snd (vsock_listen fd bound listening cid port) = None \<longleftrightarrow>
     fd < 0 \<or> C_close_socket fd \<in> set (fst (vsock_listen fd bound listening cid port))"
  by (auto simp: vsock_listen_def)

section \<open>The lines of a stream\<close>

text \<open>
  The reference: the bytes between line feeds, however they arrive, as text, without empty messages.
\<close>

fun split_nl :: "u8 list \<Rightarrow> u8 list list" where
  "split_nl [] = [[]]"
| "split_nl (b # bs) = (if b = NL then [] # split_nl bs else (b # hd (split_nl bs)) # tl (split_nl bs))"

definition messages :: "u8 list list \<Rightarrow> u8 list list" where
  "messages ls = filter (\<lambda>m. m \<noteq> []) (map (\<lambda>l. trim_line (from_utf8_lossy l)) ls)"

definition text_bytes :: "u8 list \<Rightarrow> u8 list" where
  "text_bytes bs = filter (\<lambda>b. b \<noteq> CR \<and> b \<noteq> NL) bs"

text \<open>
  A piece that is printed before the stream ends: a line with its line feed, or at least 1024 bytes of
  a line that goes on. Pieces are shorter than two reads.
\<close>

definition whole_piece :: "u8 list \<Rightarrow> bool" where
  "whole_piece p \<longleftrightarrow> NL \<notin> set (butlast p) \<and> length p < 2048 \<and> (p \<noteq> [] \<and> last p = NL \<or> length p \<ge> 1024)"

lemma text_bytes_append [simp]: "text_bytes (a @ b) = text_bytes a @ text_bytes b"
  by (simp add: text_bytes_def)

lemma split_nl_ne [simp]: "split_nl s \<noteq> []"
  by (cases s) auto

lemma split_nl_line: "NL \<notin> set a \<Longrightarrow> split_nl (a @ NL # s) = a # split_nl s"
  by (induction a) auto

lemma split_nl_prefix: "NL \<notin> set a \<Longrightarrow> split_nl (a @ s) = (a @ hd (split_nl s)) # tl (split_nl s)"
  by (induction a) auto

lemma trim_line_nl: "trim_line (a @ [NL]) = trim_line a"
  by (simp add: trim_line_def)

lemma text_bytes_trim: "text_bytes (trim_line l) = text_bytes l"
proof -
  have "text_bytes (rev (dropWhile (\<lambda>b. b = CR \<or> b = NL) l)) = text_bytes (rev l)" for l
    by (induction l) (auto simp: text_bytes_def)
  from this [of "rev l"] show ?thesis by (simp add: trim_line_def)
qed

lemma messages_append [simp]: "messages (ls @ ms) = messages ls @ messages ms"
  by (simp add: messages_def)

lemma messages_printed: "messages ls = concat (map printed ls)"
  by (induction ls) (simp_all add: messages_def printed_def Let_def)

lemma lossy_line: "from_utf8_lossy (a @ [NL]) = from_utf8_lossy a @ [NL]"
  using lossy_append_ascii [of NL a "[]"] by (simp add: NL_def)

lemma printed_line [simp]: "printed (a @ [NL]) = printed a"
  by (simp add: printed_def lossy_line trim_line_nl)

lemma printed_Nil [simp]: "printed [] = []"
  by (simp add: printed_def trim_line_def)

lemma drain_lines_spec:
  assumes "drain_lines p = (ls, r)"
  shows "concat ls @ r = p \<and> NL \<notin> set r \<and> (\<forall>l\<in>set ls. \<exists>a. l = a @ [NL] \<and> NL \<notin> set a)"
  using assms
proof (induction p arbitrary: ls rule: drain_lines.induct)
  case (1 p)
  show ?case
  proof (cases "NL \<in> set p")
    case False
    then show ?thesis using 1(2) by (simp add: drain_lines.simps [of p])
  next
    case True
    define a where "a = takeWhile (\<lambda>b. b \<noteq> NL) p"
    have nl: "NL \<notin> set a" unfolding a_def using set_takeWhileD by fastforce
    have "dropWhile (\<lambda>b. b \<noteq> NL) p \<noteq> [] \<and> hd (dropWhile (\<lambda>b. b \<noteq> NL) p) = NL"
      using True hd_dropWhile [of "\<lambda>b. b \<noteq> NL" p] by (auto simp: dropWhile_eq_Nil_conv)
    then obtain t where t: "dropWhile (\<lambda>b. b \<noteq> NL) p = NL # t" by (metis list.collapse)
    have p: "p = a @ NL # t" unfolding a_def t [symmetric] by simp
    have d: "drop (length (a @ [NL])) p = t" by (simp add: p)
    obtain ms where ms: "drain_lines t = (ms, r)" "ls = (a @ [NL]) # ms"
      using 1(2) True d by (auto simp: drain_lines.simps [of p] a_def [symmetric] Let_def split: prod.splits)
    have "concat ms @ r = t \<and> NL \<notin> set r \<and> (\<forall>l\<in>set ms. \<exists>a. l = a @ [NL] \<and> NL \<notin> set a)"
      using 1(1) [OF True refl, folded a_def, unfolded d] ms(1) by blast
    then show ?thesis using ms(2) p nl by auto
  qed
qed

text \<open>The list of reads of a connection that is closed without an error, and of one that breaks.\<close>

definition reads_of :: "u8 list list \<Rightarrow> read_result list \<Rightarrow> read_result list" where
  "reads_of datas later = map Read datas @ Read [] # later"

definition broken_reads :: "u8 list list \<Rightarrow> read_result list \<Rightarrow> read_result list" where
  "broken_reads datas later = map Read datas @ Read_Error # later"

text \<open>One read: what was pending and what came are cut into whole pieces and a new rest.\<close>

lemma hold_round_pieces:
  assumes "length pending < 1024" "length d \<le> 1024" "NL \<notin> set pending"
  shows "\<exists>ps rest. hold_round pending d = (concat (map printed ps), rest) \<and> pending @ d = concat ps @ rest \<and>
    list_all whole_piece ps \<and> NL \<notin> set rest \<and> length rest < 1024"
proof -
  obtain ls r where dr: "drain_lines (pending @ d) = (ls, r)" by force
  note spec = drain_lines_spec [OF dr]
  have len: "length (concat ls) + length r < 2048"
    using arg_cong [OF conjunct1 [OF spec], of length] assms(1,2) by simp
  have "whole_piece l" if l: "l \<in> set ls" for l
  proof -
    have "length l \<le> length (concat ls)" using l by (induction ls) auto
    then show ?thesis using spec l len by (auto simp: whole_piece_def)
  qed
  then have ls: "list_all whole_piece ls" by (simp add: list_all_iff)
  show ?thesis
  proof (cases "length r \<ge> 1024")
    case True
    have "NL \<notin> set (butlast r)" using spec by (auto dest: in_set_butlastD)
    then have "list_all whole_piece (ls @ [r])" using ls True len by (simp add: whole_piece_def)
    then show ?thesis using True spec
      by (intro exI [of _ "ls @ [r]"] exI [of _ "[]"]) (simp add: hold_round_def dr)
  next
    case False
    then show ?thesis using spec ls
      by (intro exI [of _ ls] exI [of _ r]) (simp add: hold_round_def dr)
  qed
qed

lemma hold_loop_pieces:
  assumes "\<forall>d\<in>set datas. d \<noteq> [] \<and> length d \<le> 1024" "NL \<notin> set pending" "length pending < 1024"
  shows "\<exists>ps rest. pending @ concat datas = concat ps @ rest \<and> list_all whole_piece ps \<and>
    NL \<notin> set rest \<and> length rest < 1024 \<and>
    (\<forall>rs. hold_loop (map Read datas @ rs) pending =
       (concat (map printed ps) @ fst (hold_loop rs rest), snd (hold_loop rs rest)))"
  using assms
proof (induction datas arbitrary: pending)
  case Nil
  then show ?case by (intro exI [of _ "[]"] exI [of _ pending]) simp
next
  case (Cons d datas)
  then obtain ps r where r: "hold_round pending d = (concat (map printed ps), r)" "pending @ d = concat ps @ r"
    "list_all whole_piece ps" "NL \<notin> set r" "length r < 1024"
    using hold_round_pieces [of pending d] by auto
  obtain qs rest where q: "r @ concat datas = concat qs @ rest" "list_all whole_piece qs" "NL \<notin> set rest" "length rest < 1024"
    "\<forall>rs. hold_loop (map Read datas @ rs) r = (concat (map printed qs) @ fst (hold_loop rs rest), snd (hold_loop rs rest))"
    using Cons.IH [of r] Cons.prems(1) r(4,5) by auto
  have "pending @ concat (d # datas) = concat (ps @ qs) @ rest" using r(2) q(1) by (simp flip: append_assoc) simp
  moreover have "hold_loop (map Read (d # datas) @ rs) pending =
      (concat (map printed (ps @ qs)) @ fst (hold_loop rs rest), snd (hold_loop rs rest))" for rs
    using q(5) Cons.prems(1) by (simp add: r(1))
  ultimately show ?case using r(3) q(2-4)
    by (intro exI [of _ "ps @ qs"] exI [of _ rest]) simp
qed

text \<open>If all lines are short, the whole pieces are the lines that have ended.\<close>

lemma short_pieces:
  assumes "list_all whole_piece ps" "NL \<notin> set rest" "\<forall>l\<in>set (split_nl (concat ps @ rest)). length l < 1024"
  shows "\<exists>ls. ps = map (\<lambda>l. l @ [NL]) ls \<and> split_nl (concat ps @ rest) = ls @ [rest]"
  using assms
proof (induction ps)
  case Nil
  then show ?case using split_nl_prefix [of rest "[]"] by simp
next
  case (Cons p ps)
  let ?s = "concat ps @ rest"
  have w: "NL \<notin> set (butlast p)" "p \<noteq> [] \<and> last p = NL \<or> length p \<ge> 1024" using Cons.prems(1) by (simp_all add: whole_piece_def)
  show ?case
  proof (cases "p \<noteq> [] \<and> last p = NL")
    case True
    then have p: "p = butlast p @ [NL]" using append_butlast_last_id [of p] by metis
    then have s: "split_nl (concat (p # ps) @ rest) = butlast p # split_nl ?s"
      using split_nl_line [OF w(1), of ?s] by (metis append.assoc append_Cons append_Nil concat.simps(2))
    then obtain ls where "ps = map (\<lambda>l. l @ [NL]) ls" "split_nl ?s = ls @ [rest]" using Cons by auto
    then show ?thesis using s p by (intro exI [of _ "butlast p # ls"]) simp
  next
    case False
    then have l: "length p \<ge> 1024" "p \<noteq> []" using w(2) by auto
    then have "NL \<notin> set p" using w(1) False append_butlast_last_id [of p] by (metis Un_iff empty_iff empty_set insert_iff list.simps(15) set_append)
    from split_nl_prefix [OF this, of ?s] have "\<exists>t. p @ t \<in> set (split_nl (concat (p # ps) @ rest))" by auto
    then show ?thesis using Cons.prems(3) l(1) by (metis length_append not_add_less1 order.strict_trans2 not_le le_add1)
  qed
qed

lemma printed_lines: "concat (map printed (map (\<lambda>l. l @ [NL]) ls)) = messages ls"
  by (simp add: messages_printed o_def)

text \<open>ASCII text is printed whole, apart from carriage returns and line feeds at the ends.\<close>

lemma text_bytes_printed: "\<forall>b\<in>set l. b < 0x80 \<Longrightarrow> text_bytes (concat (printed l)) = text_bytes l"
  using text_bytes_trim [of l] by (auto simp: printed_def Let_def lossy_all_ascii text_bytes_def)

lemma text_bytes_pieces:
  "\<forall>b\<in>set (concat ps). b < 0x80 \<Longrightarrow> text_bytes (concat (concat (map printed ps))) = text_bytes (concat ps)"
proof (induction ps)
  case (Cons p ps)
  then show ?case using text_bytes_printed [of p] by simp
qed simp

definition message_ok :: "u8 list \<Rightarrow> bool" where
  "message_ok m \<longleftrightarrow> m \<noteq> [] \<and> last m \<noteq> CR \<and> NL \<notin> set m"

lemma trim_line_last: "trim_line l \<noteq> [] \<Longrightarrow> last (trim_line l) \<noteq> CR"
  using hd_dropWhile [of "\<lambda>b. b = CR \<or> b = NL" "rev l"] by (auto simp: trim_line_def last_rev)

lemma trim_line_subset: "set (trim_line l) \<subseteq> set l"
  by (auto simp: trim_line_def dest: set_dropWhileD)

lemma printed_ok:
  assumes "NL \<notin> set (butlast l)" "m \<in> set (printed l)"
  shows "message_ok m"
proof -
  have plain: "message_ok x" if "NL \<notin> set a" "x \<in> set (printed a)" for a x
    using that trim_line_last trim_line_subset [of "from_utf8_lossy a"] lossy_ascii_bytes [of NL a]
    by (auto simp: printed_def Let_def message_ok_def NL_def word_less_nat_alt split: if_splits)
  show ?thesis
  proof (cases "l \<noteq> [] \<and> last l = NL")
    case True
    then have "l = butlast l @ [NL]" using append_butlast_last_id [of l] by metis
    then show ?thesis using plain [OF assms(1), of m] assms(2) printed_line by metis
  next
    case False
    then have "NL \<notin> set l" using assms(1) by (cases l rule: rev_cases) auto
    then show ?thesis using plain assms(2) by blast
  qed
qed

text \<open>Lines of well-formed text are printed as they are.\<close>

lemma messages_utf8: "\<forall>l\<in>set ls. utf8_text l \<Longrightarrow> messages ls = filter (\<lambda>m. m \<noteq> []) (map trim_line ls)"
  by (induction ls) (auto simp: messages_def lossy_utf8)

lemma hold_vsock_same: "hold_vsock_loop rs pending = (fst (hold_loop rs pending), snd (hold_loop rs pending), 1)"
  by (induction rs pending rule: hold_vsock_loop.induct) (auto split: prod.splits)

text \<open>
  C35: the lines of a client. For every way a stream is cut into reads of at most 1024 bytes, it is
  printed piece by piece: the pieces, put together, are the stream; every piece but the last is a line
  up to its line feed or at least 1024 bytes of a longer line, and none is longer than two reads; each
  is converted to text by itself, with the replacement character for bytes that are not UTF-8, loses
  the carriage returns and line feeds at its end, and is printed if something is left. So a line of
  ASCII is printed byte by byte, but a character of a longer line that is cut between two pieces is
  not. If no line reaches 1024 bytes, the messages are the lines of the stream, however it was cut,
  and exactly their bytes if they are well-formed UTF-8. If a read fails, the lines that had ended by
  then have been printed and the rest is thrown away. A vsock client is treated the same, and its
  descriptor is closed exactly once, also after a read error.
\<close>

theorem client_lines_agree:
  assumes "\<forall>d\<in>set datas. d \<noteq> [] \<and> length d \<le> 1024"
  shows "snd (hold_connection (reads_of datas later)) \<and> \<not> snd (hold_connection (broken_reads datas later)) \<and>
    (\<exists>ps rest. concat ps @ rest = concat datas \<and> list_all whole_piece ps \<and> length rest < 1024 \<and> NL \<notin> set rest \<and>
       fst (hold_connection (reads_of datas later)) = messages (ps @ [rest]) \<and>
       fst (hold_connection (broken_reads datas later)) = messages ps) \<and>
    (\<forall>m\<in>set (fst (hold_connection (reads_of datas later))). m \<noteq> [] \<and> last m \<noteq> CR \<and> NL \<notin> set m) \<and>
    ((\<forall>b\<in>set (concat datas). b < 0x80) \<longrightarrow>
       text_bytes (concat (fst (hold_connection (reads_of datas later)))) = text_bytes (concat datas)) \<and>
    ((\<forall>l\<in>set (split_nl (concat datas)). length l < 1024) \<longrightarrow>
       fst (hold_connection (reads_of datas later)) = messages (split_nl (concat datas)) \<and>
       fst (hold_connection (broken_reads datas later)) = messages (butlast (split_nl (concat datas))) \<and>
       ((\<forall>l\<in>set (split_nl (concat datas)). utf8_text l) \<longrightarrow>
          fst (hold_connection (reads_of datas later)) = filter (\<lambda>m. m \<noteq> []) (map trim_line (split_nl (concat datas))))) \<and>
    hold_vsock_connection rs = (fst (hold_connection rs), snd (hold_connection rs), 1)"
proof -
  obtain ps rest where p: "concat datas = concat ps @ rest" "list_all whole_piece ps" "NL \<notin> set rest" "length rest < 1024"
    "\<forall>rs. hold_loop (map Read datas @ rs) [] = (concat (map printed ps) @ fst (hold_loop rs rest), snd (hold_loop rs rest))"
    using hold_loop_pieces [OF assms, of "[]"] by auto
  have c: "hold_connection (reads_of datas later) = (messages (ps @ [rest]), True)"
    using p(5) by (simp add: hold_connection_def reads_of_def messages_printed)
  have e: "hold_connection (broken_reads datas later) = (messages ps, False)"
    using p(5) by (simp add: hold_connection_def broken_reads_def messages_printed)
  have pieces: "\<exists>ps rest. concat ps @ rest = concat datas \<and> list_all whole_piece ps \<and> length rest < 1024 \<and> NL \<notin> set rest \<and>
       fst (hold_connection (reads_of datas later)) = messages (ps @ [rest]) \<and>
       fst (hold_connection (broken_reads datas later)) = messages ps"
    using p(1-4) c e by (intro exI [of _ ps] exI [of _ rest]) simp
  have nl: "NL \<notin> set (butlast l)" if "l \<in> set (ps @ [rest])" for l
    using that p(2,3) by (auto simp: list_all_iff whole_piece_def dest: in_set_butlastD)
  have ok: "message_ok m" if "m \<in> set (messages (ps @ [rest]))" for m
    using that nl printed_ok unfolding messages_printed by auto
  have ascii: "text_bytes (concat (messages (ps @ [rest]))) = text_bytes (concat datas)" if "\<forall>b\<in>set (concat datas). b < 0x80"
    using that text_bytes_pieces [of "ps @ [rest]"] unfolding messages_printed p(1) by simp
  have short: "messages (ps @ [rest]) = messages (split_nl (concat datas)) \<and>
      messages ps = messages (butlast (split_nl (concat datas)))" if s: "\<forall>l\<in>set (split_nl (concat datas)). length l < 1024"
  proof -
    obtain ls where "ps = map (\<lambda>l. l @ [NL]) ls" "split_nl (concat datas) = ls @ [rest]"
      using short_pieces [OF p(2,3)] s unfolding p(1) by blast
    then show ?thesis using printed_lines [of ls] by (simp add: messages_printed)
  qed
  have short_all: "messages (ps @ [rest]) = messages (split_nl (concat datas)) \<and>
      messages ps = messages (butlast (split_nl (concat datas))) \<and>
      ((\<forall>l\<in>set (split_nl (concat datas)). utf8_text l) \<longrightarrow>
        messages (ps @ [rest]) = filter (\<lambda>m. m \<noteq> []) (map trim_line (split_nl (concat datas))))"
    if "\<forall>l\<in>set (split_nl (concat datas)). length l < 1024"
    using short [OF that] messages_utf8 [of "split_nl (concat datas)"] by presburger
  have v: "hold_vsock_connection rs = (fst (hold_connection rs), snd (hold_connection rs), 1)"
    by (simp add: hold_connection_def hold_vsock_connection_def hold_vsock_same)
  have m: "\<forall>m\<in>set (fst (hold_connection (reads_of datas later))). m \<noteq> [] \<and> last m \<noteq> CR \<and> NL \<notin> set m"
    using ok unfolding c message_ok_def by simp
  show ?thesis using pieces m ascii short_all v unfolding c e fst_conv snd_conv by blast
qed

theorem client_lines_agree_witness:
  "fst (hold_connection (reads_of [[104, 105, 13], [10, 13, 10, 111], [107]] [])) = [[104, 105], [111, 107]] \<and>
   fst (hold_connection (broken_reads [[104, 105, 13], [10, 13, 10, 111], [107]] [])) = [[104, 105]]"
proof -
  have d: "\<forall>d\<in>set [[104, 105, 13], [10, 13, 10, 111], [107]] . d \<noteq> [] \<and> length d \<le> (1024 :: nat)" by simp
  have s: "split_nl (concat [[104, 105, 13], [10, 13, 10, 111], [107]]) = [[104, 105, 13], [13], [111, 107]]"
    by (simp add: NL_def)
  have m: "messages [[104, 105, 13], [13], [111, 107]] = [[104, 105], [111, 107]]"
    "messages (butlast [[104, 105, 13], [13], [111, 107]]) = [[104, 105]]"
    by (simp_all add: messages_def trim_line_def NL_def CR_def lossy_ascii)
  show ?thesis
    using client_lines_agree [of "[[104, 105, 13], [10, 13, 10, 111], [107]]" "[]" "[]"] d
    unfolding m s by simp
qed

text \<open>A character cut between two pieces is lost: its bytes 0xC3 0xA9, the first one the 1024th of its line.\<close>

lemma cut_character:
  "printed (replicate 3 97 @ [0xC3]) @ printed [0xA9] = [replicate 3 97 @ REPLACEMENT, REPLACEMENT]"
  "printed (replicate 3 97 @ [0xC3, 0xA9]) = [replicate 3 97 @ [0xC3, 0xA9]]"
  by code_simp+

section \<open>Which pipeline plays\<close>

text \<open>The input plays while a client is connected, and the splash pipeline, if any, otherwise.\<close>

definition shows_clients :: "relay \<Rightarrow> bool" where
  "shows_clients r \<longleftrightarrow> rl_input r = (if rl_open r > 0 then State_Playing else State_Null)"

definition one_plays :: "relay \<Rightarrow> bool" where
  "one_plays r \<longleftrightarrow> (\<forall>s. rl_splash r = Some s \<longrightarrow> (s = State_Playing \<longleftrightarrow> rl_input r = State_Null))"

text \<open>No count is on its way to the pipelines.\<close>

definition settled :: "relay \<Rightarrow> bool" where
  "settled r \<longleftrightarrow> rl_calls r = [] \<and> rl_queue r = [] \<and> rl_running r = None"

text \<open>The counts on their way to the input, in the order of the changes if \<open>invoke\<close> keeps that order.\<close>

definition pending_counts :: "relay \<Rightarrow> usize list" where
  "pending_counts r = rl_queue r @ map snd (rl_calls r)"

definition in_order :: "relay_event list \<Rightarrow> bool" where
  "in_order es \<longleftrightarrow> (\<forall>k. Invoke k \<in> set es \<longrightarrow> k = 0)"

text \<open>Every \<open>set_state\<close> has succeeded.\<close>

definition answered :: "relay_event list \<Rightarrow> bool" where
  "answered es \<longleftrightarrow> Set_Input False \<notin> set es \<and> Set_Splash False \<notin> set es"

definition counter_ok :: "relay \<Rightarrow> bool" where
  "counter_ok r \<longleftrightarrow> rl_count r = of_nat (rl_open r) \<and>
     (if pending_counts r = [] then shows_clients r else last (pending_counts r) = of_nat (rl_open r))"

text \<open>Outside a closure one of the two plays; within it the input has been switched.\<close>

definition switching_ok :: "relay \<Rightarrow> bool" where
  "switching_ok r \<longleftrightarrow> (case rl_running r of None \<Rightarrow> one_plays r | Some count \<Rightarrow> rl_input r = input_state count)"

lemmas closure_defs = set_input_def set_splash_def input_state_def splash_state_def

lemma relay_exec_switching: "relay_exec e r = Some r1 \<Longrightarrow> answered [e] \<Longrightarrow> switching_ok r \<Longrightarrow> switching_ok r1"
  by (cases e)
    (auto simp: switching_ok_def one_plays_def answered_def closure_defs split: if_splits list.splits option.splits)

lemma of_nat_usize_pos: "n < 2 ^ 64 \<Longrightarrow> (of_nat n :: usize) > 0 \<longleftrightarrow> n > 0"
  by (simp add: word_less_nat_alt unat_of_nat)

lemma relay_exec_open: "relay_exec e r = Some r1 \<Longrightarrow> rl_open r1 \<le> rl_open r + count_list [e] Connect"
  by (cases e) (auto simp: closure_defs split: if_splits list.splits option.splits)

lemma relay_exec_counter:
  assumes run: "relay_exec e r = Some r1" and ok: "counter_ok r" and order: "in_order [e]" and good: "answered [e]"
    and room: "rl_open r < 2 ^ 64"
  shows "counter_ok r1"
proof (cases e)
  case Connect
  then show ?thesis using run ok by (auto simp: counter_ok_def pending_counts_def split: if_splits)
next
  case Disconnect
  then have o: "rl_open r > 0" using run by (auto split: if_splits)
  then have c: "(of_nat (rl_open r) :: usize) - 1 = of_nat (rl_open r - 1)" by (simp add: of_nat_diff)
  moreover have "saturating_sub (of_nat (rl_open r) :: usize) 1 = of_nat (rl_open r) - 1"
    using of_nat_usize_pos [OF room] o by (simp add: saturating_sub_def word_less_nat_alt word_le_nat_alt)
  ultimately show ?thesis using Disconnect run ok by (auto simp: counter_ok_def pending_counts_def split: if_splits)
next
  case (Invoke k)
  then have k: "k = 0" using order by (simp add: in_order_def)
  then obtain c cs where cs: "rl_calls r = c # cs" using Invoke run by (cases "rl_calls r") auto
  then have "r1 = r\<lparr>rl_calls := cs, rl_queue := rl_queue r @ [snd c]\<rparr>"
    using Invoke run k by (simp add: vec_remove_def)
  then show ?thesis using ok cs by (simp add: counter_ok_def pending_counts_def shows_clients_def)
next
  case (Set_Input a)
  then obtain c q where q: "rl_queue r = c # q" "r1 = set_input c a (r\<lparr>rl_queue := q\<rparr>)"
    using run by (auto split: list.splits option.splits)
  have a: "a" using good Set_Input by (cases a) (simp_all add: answered_def)
  have p: "pending_counts r = c # pending_counts r1" using q by (simp add: pending_counts_def set_input_def)
  have f: "rl_count r1 = rl_count r" "rl_open r1 = rl_open r" by (simp_all add: q(2) set_input_def)
  show ?thesis
  proof (cases "pending_counts r1 = []")
    case True
    then have "c = of_nat (rl_open r)" using ok p by (simp add: counter_ok_def)
    then have "shows_clients r1"
      using of_nat_usize_pos [OF room] a by (simp add: q(2) set_input_def input_state_def shows_clients_def)
    then show ?thesis using ok f True by (simp add: counter_ok_def)
  qed (use ok p f in \<open>simp add: counter_ok_def\<close>)
next
  case (Set_Splash a)
  then show ?thesis using run ok
    by (auto simp: counter_ok_def pending_counts_def shows_clients_def set_splash_def split: option.splits)
qed

lemma relay_run_counter:
  "relay_run es r = Some r1 \<Longrightarrow> counter_ok r \<Longrightarrow> in_order es \<Longrightarrow> answered es \<Longrightarrow> 
     rl_open r + count_list es Connect < 2 ^ 64 \<Longrightarrow>
     counter_ok r1 \<and> rl_open r1 \<le> rl_open r + count_list es Connect"
proof (induction es arbitrary: r)
  case (Cons e es)
  then obtain r2 where r2: "relay_exec e r = Some r2" "relay_run es r2 = Some r1" by (auto split: option.splits)
  have o: "in_order [e]" "in_order es" "answered [e]" "answered es"
    using Cons.prems(3,4) by (auto simp: in_order_def answered_def)
  have l: "rl_open r2 + count_list es Connect \<le> rl_open r + count_list (e # es) Connect"
    using relay_exec_open [OF r2(1)] by (simp split: if_splits)
  then have c: "counter_ok r2" using relay_exec_counter [OF r2(1) Cons.prems(2) o(1,3)] Cons.prems(5) by linarith
  then have "counter_ok r1 \<and> rl_open r1 \<le> rl_open r2 + count_list es Connect"
    using Cons.IH [OF r2(2) c o(2,4)] l Cons.prems(5) by linarith
  then show ?case using l by simp
qed simp

lemma relay_run_switching: "relay_run es r = Some r1 \<Longrightarrow> answered es \<Longrightarrow> switching_ok r \<Longrightarrow> switching_ok r1"
proof (induction es arbitrary: r)
  case (Cons e es)
  have "answered [e]" "answered es" using Cons.prems(2) by (auto simp: answered_def)
  then show ?case using Cons relay_exec_switching by (auto split: option.splits)
qed simp

lemma relay_run_append: "relay_run (es @ fs) r = (case relay_run es r of None \<Rightarrow> None | Some r1 \<Rightarrow> relay_run fs r1)"
  by (induction es arbitrary: r) (auto split: option.splits)

text \<open>
  The closure that is running ends, every thread calls \<open>invoke\<close>, and the main loop runs what is queued;
  all calls succeed.
\<close>

definition run_closures :: "nat \<Rightarrow> relay_event list" where
  "run_closures n = concat (replicate n [Set_Input True, Set_Splash True])"

definition settle :: "relay \<Rightarrow> relay_event list" where
  "settle r = (if rl_running r = None then [] else [Set_Splash True]) @
     replicate (length (rl_calls r)) (Invoke 0) @ run_closures (length (pending_counts r))"

lemma run_closures_simps [simp]:
  "run_closures 0 = []" "run_closures (Suc n) = Set_Input True # Set_Splash True # run_closures n"
  by (simp_all add: run_closures_def)

lemma run_invokes:
  "relay_run (replicate (length (rl_calls r)) (Invoke 0)) r = Some (r\<lparr>rl_calls := [], rl_queue := pending_counts r\<rparr>)"
proof (induction "rl_calls r" arbitrary: r)
  case Nil
  then show ?case by (cases r) (simp add: pending_counts_def)
next
  case (Cons c cs)
  let ?r = "r\<lparr>rl_calls := cs, rl_queue := rl_queue r @ [snd c]\<rparr>"
  have "relay_run (replicate (length (rl_calls ?r)) (Invoke 0)) ?r = Some (?r\<lparr>rl_calls := [], rl_queue := pending_counts ?r\<rparr>)"
    by (rule Cons(1)) simp
  then show ?case by (simp add: Cons(2) [symmetric] vec_remove_def pending_counts_def)
qed

lemma run_queue:
  "rl_calls r = [] \<Longrightarrow> rl_running r = None \<Longrightarrow>
     \<exists>r1. relay_run (run_closures (length (rl_queue r))) r = Some r1 \<and> settled r1 \<and> rl_open r1 = rl_open r"
proof (induction "rl_queue r" arbitrary: r)
  case (Cons c q)
  let ?r = "set_splash c True (set_input c True (r\<lparr>rl_queue := q\<rparr>))"
  have "rl_queue ?r = q" "rl_calls ?r = []" "rl_open ?r = rl_open r" "rl_running ?r = None"
    using Cons(3) by (simp_all add: set_input_def set_splash_def)
  moreover from this obtain r1 where
    "relay_run (run_closures (length q)) ?r = Some r1" "settled r1" "rl_open r1 = rl_open ?r"
    using Cons(1) [of ?r] by auto
  moreover have "rl_running (set_input c True (r\<lparr>rl_queue := q\<rparr>)) = Some c" by (simp add: set_input_def)
  ultimately show ?case using Cons(4) by (simp add: Cons(2) [symmetric])
qed (simp add: settled_def)

lemma run_settle:
  obtains r1 where "relay_run (settle r) r = Some r1" "settled r1" "rl_open r1 = rl_open r"
proof -
  obtain r0 where r0: "relay_run (if rl_running r = None then [] else [Set_Splash True]) r = Some r0" "rl_running r0 = None"
    "rl_calls r0 = rl_calls r" "rl_queue r0 = rl_queue r" "rl_open r0 = rl_open r"
    by (cases "rl_running r") (simp_all add: set_splash_def)
  have p: "pending_counts r0 = pending_counts r" using r0 by (simp add: pending_counts_def)
  let ?r = "r0\<lparr>rl_calls := [], rl_queue := pending_counts r\<rparr>"
  obtain r1 where r1: "relay_run (run_closures (length (pending_counts r))) ?r = Some r1" "settled r1" "rl_open r1 = rl_open r"
    using run_queue [of ?r] r0 by auto
  have "relay_run (settle r) r = Some r1"
    using run_invokes [of r0] r0 r1(1) by (simp add: settle_def relay_run_append p)
  then show ?thesis using r1(2,3) that by blast
qed

lemma settle_events: "in_order (settle r)" "answered (settle r)"
  by (auto simp: in_order_def answered_def settle_def run_closures_def)

lemma settle_connects: "count_list (settle r) Connect = 0"
  by (auto simp: count_list_0_iff settle_def run_closures_def)

lemma in_order_append: "in_order (es @ fs) \<longleftrightarrow> in_order es \<and> in_order fs"
  by (auto simp: in_order_def)

lemma answered_append: "answered (es @ fs) \<longleftrightarrow> answered es \<and> answered fs"
  by (auto simp: answered_def)

lemma start_ok: "counter_ok (relay_start s)" "switching_ok (relay_start s)" "rl_open (relay_start s) = 0"
  by (auto simp: counter_ok_def relay_start_def pending_counts_def shows_clients_def switching_ok_def one_plays_def)

text \<open>
  C36: the pipelines follow the clients, as long as every \<open>set_state\<close> succeeds. From any state reached,
  however many clients came and went, the relay can finish what is on its way. If the threads report
  their changes in the order they made them, it ends with the input playing exactly when a client is
  connected and the splash pipeline, if there is one, playing exactly when none is. Whatever the
  order, the splash pipeline plays exactly when the input does not whenever no closure is between its
  two calls; between them the input has been switched and the splash pipeline has not.
\<close>

theorem relay_follows_clients:
  assumes "relay_run es (relay_start has_splash) = Some r" and "answered es"
  shows "(\<exists>r1. relay_run (settle r) r = Some r1 \<and> settled r1 \<and> rl_open r1 = rl_open r \<and>
      (\<forall>s. rl_splash r1 = Some s \<longrightarrow> (s = State_Playing \<longleftrightarrow> rl_input r1 = State_Null)) \<and>
      (in_order es \<and> count_list es Connect < 2 ^ 64 \<longrightarrow>
         rl_input r1 = (if rl_open r > 0 then State_Playing else State_Null))) \<and>
    (case rl_running r of
       None \<Rightarrow> \<forall>s. rl_splash r = Some s \<longrightarrow> (s = State_Playing \<longleftrightarrow> rl_input r = State_Null)
     | Some count \<Rightarrow> rl_input r = (if count > 0 then State_Playing else State_Null))"
proof -
  obtain r1 where r1: "relay_run (settle r) r = Some r1" "settled r1" "rl_open r1 = rl_open r" by (rule run_settle)
  have run: "relay_run (es @ settle r) (relay_start has_splash) = Some r1" by (simp add: relay_run_append assms(1) r1(1))
  have good: "answered (es @ settle r)" by (simp add: answered_append assms(2) settle_events)
  have n: "rl_running r1 = None" "pending_counts r1 = []" using r1(2) by (simp_all add: settled_def pending_counts_def)
  have "switching_ok r1" by (rule relay_run_switching [OF run good start_ok(2)])
  then have one: "one_plays r1" by (simp add: switching_ok_def n)
  have "shows_clients r1" if "in_order es" "count_list es Connect < 2 ^ 64"
  proof -
    have "counter_ok r1" using relay_run_counter [OF run start_ok(1) _ good] that start_ok(3) settle_events(1)
      by (simp add: in_order_append settle_connects)
    then show ?thesis using n by (simp add: counter_ok_def)
  qed
  moreover have "switching_ok r" by (rule relay_run_switching [OF assms start_ok(2)])
  ultimately show ?thesis using r1 one
    by (auto simp: switching_ok_def one_plays_def shows_clients_def input_state_def split: option.splits)
qed

theorem relay_follows_clients_witness:
  "\<exists>r r1. relay_run [Connect, Invoke 0, Connect, Set_Input True, Invoke 0, Disconnect] (relay_start True) = Some r \<and>
     relay_run (settle r) r = Some r1 \<and> rl_open r1 = 1 \<and> rl_input r1 = State_Playing \<and>
     rl_running r = Some 1 \<and> rl_input r = State_Playing \<and> rl_splash r = Some State_Playing"
proof -
  let ?es = "[Connect, Invoke 0, Connect, Set_Input True, Invoke 0, Disconnect]"
  obtain r where r: "relay_run ?es (relay_start True) = Some r" "rl_open r = 1" "rl_running r = Some 1"
    "rl_input r = State_Playing" "rl_splash r = Some State_Playing"
    by (simp add: relay_start_def closure_defs vec_remove_def)
  have "in_order ?es" "answered ?es" by (simp_all add: in_order_def answered_def)
  then show ?thesis using relay_follows_clients [OF r(1)] r by (auto simp: relay_run.simps(2))
qed

text \<open>
  The closure ignores a failure: if the input cannot start when the first client connects, the splash
  pipeline is stopped all the same, and nothing plays.
\<close>

lemma failed_input_stops_splash:
  "\<exists>r. relay_run [Connect, Invoke 0, Set_Input False, Set_Splash True] (relay_start True) = Some r \<and>
     settled r \<and> rl_open r = 1 \<and> rl_input r = State_Null \<and> rl_splash r = Some State_Null"
  by (simp add: relay_start_def closure_defs vec_remove_def settled_def)

text \<open>
  C37: the reports race. Each thread changes the counter and reports it in two steps, so two reports
  can overtake each other. From every settled state with one client, a client that leaves while
  another arrives can leave the relay settled with that client connected and the input stopped;
  from every settled state with two clients, two that leave can leave the input playing with
  nobody connected. All calls succeed, and nothing is on its way that would correct it.
\<close>

theorem relay_reports_race:
  assumes "settled r" "rl_count r = of_nat (rl_open r)" "rl_open r = 1 \<or> rl_open r = 2"
  shows "\<exists>r1. relay_run ((if rl_open r = 1 then [Disconnect, Connect, Invoke 1, Invoke 0]
        else [Disconnect, Disconnect, Invoke 1, Invoke 0]) @ run_closures 2) r = Some r1 \<and>
     settled r1 \<and> rl_count r1 = of_nat (rl_open r1) \<and> \<not> shows_clients r1 \<and>
     rl_open r1 = (if rl_open r = 1 then 1 else 0)"
proof (cases "rl_open r = 1")
  case True
  then show ?thesis using assms
    by (simp add: settled_def closure_defs vec_remove_def shows_clients_def saturating_sub_def numeral_2_eq_2)
next
  case False
  then show ?thesis using assms
    by (simp add: settled_def closure_defs vec_remove_def shows_clients_def saturating_sub_def numeral_2_eq_2)
qed

theorem relay_reports_race_witness:
  "\<exists>r r1. relay_run [Connect, Invoke 0, Set_Input True, Set_Splash True] (relay_start True) = Some r \<and>
     relay_run ([Disconnect, Connect, Invoke 1, Invoke 0] @ run_closures 2) r = Some r1 \<and>
     rl_open r1 = 1 \<and> \<not> shows_clients r1"
proof -
  obtain r where r: "relay_run [Connect, Invoke 0, Set_Input True, Set_Splash True] (relay_start True) = Some r"
    "settled r" "rl_open r = 1" "rl_count r = 1"
    by (simp add: relay_start_def closure_defs vec_remove_def settled_def)
  obtain r1 where "relay_run ([Disconnect, Connect, Invoke 1, Invoke 0] @ run_closures 2) r = Some r1" "rl_open r1 = 1" "\<not> shows_clients r1"
    using relay_reports_race [OF r(2)] unfolding r(3,4) by (simp only: refl if_True of_nat_1 simp_thms) blast
  then show ?thesis using r(1) by blast
qed

end
