(* ===== verification/Daemon.thy ===== *)
theory Daemon
  imports Clients
begin

text \<open>
  How the relay comes up and goes down: the building of its pipelines, the TCP listener's loop and
  \<open>main\<close> of \<open>src/src/bin/shm2_relayd.rs\<close>. GStreamer is a parameter: its answers are given, and the
  calls made on it are recorded in order. What the main loop does in between is the relay of
  theory Clients.
\<close>

section \<open>Calls and answers\<close>

datatype pipe = Output_Pipe | Input_Pipe | Splash_Pipe

datatype gst_call =
    Parse_Launch pipe string
  | Wrap_Element pipe string
  | Use_Clock pipe
  | Base_Time pipe u64
  | No_Start_Time pipe
  | Appsrc_Property string string
  | New_Appsink pipe
  | Add_Appsink pipe
  | Link_Appsink pipe
  | Set_State pipe gst_state bool

text \<open>
  What \<open>parse::launch\<close> gives, and the answers to what is asked of one pipeline; an error carries its
  text. \<open>pa_base_time\<close> is the base time of a pipeline for which none has been set; \<open>pa_playing\<close> and
  \<open>pa_null\<close> answer \<open>main\<close>'s own calls of \<open>set_state\<close>. A recorded \<open>Set_State\<close> carries whether it succeeded.
\<close>

datatype launched = Launch_Error string | Launch_Pipeline | Launch_Element

record pipe_answers =
  pa_launch :: launched
  pa_add_element :: "string option"
  pa_clock :: "u64 option"
  pa_base_time :: "u64 option"
  pa_appsrc :: bool
  pa_src_pad :: bool
  pa_add_sink :: "string option"
  pa_sink_pad :: bool
  pa_link :: bool
  pa_playing :: "string option"
  pa_null :: bool

section \<open>Building a pipeline\<close>

text \<open>\<open>parse::launch\<close>, and the wrapping of an element that is no pipeline.\<close>

definition launch_pipeline :: "pipe \<Rightarrow> string \<Rightarrow> string \<Rightarrow> pipe_answers \<Rightarrow> gst_call list \<times> (string + unit)" where
  "launch_pipeline p name descr a =
     (case pa_launch a of
        Launch_Error e \<Rightarrow> ([Parse_Launch p descr], Inl e)
      | Launch_Pipeline \<Rightarrow> ([Parse_Launch p descr], Inr ())
      | Launch_Element \<Rightarrow>
          ([Parse_Launch p descr, Wrap_Element p name],
           case pa_add_element a of Some e \<Rightarrow> Inl e | None \<Rightarrow> Inr ()))"

definition set_pipeline_time :: "pipe \<Rightarrow> u64 option \<Rightarrow> pipe_answers \<Rightarrow> gst_call list" where
  "set_pipeline_time p base_time a =
     [Use_Clock p] @
     (case base_time of
        Some bt \<Rightarrow> [Base_Time p bt]
      | None \<Rightarrow> (case pa_clock a of Some now \<Rightarrow> [Base_Time p now] | None \<Rightarrow> [])) @
     [No_Start_Time p]"

definition output_pipeline_create :: "string \<Rightarrow> pipe_answers \<Rightarrow> gst_call list \<times> (string + unit)" where
  "output_pipeline_create descr a =
     (case launch_pipeline Output_Pipe ''output-pipeline'' descr a of
        (calls, Inl e) \<Rightarrow> (calls, Inl e)
      | (calls, Inr _) \<Rightarrow>
          let calls1 = calls @ set_pipeline_time Output_Pipe None a
          in if \<not> pa_appsrc a then (calls1, Inl ''appsrc not found'')
             else (calls1 @ [Appsrc_Property ''is-live'' ''true'', Appsrc_Property ''format'' ''time'',
                     Appsrc_Property ''stream-type'' ''stream'', Appsrc_Property ''block'' ''false''],
                   Inr ()))"

text \<open>The callback installed on the \<open>appsink\<close> is \<open>new_sample\<close> of theory Clients.\<close>

definition backend_pipeline_create ::
    "pipe \<Rightarrow> string \<Rightarrow> string \<Rightarrow> u64 option \<Rightarrow> pipe_answers \<Rightarrow> gst_call list \<times> (string + unit)" where
  "backend_pipeline_create p name descr base_time a =
     (case launch_pipeline p name descr a of
        (calls, Inl e) \<Rightarrow> (calls, Inl e)
      | (calls, Inr _) \<Rightarrow>
          let calls1 = calls @ set_pipeline_time p base_time a
          in if \<not> pa_src_pad a then (calls1, Inl ''no unlinked src pad'')
             else
               let calls2 = calls1 @ [New_Appsink p, Add_Appsink p]
               in (case pa_add_sink a of
                     Some e \<Rightarrow> (calls2, Inl e)
                   | None \<Rightarrow>
                       if \<not> pa_sink_pad a then (calls2, Inl ''appsink sink pad missing'')
                       else if \<not> pa_link a then (calls2 @ [Link_Appsink p], Inl ''failed to link appsink'')
                       else (calls2 @ [Link_Appsink p], Inr ())))"

text \<open>The output's base time as \<open>main\<close> reads it back.\<close>

definition output_base_time :: "pipe_answers \<Rightarrow> u64 option" where
  "output_base_time a = (case pa_clock a of Some now \<Rightarrow> Some now | None \<Rightarrow> pa_base_time a)"

section \<open>The TCP listener\<close>

text \<open>What \<open>incoming\<close> yields: an error, or a connection with the text of its peer address if it has one.\<close>

datatype accepted = Accept_Error string | Accepted "string option"

text \<open>
  The address bound, and for each connection the peer it prints; every connection is a \<open>Connect\<close> of
  the relay and starts a thread, an accept error is skipped.
\<close>

definition run_tcp_listener ::
    "listen_spec \<Rightarrow> (string \<Rightarrow> string option) \<Rightarrow> accepted list \<Rightarrow> (string + string \<times> string list)" where
  "run_tcp_listener spec bind_error incoming =
     (case spec of
        Vsock cid port \<Rightarrow> Inl ''not tcp''
      | Tcp host port \<Rightarrow>
          let addr = tcp_address host port
          in (case bind_error addr of
                Some e \<Rightarrow> Inl e
              | None \<Rightarrow>
                  Inr (addr, concat (map (\<lambda>x. case x of
                      Accept_Error e \<Rightarrow> []
                    | Accepted None \<Rightarrow> [''<unknown>'']
                    | Accepted (Some peer) \<Rightarrow> [peer]) incoming))))"

text \<open>
  The vsock listener: the answers of \<open>socket\<close>, \<open>bind\<close> and \<open>listen\<close>, then what \<open>accept\<close> gives, one
  after the other. The result is the calls made, and the sockets of the connections held so far, or
  \<open>None\<close> for an error. The loop does not end: whatever has been accepted, it calls \<open>accept\<close> again,
  after an error too.
\<close>

definition run_vsock_listener ::
    "int \<Rightarrow> int \<Rightarrow> int \<Rightarrow> u32 \<Rightarrow> u32 \<Rightarrow> int list \<Rightarrow> socket_call list \<times> int list option" where
  "run_vsock_listener fd bound listening cid port accepts =
     (case vsock_listen fd bound listening cid port of
        (calls, None) \<Rightarrow> (calls, None)
      | (calls, Some _) \<Rightarrow> (calls, Some (filter (\<lambda>conn. conn \<ge> 0) accepts)))"

text \<open>It fails only before the loop, with its socket closed, and keeps it open in the loop.\<close>

lemma vsock_listener_socket:
  assumes "run_vsock_listener fd bound listening cid port accepts = (calls, r)"
  shows "r = None \<longleftrightarrow> fd < 0 \<or> bound < 0 \<or> listening < 0"
    and "fd \<ge> 0 \<Longrightarrow> C_close_socket fd \<in> set calls \<longleftrightarrow> r = None"
    and "r = Some held \<Longrightarrow> \<forall>conn\<in>set held. conn \<ge> 0"
  using assms by (auto simp: run_vsock_listener_def vsock_listen_def split: if_splits)

section \<open>The main function\<close>

text \<open>
  The calls of the closures that the main loop runs, with the relay they act on. Closures that other
  threads still invoke after the main loop has ended are not modelled.
\<close>

definition event_calls :: "relay_event \<Rightarrow> relay \<Rightarrow> gst_call list" where
  "event_calls e r =
     (case (e, rl_queue r, rl_running r) of
        (Set_Input ok, count # _, _) \<Rightarrow> [Set_State Input_Pipe (input_state count) ok]
      | (Set_Splash ok, _, Some count) \<Rightarrow>
          (if rl_splash r \<noteq> None then [Set_State Splash_Pipe (splash_state count) ok] else [])
      | _ \<Rightarrow> [])"

fun loop_calls :: "relay_event list \<Rightarrow> relay \<Rightarrow> gst_call list" where
  "loop_calls [] r = []"
| "loop_calls (e # es) r =
     (case relay_exec e r of None \<Rightarrow> [] | Some r1 \<Rightarrow> event_calls e r @ loop_calls es r1)"

datatype main_result = Main_Ok | Main_Error string | Main_Panic

text \<open>\<open>?\<close> in \<open>main\<close>: an error ends it with the calls made so far.\<close>

definition main_step ::
    "gst_call list \<times> (string + unit) \<Rightarrow> (unit \<Rightarrow> gst_call list \<times> main_result) \<Rightarrow> gst_call list \<times> main_result" where
  "main_step step rest =
     (case step of
        (calls, Inl e) \<Rightarrow> (calls, Main_Error e)
      | (calls, Inr _) \<Rightarrow> (case rest () of (later, r) \<Rightarrow> (calls @ later, r)))"

definition play :: "pipe \<Rightarrow> pipe_answers \<Rightarrow> gst_call list \<times> (string + unit)" where
  "play p a =
     (case pa_playing a of
        Some e \<Rightarrow> ([Set_State p State_Playing False], Inl e)
      | None \<Rightarrow> ([Set_State p State_Playing True], Inr ()))"

text \<open>
  After the main loop, which ends with an error or the end of stream on the output's bus, every
  pipeline is stopped.
\<close>

definition stop :: "pipe \<Rightarrow> (pipe \<Rightarrow> pipe_answers) \<Rightarrow> gst_call list" where
  "stop p ans = [Set_State p State_Null (pa_null (ans p))]"

definition shut_down :: "bool \<Rightarrow> (pipe \<Rightarrow> pipe_answers) \<Rightarrow> gst_call list" where
  "shut_down has_splash ans =
     stop Output_Pipe ans @ stop Input_Pipe ans @ (if has_splash then stop Splash_Pipe ans else [])"

definition start_pipelines ::
    "string \<Rightarrow> string \<Rightarrow> string option \<Rightarrow> (pipe \<Rightarrow> pipe_answers) \<Rightarrow> bool \<Rightarrow> string option \<Rightarrow>
     relay_event list \<Rightarrow> gst_call list \<times> main_result" where
  "start_pipelines input output splash ans has_bus watch_error events =
     main_step (output_pipeline_create output (ans Output_Pipe)) (\<lambda>_.
     let base_time = output_base_time (ans Output_Pipe)
     in main_step (backend_pipeline_create Input_Pipe ''input-pipeline'' input base_time (ans Input_Pipe)) (\<lambda>_.
     main_step
       (case splash of
          Some s \<Rightarrow> backend_pipeline_create Splash_Pipe ''splash-pipeline'' s base_time (ans Splash_Pipe)
        | None \<Rightarrow> ([], Inr ())) (\<lambda>_.
     if \<not> has_bus then ([], Main_Panic)
     else main_step ([], case watch_error of Some e \<Rightarrow> Inl e | None \<Rightarrow> Inr ()) (\<lambda>_.
     main_step (play Output_Pipe (ans Output_Pipe)) (\<lambda>_.
     main_step (if splash \<noteq> None then play Splash_Pipe (ans Splash_Pipe) else ([], Inr ())) (\<lambda>_.
       (loop_calls events (relay_start (splash \<noteq> None)) @ shut_down (splash \<noteq> None) ans, Main_Ok)))))))"

text \<open>The result, the calls, and whether the usage is printed.\<close>

definition relay_main ::
    "bool \<Rightarrow> string option \<Rightarrow> string list \<Rightarrow> (pipe \<Rightarrow> pipe_answers) \<Rightarrow> bool \<Rightarrow> string option \<Rightarrow>
     relay_event list \<Rightarrow> gst_call list \<times> main_result \<times> bool" where
  "relay_main linux init_error args ans has_bus watch_error events =
     (case init_error of
        Some e \<Rightarrow> ([], Main_Error e, False)
      | None \<Rightarrow>
          (case parse_args linux args of
             Inl e \<Rightarrow> ([], if e = ''help'' then Main_Ok else Main_Error e, True)
           | Inr (listen, input, output, splash) \<Rightarrow>
               (case start_pipelines input output splash ans has_bus watch_error events of
                  (calls, r) \<Rightarrow> (calls, r, False))))"

section \<open>What is left playing\<close>

text \<open>The state a pipeline was last set to with success; it starts in the null state.\<close>

definition state_after :: "pipe \<Rightarrow> gst_call list \<Rightarrow> gst_state \<Rightarrow> gst_state" where
  "state_after p calls =
     fold (\<lambda>c s. case c of Set_State q st ok \<Rightarrow> if q = p \<and> ok then st else s | _ \<Rightarrow> s) calls"

definition last_state :: "pipe \<Rightarrow> gst_call list \<Rightarrow> gst_state" where
  "last_state p calls = state_after p calls State_Null"

lemma state_after_simps [simp]:
  "state_after p [] s = s"
  "state_after p (Set_State q st ok # calls) s = state_after p calls (if q = p \<and> ok then st else s)"
  "state_after p (calls @ calls') s = state_after p calls' (state_after p calls s)"
  by (simp_all add: state_after_def)

lemma last_state_Nil [simp]: "last_state p [] = State_Null"
  by (simp add: last_state_def)

definition quiet :: "gst_call list \<Rightarrow> bool" where
  "quiet calls \<longleftrightarrow> (\<forall>p st ok. Set_State p st ok \<notin> set calls)"

lemma quiet_simps [simp]:
  "quiet []" "quiet (c # calls) \<longleftrightarrow> (\<forall>p st ok. c \<noteq> Set_State p st ok) \<and> quiet calls"
  "quiet (calls @ calls') \<longleftrightarrow> quiet calls \<and> quiet calls'"
  by (auto simp: quiet_def)

lemma state_after_absent: "(\<And>st. Set_State p st True \<notin> set calls) \<Longrightarrow> state_after p calls s = s"
  unfolding state_after_def by (induction calls arbitrary: s) (auto split: gst_call.split)

lemma state_after_quiet: "quiet calls \<Longrightarrow> state_after p calls s = s"
  by (rule state_after_absent) (simp add: quiet_def)

lemma last_state_quiet: "quiet calls \<Longrightarrow> last_state p (calls @ calls') = last_state p calls'"
  by (simp add: last_state_def state_after_quiet)

lemma launch_quiet: "quiet (fst (launch_pipeline p name descr a))"
  by (simp add: launch_pipeline_def split: launched.split)

lemma time_quiet: "quiet (set_pipeline_time p bt a)"
  by (auto simp: set_pipeline_time_def split: option.split)

lemma output_quiet: "quiet (fst (output_pipeline_create descr a))"
  using launch_quiet [of Output_Pipe "''output-pipeline''" descr a]
  by (auto simp: output_pipeline_create_def Let_def time_quiet split: prod.split sum.split)

lemma backend_quiet: "quiet (fst (backend_pipeline_create p name descr bt a))"
  using launch_quiet [of p name descr a]
  by (auto simp: backend_pipeline_create_def Let_def time_quiet split: prod.split sum.split option.split)

text \<open>After the shutdown every pipeline there is has been stopped, if GStreamer stops pipelines when asked.\<close>

lemma state_shut_down:
  "\<forall>p. pa_null (ans p) \<Longrightarrow> state_after p (shut_down has_splash ans) s =
     (if p = Splash_Pipe \<and> \<not> has_splash then s else State_Null)"
  by (cases p) (simp_all add: shut_down_def stop_def)

text \<open>The calls of the main loop follow the states of the relay.\<close>

lemma loop_calls_follow:
  "relay_run es r = Some r1 \<Longrightarrow>
   state_after Input_Pipe (loop_calls es r) (rl_input r) = rl_input r1 \<and>
   (\<forall>sp. rl_splash r = Some sp \<longrightarrow> Some (state_after Splash_Pipe (loop_calls es r) sp) = rl_splash r1)"
proof (induction es arbitrary: r)
  case (Cons e es)
  then obtain r2 where r2: "relay_exec e r = Some r2" "relay_run es r2 = Some r1" by (auto split: option.splits)
  have "state_after Input_Pipe (event_calls e r) (rl_input r) = rl_input r2 \<and>
      (\<forall>sp. rl_splash r = Some sp \<longrightarrow> Some (state_after Splash_Pipe (event_calls e r) sp) = rl_splash r2)"
    using r2(1) by (cases e) (auto simp: event_calls_def closure_defs split: if_splits list.splits option.splits)
  then show ?case using Cons.IH [OF r2(2)] r2(1) by (auto split: option.splits)
qed simp

lemma loop_calls_no_splash: "rl_splash r = None \<Longrightarrow> Set_State Splash_Pipe st ok \<notin> set (loop_calls es r)"
proof (induction es arbitrary: r)
  case (Cons e es)
  have "rl_splash r1 = None" if "relay_exec e r = Some r1" for r1
    using that Cons.prems by (cases e) (auto simp: closure_defs split: if_splits list.splits option.splits)
  moreover have "Set_State Splash_Pipe st ok \<notin> set (event_calls e r)"
    using Cons.prems by (auto simp: event_calls_def split: relay_event.splits list.splits option.splits)
  ultimately show ?case using Cons by (auto split: option.splits)
qed simp

lemma last_state_run:
  assumes "\<forall>p. pa_null (ans p)" and "p = Splash_Pipe \<and> \<not> has_splash \<Longrightarrow> \<forall>st. Set_State p st True \<notin> set pre"
  shows "last_state p (pre @ loop_calls es (relay_start has_splash) @ shut_down has_splash ans) = State_Null"
proof (cases "p = Splash_Pipe \<and> \<not> has_splash")
  case True
  then have "Set_State p st True \<notin> set (pre @ loop_calls es (relay_start has_splash) @ shut_down has_splash ans)" for st
    using assms(2) loop_calls_no_splash [of "relay_start has_splash" st True es]
    by (simp add: relay_start_def shut_down_def stop_def)
  then show ?thesis unfolding last_state_def by (rule state_after_absent)
next
  case False
  then have "state_after p (shut_down has_splash ans) s = State_Null" for s
    using state_shut_down [OF assms(1)] by (simp only: if_False)
  then show ?thesis by (simp add: last_state_def)
qed

text \<open>From the moment everything is built.\<close>

definition run_pipelines ::
    "string option \<Rightarrow> (pipe \<Rightarrow> pipe_answers) \<Rightarrow> relay_event list \<Rightarrow> gst_call list \<times> main_result" where
  "run_pipelines splash ans events =
     main_step (play Output_Pipe (ans Output_Pipe)) (\<lambda>_.
     main_step (if splash \<noteq> None then play Splash_Pipe (ans Splash_Pipe) else ([], Inr ())) (\<lambda>_.
       (loop_calls events (relay_start (splash \<noteq> None)) @ shut_down (splash \<noteq> None) ans, Main_Ok)))"

definition build_failed :: "gst_call list \<times> main_result \<Rightarrow> bool" where
  "build_failed m \<longleftrightarrow> snd m \<noteq> Main_Ok \<and> quiet (fst m)"

text \<open>Either the building failed, or it was followed by \<open>run\<close>.\<close>

definition built :: "gst_call list \<times> main_result \<Rightarrow> gst_call list \<times> main_result \<Rightarrow> bool" where
  "built run m \<longleftrightarrow> build_failed m \<or> (\<exists>pre. quiet pre \<and> m = (pre @ fst run, snd run))"

lemma built_run [simp]: "built run run"
  unfolding built_def by (metis append_Nil prod.collapse quiet_simps(1))

lemma built_step:
  assumes "quiet (fst step)" "built run (rest ())"
  shows "built run (main_step step rest)"
proof (cases step)
  case (Pair calls r)
  show ?thesis
  proof (cases r)
    case (Inl e)
    then show ?thesis using assms(1) by (simp add: Pair main_step_def built_def build_failed_def)
  next
    case (Inr u)
    then have m: "main_step (calls, r) rest = (calls @ fst (rest ()), snd (rest ()))"
      by (simp add: main_step_def split: prod.split)
    from assms(2) consider "build_failed (rest ())"
      | pre where "quiet pre" "rest () = (pre @ fst run, snd run)" by (auto simp: built_def)
    then show ?thesis
    proof cases
      case 1
      then show ?thesis using assms(1) by (simp add: Pair m built_def build_failed_def)
    next
      case 2
      then have "quiet (calls @ pre)" "main_step (calls, r) rest = ((calls @ pre) @ fst run, snd run)"
        using assms(1) by (simp_all add: Pair m)
      then show ?thesis unfolding built_def Pair by blast
    qed
  qed
qed

lemma start_pipelines_built:
  "built (run_pipelines splash ans events) (start_pipelines input output splash ans has_bus watch_error events)"
  unfolding start_pipelines_def Let_def run_pipelines_def [symmetric]
  by (intro built_step output_quiet backend_quiet)
    (auto simp: backend_quiet built_def [of _ "([], Main_Panic)"] build_failed_def split: option.split
      intro!: built_step)

lemma run_pipelines_eq:
  "run_pipelines splash ans events =
     (let out = Set_State Output_Pipe State_Playing; spl = Set_State Splash_Pipe State_Playing
      in case pa_playing (ans Output_Pipe) of
           Some e \<Rightarrow> ([out False], Main_Error e)
         | None \<Rightarrow>
             if splash = None
             then ([out True] @ loop_calls events (relay_start False) @ shut_down False ans, Main_Ok)
             else case pa_playing (ans Splash_Pipe) of
                    Some e \<Rightarrow> ([out True, spl False], Main_Error e)
                  | None \<Rightarrow> ([out True, spl True] @ loop_calls events (relay_start True) @ shut_down True ans, Main_Ok))"
  by (auto simp: run_pipelines_def main_step_def play_def Let_def split: option.split)

lemma run_pipelines_left:
  assumes "run_pipelines splash ans events = (calls, r)"
  shows "r \<noteq> Main_Ok \<Longrightarrow> calls = [Set_State Output_Pipe State_Playing False] \<or>
      calls = [Set_State Output_Pipe State_Playing True, Set_State Splash_Pipe State_Playing False]"
    "\<forall>p. pa_null (ans p) \<Longrightarrow> r = Main_Ok \<Longrightarrow> last_state p calls = State_Null"
proof -
  note eq = assms [unfolded run_pipelines_eq Let_def]
  show "r \<noteq> Main_Ok \<Longrightarrow> calls = [Set_State Output_Pipe State_Playing False] \<or>
      calls = [Set_State Output_Pipe State_Playing True, Set_State Splash_Pipe State_Playing False]"
    using eq by (auto split: option.splits if_splits)
  show "last_state p calls = State_Null" if "\<forall>p. pa_null (ans p)" "r = Main_Ok"
    using eq that(2)
      last_state_run [OF that(1), of p True "[Set_State Output_Pipe State_Playing True, Set_State Splash_Pipe State_Playing True]" events]
      last_state_run [OF that(1), of p False "[Set_State Output_Pipe State_Playing True]" events]
    by (auto split: option.splits if_splits)
qed

text \<open>
  C38: what the relay leaves playing, where a pipeline plays if \<open>Playing\<close> is the state it was last set
  to with success, and setting it to the null state succeeds. If \<open>main\<close> returns normally, every
  pipeline has been stopped. If it does not, a pipeline is left playing exactly when the output was
  started, and then it is the output, which \<open>main\<close> does not stop when the splash pipeline will not
  start. An output that will not start leaves nothing playing.
\<close>

theorem relay_main_stops:
  assumes "relay_main linux init_error args ans has_bus watch_error events = (calls, r, u)"
    and "\<forall>p. pa_null (ans p)"
  shows "(r = Main_Ok \<longrightarrow> (\<forall>p. last_state p calls = State_Null)) \<and>
    (r \<noteq> Main_Ok \<longrightarrow> (\<forall>p. last_state p calls = State_Playing \<longleftrightarrow>
       p = Output_Pipe \<and> Set_State Output_Pipe State_Playing True \<in> set calls) \<and>
      (Set_State Output_Pipe State_Playing True \<in> set calls \<longleftrightarrow> Set_State Splash_Pipe State_Playing False \<in> set calls))"
proof -
  consider (none) "calls = []" | (start) inp out splash where
    "start_pipelines inp out splash ans has_bus watch_error events = (calls, r)"
    using assms(1) by (auto simp: relay_main_def split: option.splits sum.splits prod.splits)
  then show ?thesis
  proof cases
    case none
    then show ?thesis by simp
  next
    case start
    from start_pipelines_built [of splash ans events inp out has_bus watch_error]
    consider "build_failed (calls, r)"
      | pre later where "quiet pre" "calls = pre @ later" "run_pipelines splash ans events = (later, r)"
      by (auto simp: start built_def)
    then show ?thesis
    proof cases
      case 1
      then have "r \<noteq> Main_Ok" "quiet calls" by (simp_all add: build_failed_def)
      moreover from this have "last_state p calls = State_Null" for p by (simp add: last_state_def state_after_quiet)
      ultimately show ?thesis by (simp add: quiet_def)
    next
      case 2
      have "last_state p calls = last_state p later" for p by (simp add: 2(1,2) last_state_quiet)
      moreover have "Set_State p st ok \<in> set calls \<longleftrightarrow> Set_State p st ok \<in> set later" for p st ok
        using 2(1) by (auto simp: 2(2) quiet_def)
      ultimately show ?thesis
        using run_pipelines_left(1) [OF 2(3)] run_pipelines_left(2) [OF 2(3) assms(2)]
        by (cases "r = Main_Ok") (auto simp: last_state_def split: if_splits)
    qed
  qed
qed

section \<open>One time line for all pipelines\<close>

lemma time_calls:
  "Base_Time q b \<in> set (set_pipeline_time p bt a) \<longleftrightarrow>
     q = p \<and> Some b = (case bt of Some x \<Rightarrow> Some x | None \<Rightarrow> pa_clock a)"
  by (auto simp: set_pipeline_time_def split: option.split)

lemma launch_no_time: "Base_Time q b \<notin> set (fst (launch_pipeline p name descr a))"
  by (simp add: launch_pipeline_def split: launched.split)

lemma output_time:
  assumes "output_pipeline_create descr a = (calls, Inr u)"
  shows "Base_Time q b \<in> set calls \<longleftrightarrow> q = Output_Pipe \<and> pa_clock a = Some b"
  using assms launch_no_time [of q b Output_Pipe "''output-pipeline''" descr a]
  by (auto simp: output_pipeline_create_def Let_def time_calls split: prod.splits sum.splits if_splits)

lemma backend_time:
  assumes "backend_pipeline_create p name descr bt a = (calls, Inr u)"
  shows "Base_Time q b \<in> set calls \<longleftrightarrow> q = p \<and> Some b = (case bt of Some x \<Rightarrow> Some x | None \<Rightarrow> pa_clock a)"
  using assms launch_no_time [of q b p name descr a]
  by (auto simp: backend_pipeline_create_def Let_def time_calls split: prod.splits sum.splits if_splits option.splits)

lemma loop_no_time: "Base_Time q b \<notin> set (loop_calls es r)"
  by (induction es arbitrary: r)
    (auto simp: event_calls_def split: option.splits relay_event.splits list.splits)

lemma run_no_time: "Base_Time q b \<notin> set (fst (run_pipelines splash ans events))"
  by (auto simp: run_pipelines_eq Let_def loop_no_time shut_down_def stop_def split: option.split)

lemma main_step_Ok:
  assumes "main_step step rest = (calls, Main_Ok)"
  obtains c1 u c2 where "step = (c1, Inr u)" "rest () = (c2, Main_Ok)" "calls = c1 @ c2"
  using assms by (auto simp: main_step_def split: prod.splits sum.splits)

text \<open>
  All pipelines keep one time line.  When the relay has come up, the input pipeline and the splash
  pipeline, if there is one, have each been given the base time that the output has, and no other
  (the time of the clock when the output was built).
\<close>

lemma relay_base_time:
  assumes "relay_main linux init_error args ans has_bus watch_error events = (calls, Main_Ok, False)"
    and "parse_args linux args = Inr (listen, inp, out, splash)"
    and "output_base_time (ans Output_Pipe) = Some bt"
  shows "(\<forall>b. Base_Time Input_Pipe b \<in> set calls \<longleftrightarrow> b = bt) \<and>
    (\<forall>b. Base_Time Splash_Pipe b \<in> set calls \<longleftrightarrow> splash \<noteq> None \<and> b = bt) \<and>
    (\<forall>b. Base_Time Output_Pipe b \<in> set calls \<longleftrightarrow> pa_clock (ans Output_Pipe) = Some b)"
proof -
  have "start_pipelines inp out splash ans has_bus watch_error events = (calls, Main_Ok)"
    using assms(1,2) by (auto simp: relay_main_def split: option.splits prod.splits)
  from this [unfolded start_pipelines_def Let_def run_pipelines_def [symmetric] assms(3)]
  obtain c1 c2 c3 c4 u1 u2 u3 where c: "output_pipeline_create out (ans Output_Pipe) = (c1, Inr u1)"
    "backend_pipeline_create Input_Pipe ''input-pipeline'' inp (Some bt) (ans Input_Pipe) = (c2, Inr u2)"
    "(case splash of
        Some s \<Rightarrow> backend_pipeline_create Splash_Pipe ''splash-pipeline'' s (Some bt) (ans Splash_Pipe)
      | None \<Rightarrow> ([], Inr ())) = (c3, Inr u3)"
    "(if \<not> has_bus then ([], Main_Panic)
      else main_step ([], case watch_error of None \<Rightarrow> Inr () | Some e \<Rightarrow> Inl e) (\<lambda>_. run_pipelines splash ans events))
       = (c4, Main_Ok)" "calls = c1 @ c2 @ c3 @ c4"
    by (elim main_step_Ok) auto
  have c4: "Base_Time q b \<notin> set c4" for q b
    using c(4) run_no_time [of q b splash ans events] by (auto elim!: main_step_Ok split: if_splits)
  have c3: "Base_Time q b \<in> set c3 \<longleftrightarrow> splash \<noteq> None \<and> q = Splash_Pipe \<and> b = bt" for q b
    using c(3) backend_time [of Splash_Pipe _ _ "Some bt" _ c3 u3 q b] by (cases splash) auto
  show ?thesis
    using c4 c3 output_time [OF c(1)] backend_time [OF c(2)] by (simp add: c(5))
qed

section \<open>Concrete instances\<close>

definition good_answers :: pipe_answers where
  "good_answers = \<lparr>pa_launch = Launch_Pipeline, pa_add_element = None, pa_clock = Some 500, pa_base_time = Some 0,
     pa_appsrc = True, pa_src_pad = True, pa_add_sink = None, pa_sink_pad = True, pa_link = True, pa_playing = None, pa_null = True\<rparr>"

definition demo_args :: "string list" where
  "demo_args = [''--input'', ''a'', ''--output'', ''b'', ''--splash'', ''c'', ''--listen'', ''tcp://:80'']"

lemma demo_args_parsed: "parse_args True demo_args = Inr (Tcp ''0.0.0.0'' 80, ''a'', ''b'', Some ''c'')"
proof -
  have n: "normalize_pipeline ''a'' = ''a''" "normalize_pipeline ''b'' = ''b''" "normalize_pipeline ''c'' = ''c''"
    by code_simp+
  show ?thesis by (simp add: demo_args_def parse_args_def default_args_def value_option_def demo_listen n)
qed

text \<open>A splash pipeline that does not start.\<close>

definition splash_fails :: "pipe \<Rightarrow> pipe_answers" where
  "splash_fails p = (if p = Splash_Pipe then good_answers\<lparr>pa_playing := Some ''no''\<rparr> else good_answers)"

lemmas daemon_defs = relay_main_def start_pipelines_def main_step_def output_pipeline_create_def
  backend_pipeline_create_def launch_pipeline_def set_pipeline_time_def output_base_time_def play_def
  good_answers_def Let_def

theorem relay_main_stops_witness:
  "\<exists>calls. relay_main True None demo_args splash_fails True None [] = (calls, Main_Error ''no'', False) \<and>
     last_state Output_Pipe calls = State_Playing \<and> last_state Splash_Pipe calls = State_Null"
proof -
  obtain calls where c: "relay_main True None demo_args splash_fails True None [] = (calls, Main_Error ''no'', False)"
    and p: "Set_State Output_Pipe State_Playing True \<in> set calls"
    by (simp add: daemon_defs demo_args_parsed splash_fails_def)
  have n: "\<forall>p. pa_null (splash_fails p)" by (simp add: splash_fails_def good_answers_def)
  have "last_state p calls = State_Playing \<longleftrightarrow> p = Output_Pipe" for p
    using relay_main_stops [OF c n] p by simp
  then show ?thesis using c by (metis gst_state.exhaust pipe.distinct(3))
qed

end
