(* ===== verification/Elements.thy ===== *)
theory Elements
  imports Source Sink Text
begin

text \<open>
  What the plugin declares to GStreamer: the properties of the two elements (\<open>properties\<close> of
  \<open>src/src/shm2src.rs\<close> and \<open>src/src/shm2sink.rs\<close>), their classes and registration (\<open>src/src/lib.rs\<close>), the
  clocks they read, and the texts of the errors both put into their messages
  (\<open>src/src/platform/mod.rs\<close>). The lemmas show that what is declared is what the elements do.
\<close>

section \<open>Declared properties\<close>

text \<open>
  A \<open>glib::ParamSpec\<close>: the type is that of the default; an unsigned integer has a range, which without
  \<open>minimum\<close> or \<open>maximum\<close> is that of its type. All of them may be changed up to the ready state.
\<close>

record param_spec =
  ps_name :: string
  ps_nick :: string
  ps_blurb :: string
  ps_default :: gvalue
  ps_min :: nat
  ps_max :: nat

definition string_param :: "string \<Rightarrow> string \<Rightarrow> string \<Rightarrow> string \<Rightarrow> param_spec" where
  "string_param name nick blurb v =
     \<lparr>ps_name = name, ps_nick = nick, ps_blurb = blurb, ps_default = V_String (Some v), ps_min = 0, ps_max = 0\<rparr>"

definition bool_param :: "string \<Rightarrow> string \<Rightarrow> string \<Rightarrow> bool \<Rightarrow> param_spec" where
  "bool_param name nick blurb v =
     \<lparr>ps_name = name, ps_nick = nick, ps_blurb = blurb, ps_default = V_Bool v, ps_min = 0, ps_max = 0\<rparr>"

definition u64_param :: "string \<Rightarrow> string \<Rightarrow> string \<Rightarrow> u64 \<Rightarrow> param_spec" where
  "u64_param name nick blurb v =
     \<lparr>ps_name = name, ps_nick = nick, ps_blurb = blurb, ps_default = V_U64 v, ps_min = 0,
      ps_max = 2 ^ 64 - 1\<rparr>"

definition u32_param :: "string \<Rightarrow> string \<Rightarrow> string \<Rightarrow> u32 \<Rightarrow> nat \<Rightarrow> nat \<Rightarrow> param_spec" where
  "u32_param name nick blurb v lo hi =
     \<lparr>ps_name = name, ps_nick = nick, ps_blurb = blurb, ps_default = V_U32 v, ps_min = lo, ps_max = hi\<rparr>"

definition sink_properties :: "target \<Rightarrow> param_spec list" where
  "sink_properties os =
     [string_param ''shm-path'' ''SHM path'' ''Path of shared memory file'' (SINK_DEFAULT_PATH os),
      u64_param ''shm-size'' ''SHM size'' ''Size of shared memory region'' (64 * 1024 * 1024),
      u32_param ''perms'' ''Permissions'' ''Permissions of shared memory file'' 432 0 4095,
      u32_param ''timeline-beacon-ms'' ''Timeline beacon''
        ''Timeline synchronization beacon period in milliseconds'' 250 1 60000]"

definition src_properties :: "param_spec list" where
  "src_properties =
     [string_param ''shm-path'' ''SHM path'' ''Path of shared memory file'' ''/dev/shm/gst-shm2-default'',
      bool_param ''is-live'' ''Live'' ''Act like a live source'' False,
      bool_param ''live-only'' ''Live only''
        ''On attach/re-attach, restart output timeline from current running time'' True,
      bool_param ''latest-only'' ''Latest only''
        ''Always take newest available frame and drop older queued frames'' True]"

text \<open>A value of the declared type and range.\<close>

definition spec_accepts :: "param_spec \<Rightarrow> gvalue \<Rightarrow> bool" where
  "spec_accepts p v \<longleftrightarrow>
     (case (ps_default p, v) of
        (V_String _, V_String (Some _)) \<Rightarrow> True
      | (V_Bool _, V_Bool _) \<Rightarrow> True
      | (V_U64 _, V_U64 n) \<Rightarrow> ps_min p \<le> unat n \<and> unat n \<le> ps_max p
      | (V_U32 _, V_U32 n) \<Rightarrow> ps_min p \<le> unat n \<and> unat n \<le> ps_max p
      | _ \<Rightarrow> False)"

lemmas param_defs = string_param_def bool_param_def u64_param_def u32_param_def

text \<open>Writes of properties, one after the other.\<close>

fun write_all :: "(string \<Rightarrow> gvalue \<Rightarrow> 's \<Rightarrow> 's res) \<Rightarrow> (param_spec \<times> gvalue) list \<Rightarrow> 's \<Rightarrow> 's res" where
  "write_all set_value [] s = Ok s"
| "write_all set_value ((p, v) # ws) s = res_bind (set_value (ps_name p) v s) (write_all set_value ws)"

text \<open>The contract between a declaration and the code behind it.\<close>

locale declared_properties =
  fixes specs :: "param_spec list"
    and defaults :: "'s"
    and set_value :: "string \<Rightarrow> gvalue \<Rightarrow> 's \<Rightarrow> 's res"
    and get_value :: "string \<Rightarrow> 's \<Rightarrow> gvalue res"
  assumes default_declared: "p \<in> set specs \<Longrightarrow> get_value (ps_name p) defaults = Ok (ps_default p)"
    and default_accepted: "p \<in> set specs \<Longrightarrow> spec_accepts p (ps_default p)"
    and accepted_set: "p \<in> set specs \<Longrightarrow> spec_accepts p v \<Longrightarrow>
      \<exists>s'. set_value (ps_name p) v s = Ok s' \<and> get_value (ps_name p) s' = Ok v \<and>
        (\<forall>q\<in>set specs. ps_name q \<noteq> ps_name p \<longrightarrow> get_value (ps_name q) s' = get_value (ps_name q) s)"
    and only_declared: "set_value name v s = Panic \<longleftrightarrow> name \<notin> ps_name ` set specs"
    and distinct_names: "distinct (map ps_name specs)"
begin

text \<open>Each property reads as last written.\<close>

lemma write_all_reads:
  assumes "\<forall>(p, v)\<in>set ws. p \<in> set specs \<and> spec_accepts p v" and "p \<in> set specs"
  shows "\<exists>s'. write_all set_value ws s = Ok s' \<and>
    get_value (ps_name p) s' =
      (case map_of (rev ws) p of Some v \<Rightarrow> Ok v | None \<Rightarrow> get_value (ps_name p) s)"
  using assms(1)
proof (induction ws arbitrary: s)
  case Nil
  then show ?case by simp
next
  case (Cons w ws)
  obtain q v where w: "w = (q, v)" by force
  have q: "q \<in> set specs" "spec_accepts q v" using Cons.prems by (simp_all add: w)
  from accepted_set [OF q] obtain s1 where s1: "set_value (ps_name q) v s = Ok s1"
    "get_value (ps_name q) s1 = Ok v"
    "\<forall>p\<in>set specs. ps_name p \<noteq> ps_name q \<longrightarrow> get_value (ps_name p) s1 = get_value (ps_name p) s" by blast
  from Cons obtain s' where s': "write_all set_value ws s1 = Ok s'"
    "get_value (ps_name p) s' = (case map_of (rev ws) p of Some v \<Rightarrow> Ok v | None \<Rightarrow> get_value (ps_name p) s1)"
    by (metis list.set_intros(2))
  have "p = q \<or> ps_name p \<noteq> ps_name q"
    using distinct_names assms(2) q(1) by (metis distinct_map inj_onD)
  then have "get_value (ps_name p) s1 = (if p = q then Ok v else get_value (ps_name p) s)"
    using s1(2,3) assms(2) by auto
  then show ?case
    using s' by (auto simp: w s1(1) map_add_def split: option.splits)
qed

end

interpretation sink_declared: declared_properties "sink_properties os" "default_sink_settings os"
  "sink_set_property os" sink_property
proof unfold_locales
  fix p v s name
  have at_least_1: "max n 1 = n" if "Suc 0 \<le> unat n" for n :: u32
    using that by (simp add: max_def word_le_nat_alt) (metis One_nat_def le_antisym not_less_eq_eq unat_1 word_unat_eq_iff)
  show "p \<in> set (sink_properties os) \<Longrightarrow> sink_property (ps_name p) (default_sink_settings os) = Ok (ps_default p)"
    by (auto simp: sink_properties_def param_defs sink_property_def default_sink_settings_def)
  show "p \<in> set (sink_properties os) \<Longrightarrow> spec_accepts p (ps_default p)"
    by (auto simp: sink_properties_def param_defs spec_accepts_def)
  show "p \<in> set (sink_properties os) \<Longrightarrow> spec_accepts p v \<Longrightarrow>
      \<exists>s'. sink_set_property os (ps_name p) v s = Ok s' \<and> sink_property (ps_name p) s' = Ok v \<and>
        (\<forall>q\<in>set (sink_properties os). ps_name q \<noteq> ps_name p \<longrightarrow>
           sink_property (ps_name q) s' = sink_property (ps_name q) s)"
    by (auto simp: sink_properties_def param_defs spec_accepts_def sink_set_property_def sink_property_def
        at_least_1 split: gvalue.splits option.splits)
  show "sink_set_property os name v s = Panic \<longleftrightarrow> name \<notin> ps_name ` set (sink_properties os)"
    by (simp add: sink_properties_def param_defs sink_set_property_def)
  show "distinct (map ps_name (sink_properties os))"
    by (simp add: sink_properties_def param_defs)
qed

text \<open>The source's setter also tells the base class whether the element is live.\<close>

definition src_set_settings :: "string \<Rightarrow> gvalue \<Rightarrow> src_settings \<Rightarrow> src_settings res" where
  "src_set_settings name v s = res_bind (src_set_property name v s) (\<lambda>r. Ok (fst r))"

interpretation src_declared: declared_properties src_properties default_src_settings
  src_set_settings src_property
proof unfold_locales
  fix p v s name
  show "p \<in> set src_properties \<Longrightarrow> src_property (ps_name p) default_src_settings = Ok (ps_default p)"
    by (auto simp: src_properties_def param_defs src_property_def default_src_settings_def)
  show "p \<in> set src_properties \<Longrightarrow> spec_accepts p (ps_default p)"
    by (auto simp: src_properties_def param_defs spec_accepts_def)
  show "p \<in> set src_properties \<Longrightarrow> spec_accepts p v \<Longrightarrow>
      \<exists>s'. src_set_settings (ps_name p) v s = Ok s' \<and> src_property (ps_name p) s' = Ok v \<and>
        (\<forall>q\<in>set src_properties. ps_name q \<noteq> ps_name p \<longrightarrow> src_property (ps_name q) s' = src_property (ps_name q) s)"
    by (auto simp: src_properties_def param_defs spec_accepts_def src_set_settings_def src_set_property_def
        src_property_def split: gvalue.splits option.splits)
  show "src_set_settings name v s = Panic \<longleftrightarrow> name \<notin> ps_name ` set src_properties"
    by (simp add: src_properties_def param_defs src_set_settings_def src_set_property_def)
  show "distinct (map ps_name src_properties)"
    by (simp add: src_properties_def param_defs)
qed

text \<open>
  C40: the elements keep what they declare. For both elements every declared property starts at its
  declared default; after any sequence of writes of values of the declared type and range each
  property reads as last written, and one that was not written as before; and a name panics exactly
  when it is not declared.
\<close>

theorem declared_properties_hold:
  "(\<forall>p\<in>set (sink_properties os). sink_property (ps_name p) (default_sink_settings os) = Ok (ps_default p)) \<and>
   (\<forall>p\<in>set src_properties. src_property (ps_name p) default_src_settings = Ok (ps_default p)) \<and>
   (\<forall>ws s. \<forall>p\<in>set (sink_properties os).
      (\<forall>(q, v)\<in>set ws. q \<in> set (sink_properties os) \<and> spec_accepts q v) \<longrightarrow>
      (\<exists>s'. write_all (sink_set_property os) ws s = Ok s' \<and>
         sink_property (ps_name p) s' =
           (case map_of (rev ws) p of Some v \<Rightarrow> Ok v | None \<Rightarrow> sink_property (ps_name p) s))) \<and>
   (\<forall>ws s. \<forall>p\<in>set src_properties.
      (\<forall>(q, v)\<in>set ws. q \<in> set src_properties \<and> spec_accepts q v) \<longrightarrow>
      (\<exists>s'. write_all src_set_settings ws s = Ok s' \<and>
         src_property (ps_name p) s' =
           (case map_of (rev ws) p of Some v \<Rightarrow> Ok v | None \<Rightarrow> src_property (ps_name p) s))) \<and>
   (\<forall>name v s t. (sink_set_property os name v s = Panic \<longleftrightarrow> name \<notin> ps_name ` set (sink_properties os)) \<and>
      (src_set_settings name v t = Panic \<longleftrightarrow> name \<notin> ps_name ` set src_properties))"
  using sink_declared.default_declared src_declared.default_declared sink_declared.write_all_reads
    src_declared.write_all_reads sink_declared.only_declared src_declared.only_declared
  by (intro conjI ballI allI impI) blast+

theorem declared_properties_hold_witness:
  "\<exists>s'. write_all (sink_set_property Unix)
       [(u32_param ''perms'' ''Permissions'' ''Permissions of shared memory file'' 432 0 4095, V_U32 384)]
       (default_sink_settings Unix) = Ok s' \<and> sink_property ''perms'' s' = Ok (V_U32 384)"
proof -
  let ?p = "u32_param ''perms'' ''Permissions'' ''Permissions of shared memory file'' 432 0 4095"
  let ?ws = "[(?p, V_U32 384)]"
  have p: "?p \<in> set (sink_properties Unix)" by (simp add: sink_properties_def)
  have n: "ps_name ?p = ''perms''" by (simp add: u32_param_def)
  have "\<forall>(q, v)\<in>set ?ws. q \<in> set (sink_properties Unix) \<and> spec_accepts q v"
    using p by (simp add: spec_accepts_def u32_param_def)
  then have "\<exists>s'. write_all (sink_set_property Unix) ?ws (default_sink_settings Unix) = Ok s' \<and>
      sink_property (ps_name ?p) s' =
        (case map_of (rev ?ws) ?p of Some v \<Rightarrow> Ok v | None \<Rightarrow> sink_property (ps_name ?p) (default_sink_settings Unix))"
    using declared_properties_hold [of Unix] p by blast
  then show ?thesis by (simp add: n)
qed

section \<open>Classes and registration\<close>

datatype pad_direction = Pad_Src | Pad_Sink

text \<open>Type name, parent class, metadata, and the name and direction of the one pad, always present, any caps.\<close>

record element_class =
  ec_type_name :: string
  ec_parent :: string
  ec_long_name :: string
  ec_klass :: string
  ec_description :: string
  ec_author :: string
  ec_pad :: "string \<times> pad_direction"

definition sink_class :: element_class where
  "sink_class =
     \<lparr>ec_type_name = ''GstShm2Sink'', ec_parent = ''GstBaseSink'', ec_long_name = ''SHM2 Sink'',
      ec_klass = ''Sink'', ec_description = ''Send data over SHM-only transport'', ec_author = ''shm2-rs'',
      ec_pad = (''sink'', Pad_Sink)\<rparr>"

definition src_class :: element_class where
  "src_class =
     \<lparr>ec_type_name = ''GstShm2Src'', ec_parent = ''GstPushSrc'', ec_long_name = ''SHM2 Source'',
      ec_klass = ''Source'', ec_description = ''Receive data from SHM-only transport'', ec_author = ''shm2-rs'',
      ec_pad = (''src'', Pad_Src)\<rparr>"

text \<open>
  \<open>Element::register\<close> is a parameter: the error it gives for a name and a class, if any. The result
  is what has been registered, with the error of the one that failed.
\<close>

definition plugin_init ::
    "(string \<Rightarrow> element_class \<Rightarrow> string option) \<Rightarrow> (string \<times> element_class) list \<times> string option" where
  "plugin_init register_error =
     (case register_error ''shm2sink'' sink_class of
        Some e \<Rightarrow> ([], Some e)
      | None \<Rightarrow>
          (case register_error ''shm2src'' src_class of
             Some e \<Rightarrow> ([(''shm2sink'', sink_class)], Some e)
           | None \<Rightarrow> ([(''shm2sink'', sink_class), (''shm2src'', src_class)], None)))"

text \<open>All or a prefix: without an error both elements can be made, each under its own name and type.\<close>

lemma plugin_init_registers:
  assumes "plugin_init f = (made, r)"
  shows "distinct (map fst made)" "distinct (map (ec_type_name \<circ> snd) made)"
    "\<forall>(name, c)\<in>set made. f name c = None" "r = None \<longleftrightarrow> length made = 2"
proof -
  have names: "ec_type_name sink_class \<noteq> ec_type_name src_class" by (simp add: sink_class_def src_class_def)
  show "distinct (map fst made)" "distinct (map (ec_type_name \<circ> snd) made)"
    "\<forall>(name, c)\<in>set made. f name c = None" "r = None \<longleftrightarrow> length made = 2"
    using assms names
    by (cases "f ''shm2sink'' sink_class"; cases "f ''shm2src'' src_class"; auto simp: plugin_init_def)+
qed

section \<open>Clocks\<close>

text \<open>Nanoseconds since the epoch, if the system clock is not before it.\<close>

definition now_nanos :: "nat option \<Rightarrow> u64" where
  "now_nanos since_epoch = (case since_epoch of Some ns \<Rightarrow> of_nat ns | None \<Rightarrow> 0)"

text \<open>
  This is the wall clock. While it has not come past the time of the last beacon, because it was set
  back, no beacon is due.
\<close>

lemma set_back_clock_stops_beacons:
  assumes "now_nanos t \<le> w_last_timeline_emit_ns w" "0 < w_timeline_beacon_ns w"
    and "h_timeline_gen w = w_last_timeline_snapshot_gen w"
  shows "maybe_publish_timeline_snapshot (now_nanos t, now') pts rh w = w"
proof -
  have "unat (saturating_sub (now_nanos t) (w_last_timeline_emit_ns w)) = 0"
    using assms(1) by (simp add: unat_saturating_sub word_le_nat_alt)
  then have "saturating_sub (now_nanos t) (w_last_timeline_emit_ns w) = 0" by (simp add: unat_eq_zero)
  with assms(2,3) show ?thesis by (simp add: maybe_publish_timeline_snapshot_def Let_def)
qed

text \<open>The element's clock with its time, and the base time, as far as there are any.\<close>

definition current_running_time_ns :: "u64 option option \<Rightarrow> u64 option \<Rightarrow> u64 option" where
  "current_running_time_ns clock base_time =
     (case clock of
        Some (Some now) \<Rightarrow> (case base_time of Some base \<Rightarrow> Some (saturating_sub now base) | None \<Rightarrow> None)
      | _ \<Rightarrow> None)"

lemma current_running_time_not_negative:
  "current_running_time_ns clock base_time = Some t \<Longrightarrow>
   \<exists>now base. clock = Some (Some now) \<and> base_time = Some base \<and> unat t = unat now - unat base"
  by (auto simp: current_running_time_ns_def unat_saturating_sub split: option.splits)

section \<open>Texts of errors\<close>

text \<open>\<open>Display\<close> of \<open>ShmError\<close>; the text of an operating system error is a parameter.\<close>

primrec show_error :: "(int \<Rightarrow> string) \<Rightarrow> shm_error \<Rightarrow> string" where
  "show_error io_text (Io e) = ''io error: '' @ io_text e"
| "show_error io_text (InvalidConfig s) = ''invalid config: '' @ s"
| "show_error io_text (InvalidBackendSpec s) = ''invalid backend spec: '' @ s"
| "show_error io_text (UnsupportedBackend s) = ''unsupported backend: '' @ s"
| "show_error io_text (Protocol s) = ''protocol error: '' @ s"
| "show_error io_text Exhausted = ''allocator exhausted''"
| "show_error io_text NoConsumer = ''no active consumer connected''"
| "show_error io_text RingFull = ''ring full''"
| "show_error io_text RingEmpty = ''ring empty''"

text \<open>A message tells the error: two different errors never have the same text.\<close>

lemma show_error_inj:
  assumes "inj io_text" "show_error io_text e = show_error io_text e'"
  shows "e = e'"
  using assms by (cases e; cases e') (auto dest: injD)

end
