(* ===== verification/Windows_Backends.thy ===== *)
theory Windows_Backends
  imports Leases Platform
begin

text \<open>
  The Windows backends: named file mappings (\<open>src/src/platform/windows_named.rs\<close>) and the ivshmem
  device (\<open>src/src/platform/windows_ivshmem.rs\<close>). The answers of the Windows API are parameters and
  the calls are recorded in order with what they returned, so that the lemmas can say which handles
  and views are left over. A character of a name is a code point below 256.
\<close>

unbundle bit_operations_syntax

section \<open>The Windows API\<close>

record ivshmem_mmap =
  im_peer_id :: u16
  im_size :: u64
  im_ptr :: usize
  im_vectors :: u16

definition ctl_code :: "u32 \<Rightarrow> u32 \<Rightarrow> u32 \<Rightarrow> u32 \<Rightarrow> u32" where
  "ctl_code device_type function_code method access_mode =
     push_bit 16 device_type OR push_bit 14 access_mode OR push_bit 2 function_code OR method"

definition FILE_DEVICE_UNKNOWN :: u32 where "FILE_DEVICE_UNKNOWN = 0x22"
definition METHOD_BUFFERED :: u32 where "METHOD_BUFFERED = 0"
definition FILE_ANY_ACCESS :: u32 where "FILE_ANY_ACCESS = 0"
definition IVSHMEM_CACHE_CACHED :: u8 where "IVSHMEM_CACHE_CACHED = 1"

definition IOCTL_IVSHMEM_REQUEST_SIZE :: u32 where
  "IOCTL_IVSHMEM_REQUEST_SIZE = ctl_code FILE_DEVICE_UNKNOWN 0x801 METHOD_BUFFERED FILE_ANY_ACCESS"
definition IOCTL_IVSHMEM_REQUEST_MMAP :: u32 where
  "IOCTL_IVSHMEM_REQUEST_MMAP = ctl_code FILE_DEVICE_UNKNOWN 0x802 METHOD_BUFFERED FILE_ANY_ACCESS"
definition IOCTL_IVSHMEM_RELEASE_MMAP :: u32 where
  "IOCTL_IVSHMEM_RELEASE_MMAP = ctl_code FILE_DEVICE_UNKNOWN 0x803 METHOD_BUFFERED FILE_ANY_ACCESS"

definition INVALID_HANDLE_VALUE :: usize where "INVALID_HANDLE_VALUE = - 1"

datatype windows_call =
  Create_Mapping u32 u32 "u16 list" usize
| Open_Mapping "u16 list" usize
| Map_View usize usize
| Virtual_Query usize
| Unmap_View usize
| Create_File "u16 list" usize
| Device_Io_Control usize u32 bool
| Close_Handle usize

text \<open>
  The answers: handles and views (0 is null), \<open>VirtualQuery\<close>'s return value and \<open>RegionSize\<close>, and of
  an I/O control whether it succeeded, the bytes returned and the answer. A recorded control carries
  whether it succeeded. The last error depends on the calls made.
\<close>

record windows =
  wn_create_mapping :: "u32 \<Rightarrow> u32 \<Rightarrow> u16 list \<Rightarrow> usize"
  wn_open_mapping :: "u16 list \<Rightarrow> usize"
  wn_map_view :: "usize \<Rightarrow> usize"
  wn_virtual_query :: "usize \<Rightarrow> usize \<times> usize"
  wn_create_file :: "u16 list \<Rightarrow> usize"
  wn_request_size :: "usize \<Rightarrow> bool \<times> u32 \<times> u64"
  wn_request_mmap :: "usize \<Rightarrow> u8 \<Rightarrow> bool \<times> u32 \<times> ivshmem_mmap"
  wn_release_mmap :: "usize \<Rightarrow> bool"
  wn_last_error :: "windows_call list \<Rightarrow> int"

definition to_utf16 :: "string \<Rightarrow> u16 list" where
  "to_utf16 s = map (\<lambda>c. of_nat (of_char c)) s @ [0]"

section \<open>Named mappings\<close>

record named_region =
  nr_ptr :: usize
  nr_len :: usize
  nr_mapping :: usize

definition named_drop :: "named_region \<Rightarrow> windows_call list" where
  "named_drop r = [Unmap_View (nr_ptr r), Close_Handle (nr_mapping r)]"

text \<open>The calls made before and after.\<close>

definition map_and_wrap :: "windows \<Rightarrow> windows_call list \<Rightarrow> usize \<Rightarrow> windows_call list \<times> named_region res" where
  "map_and_wrap os calls mapping =
     (let view = wn_map_view os mapping;
          mapped = calls @ [Map_View mapping view]
      in if view = 0
         then let closed = mapped @ [Close_Handle mapping] in (closed, Err (Io (wn_last_error os closed)))
         else case wn_virtual_query os view of
           (queried, mapped_size) \<Rightarrow>
             let asked = mapped @ [Virtual_Query view]
             in if queried = 0 \<or> mapped_size = 0
                then (asked @ [Unmap_View view, Close_Handle mapping],
                      Err (Protocol ''VirtualQuery failed for named shared memory view''))
                else (asked, Ok \<lparr>nr_ptr = view, nr_len = mapped_size, nr_mapping = mapping\<rparr>))"

definition named_create :: "windows \<Rightarrow> string \<Rightarrow> usize \<Rightarrow> u32 \<Rightarrow> windows_call list \<times> named_region res" where
  "named_create os name sz perms =
     (if sz = 0 then ([], Err (InvalidConfig ''size must be non-zero''))
      else if name = [] then ([], Err (InvalidConfig ''named mapping object cannot be empty''))
      else
        let size_hi = ucast (drop_bit 32 sz);
            size_lo = ucast (sz AND 0xFFFFFFFF);
            wname = to_utf16 name;
            mapping = wn_create_mapping os size_hi size_lo wname;
            calls = [Create_Mapping size_hi size_lo wname mapping]
        in if mapping = 0 then (calls, Err (Io (wn_last_error os calls)))
           else map_and_wrap os calls mapping)"

definition named_open :: "windows \<Rightarrow> string \<Rightarrow> windows_call list \<times> named_region res" where
  "named_open os name =
     (if name = [] then ([], Err (InvalidConfig ''named mapping object cannot be empty''))
      else
        let wname = to_utf16 name;
            mapping = wn_open_mapping os wname;
            calls = [Open_Mapping wname mapping]
        in if mapping = 0 then (calls, Err (Io (wn_last_error os calls)))
           else map_and_wrap os calls mapping)"

section \<open>The ivshmem device\<close>

definition IVSHMEM_IFACE_GUID_STR :: string where
  "IVSHMEM_IFACE_GUID_STR = ''{df576976-569d-4672-95a0-f57e4ea0b210}''"

record ivshmem_region =
  ir_ptr :: usize
  ir_len :: usize
  ir_dev_handle :: usize
  ir_mapped :: bool

text \<open>\<open>released\<close>: whether the control that gives the mapping back succeeds; the code does not look.\<close>

definition ivshmem_drop :: "bool \<Rightarrow> ivshmem_region \<Rightarrow> windows_call list" where
  "ivshmem_drop released r =
     (if ir_mapped r then [Device_Io_Control (ir_dev_handle r) IOCTL_IVSHMEM_RELEASE_MMAP released] else []) @
     [Close_Handle (ir_dev_handle r)]"

text \<open>The prefixes of file and device paths, with their backslashes.\<close>

definition path_prefix :: "char \<Rightarrow> string" where
  "path_prefix c = [CHR 0x5C, CHR 0x5C, c, CHR 0x5C]"

definition to_ascii_uppercase :: "string \<Rightarrow> string" where
  "to_ascii_uppercase s =
     map (\<lambda>c. if of_char c \<ge> (97 :: nat) \<and> of_char c \<le> (122 :: nat) then char_of (of_char c - 32 :: nat) else c) s"

definition normalize_target :: "string \<Rightarrow> string res" where
  "normalize_target name =
     (if name = [] then Err (InvalidConfig ''ivshmem device target cannot be empty'')
      else if starts_with (path_prefix CHR ''?'') name then Ok name
      else
        let norm = map (\<lambda>c. if c = CHR ''/'' then CHR 0x5C else c) name
        in if starts_with (path_prefix CHR ''.'') norm then Ok norm
           else if contains_str ''#{'' norm then Ok (path_prefix CHR ''?'' @ norm)
           else if starts_with [CHR ''P'', CHR ''C'', CHR ''I'', CHR 0x5C] (to_ascii_uppercase norm)
           then let iface = map (\<lambda>c. if c = CHR 0x5C then CHR ''#'' else c) norm
                in Ok (path_prefix CHR ''?'' @ iface @ ''#'' @ IVSHMEM_IFACE_GUID_STR)
           else Err (InvalidBackendSpec ''ivshmem target must be PCI instance id or full interface path''))"

definition request_size :: "windows \<Rightarrow> windows_call list \<Rightarrow> usize \<Rightarrow> windows_call list \<times> u64 res" where
  "request_size os calls handle =
     (case wn_request_size os handle of (ok, bytes_ret, sz) \<Rightarrow>
        let asked = calls @ [Device_Io_Control handle IOCTL_IVSHMEM_REQUEST_SIZE ok]
        in (asked, if \<not> ok then Err (Io (wn_last_error os asked))
                   else if bytes_ret \<noteq> 8 \<or> sz = 0 then Err (Protocol ''invalid ivshmem size response'')
                   else Ok sz))"

definition request_map :: "windows \<Rightarrow> windows_call list \<Rightarrow> usize \<Rightarrow> windows_call list \<times> ivshmem_mmap res" where
  "request_map os calls handle =
     (case wn_request_mmap os handle IVSHMEM_CACHE_CACHED of (ok, bytes_ret, answer) \<Rightarrow>
        let asked = calls @ [Device_Io_Control handle IOCTL_IVSHMEM_REQUEST_MMAP ok]
        in (asked, if \<not> ok then Err (Io (wn_last_error os asked))
                   else if bytes_ret \<noteq> 32 then Err (Protocol ''invalid ivshmem mmap response size'')
                   else if im_ptr answer = 0 \<or> im_size answer = 0
                   then Err (Protocol ''ivshmem driver returned null/zero mapping'')
                   else Ok answer))"

definition ivshmem_create :: "string \<Rightarrow> usize \<Rightarrow> u32 \<Rightarrow> windows_call list \<times> ivshmem_region res" where
  "ivshmem_create name sz perms =
     ([], Err (UnsupportedBackend ''ivshmem backend is attach-only; use open() from reader side''))"

definition ivshmem_open :: "windows \<Rightarrow> string \<Rightarrow> windows_call list \<times> ivshmem_region res" where
  "ivshmem_open os name =
     (case normalize_target name of
        Err e \<Rightarrow> ([], Err e)
      | Panic \<Rightarrow> ([], Panic)
      | Ok target \<Rightarrow>
          let wname = to_utf16 target;
              handle = wn_create_file os wname;
              calls = [Create_File wname handle]
          in if handle = INVALID_HANDLE_VALUE \<or> handle = 0 then (calls, Err (Io (wn_last_error os calls)))
             else case request_size os calls handle of
               (calls1, Err e) \<Rightarrow> (calls1 @ [Close_Handle handle], Err e)
             | (calls1, Panic) \<Rightarrow> (calls1, Panic)
             | (calls1, Ok requested_size) \<Rightarrow>
                 (case request_map os calls1 handle of
                    (calls2, Err e) \<Rightarrow> (calls2 @ [Close_Handle handle], Err e)
                  | (calls2, Panic) \<Rightarrow> (calls2, Panic)
                  | (calls2, Ok mapped) \<Rightarrow>
                      if im_size mapped \<noteq> requested_size
                      then (calls2 @ [Device_Io_Control handle IOCTL_IVSHMEM_RELEASE_MMAP (wn_release_mmap os handle),
                                      Close_Handle handle],
                            Err (Protocol ''ivshmem size mismatch between size/mmap ioctls''))
                      else (calls2, Ok \<lparr>ir_ptr = im_ptr mapped, ir_len = im_size mapped, ir_dev_handle = handle,
                                       ir_mapped = True\<rparr>)))"

section \<open>Properties\<close>

text \<open>The codes are those of the driver.\<close>

lemma ioctl_values:
  "IOCTL_IVSHMEM_REQUEST_SIZE = 0x222004" "IOCTL_IVSHMEM_REQUEST_MMAP = 0x222008" "IOCTL_IVSHMEM_RELEASE_MMAP = 0x22200C"
  by (simp_all add: IOCTL_IVSHMEM_REQUEST_SIZE_def IOCTL_IVSHMEM_REQUEST_MMAP_def IOCTL_IVSHMEM_RELEASE_MMAP_def
      ctl_code_def FILE_DEVICE_UNKNOWN_def METHOD_BUFFERED_def FILE_ANY_ACCESS_def push_bit_eq_mult)

text \<open>
  The open handles, the mapped views, and the devices, by their handles, that have memory mapped. A
  null handle, an invalid one and a null view are failures of the call. A request for the device's
  memory that succeeds maps it, and only a release that succeeds takes the mapping away again: closing
  the device does not count as giving it back.
\<close>

type_synonym windows_resources = "usize list \<times> usize list \<times> usize list"

fun windows_step :: "windows_call \<Rightarrow> windows_resources \<Rightarrow> windows_resources option" where
  "windows_step (Create_Mapping _ _ _ h) (hs, vs, ms) = Some (if h = 0 then (hs, vs, ms) else (h # hs, vs, ms))"
| "windows_step (Open_Mapping _ h) (hs, vs, ms) = Some (if h = 0 then (hs, vs, ms) else (h # hs, vs, ms))"
| "windows_step (Create_File _ h) (hs, vs, ms) =
     Some (if h = 0 \<or> h = INVALID_HANDLE_VALUE then (hs, vs, ms) else (h # hs, vs, ms))"
| "windows_step (Map_View _ v) (hs, vs, ms) = Some (if v = 0 then (hs, vs, ms) else (hs, v # vs, ms))"
| "windows_step (Unmap_View v) (hs, vs, ms) = (if v \<in> set vs then Some (hs, remove1 v vs, ms) else None)"
| "windows_step (Close_Handle h) (hs, vs, ms) = (if h \<in> set hs then Some (remove1 h hs, vs, ms) else None)"
| "windows_step (Virtual_Query v) (hs, vs, ms) = (if v \<in> set vs then Some (hs, vs, ms) else None)"
| "windows_step (Device_Io_Control h code ok) (hs, vs, ms) =
     (if h \<notin> set hs then None
      else if \<not> ok then Some (hs, vs, ms)
      else if code = IOCTL_IVSHMEM_REQUEST_MMAP then Some (hs, vs, h # ms)
      else if code = IOCTL_IVSHMEM_RELEASE_MMAP then (if h \<in> set ms then Some (hs, vs, remove1 h ms) else None)
      else Some (hs, vs, ms))"

abbreviation nothing_held :: windows_resources where
  "nothing_held \<equiv> ([], [], [])"

text \<open>
  A device that keeps to its protocol: a request for its memory that succeeds has a whole answer with
  a mapping in it, and a mapping is given back when that is asked.
\<close>

definition device_documented :: "windows \<Rightarrow> bool" where
  "device_documented os \<longleftrightarrow>
     (\<forall>h c. case wn_request_mmap os h c of (ok, bytes_ret, answer) \<Rightarrow>
        \<not> ok \<or> bytes_ret = 32 \<and> im_ptr answer \<noteq> 0 \<and> im_size answer \<noteq> 0) \<and>
     (\<forall>h. wn_release_mmap os h)"

text \<open>The errors of \<open>request_map\<close> for an answer that is not whole.\<close>

definition broken_answer :: "'a res \<Rightarrow> bool" where
  "broken_answer r \<longleftrightarrow> r = Err (Protocol ''invalid ivshmem mmap response size'') \<or>
     r = Err (Protocol ''ivshmem driver returned null/zero mapping'')"

lemma map_and_wrap_tidy:
  assumes "mapping \<noteq> 0" "\<And>cs. run_calls windows_step (calls @ cs) nothing_held = run_calls windows_step cs ([mapping], [], [])"
  shows "tidy windows_step nothing_held named_drop (map_and_wrap os calls mapping)"
  using assms by (auto simp: map_and_wrap_def Let_def tidy_def named_drop_def split: prod.splits)

lemma normalize_target_no_panic: "normalize_target name \<noteq> Panic"
  by (simp add: normalize_target_def Let_def)

interpretation named_creating: tidy_backend "\<lambda>(os, name, sz, perms). named_create os name sz perms" named_drop
  windows_step nothing_held "\<lambda>_. True"
proof (unfold_locales, clarify)
  fix os name sz perms
  show "tidy windows_step nothing_held named_drop (named_create os name sz perms)"
    by (auto simp: named_create_def Let_def intro!: map_and_wrap_tidy) (auto simp: tidy_def)
qed

interpretation named_opening: tidy_backend "\<lambda>(os, name). named_open os name" named_drop windows_step nothing_held "\<lambda>_. True"
proof (unfold_locales, clarify)
  fix os name
  show "tidy windows_step nothing_held named_drop (named_open os name)"
    by (auto simp: named_open_def Let_def intro!: map_and_wrap_tidy) (auto simp: tidy_def)
qed

lemma target_error_whole: "normalize_target name = Err e \<Longrightarrow> \<not> broken_answer (Err e :: 'a res)"
  by (auto simp: normalize_target_def Let_def broken_answer_def split: if_splits)

lemma request_size_calls:
  assumes "run_calls windows_step calls nothing_held = Some ([h], [], [])"
  shows "run_calls windows_step (fst (request_size os calls h)) nothing_held = Some ([h], [], []) \<and>
    snd (request_size os calls h) \<noteq> Panic \<and> \<not> broken_answer (snd (request_size os calls h))"
  using assms
  by (auto simp: request_size_def Let_def run_calls_append broken_answer_def ioctl_values split: prod.splits)

lemma request_map_calls:
  assumes "run_calls windows_step calls nothing_held = Some ([h], [], [])"
  shows "run_calls windows_step (fst (request_map os calls h)) nothing_held =
      Some ([h], [], if (\<exists>m. snd (request_map os calls h) = Ok m) \<or> broken_answer (snd (request_map os calls h)) then [h] else []) \<and>
    snd (request_map os calls h) \<noteq> Panic \<and>
    (device_documented os \<longrightarrow> \<not> broken_answer (snd (request_map os calls h)))"
proof -
  obtain ok n m where m: "wn_request_mmap os h IVSHMEM_CACHE_CACHED = (ok, n, m)" by (metis prod_cases3)
  have "\<not> ok \<or> n = 32 \<and> im_ptr m \<noteq> 0 \<and> im_size m \<noteq> 0" if "device_documented os"
    using conjunct1 [OF that [unfolded device_documented_def], THEN spec, THEN spec, of h IVSHMEM_CACHE_CACHED]
    by (simp add: m)
  then show ?thesis using assms
    by (auto simp: request_map_def Let_def run_calls_append broken_answer_def ioctl_values m)
qed

text \<open>What the calls of \<open>open\<close> leave, on a device that gives a mapping back when that is asked.\<close>

lemma ivshmem_open_leaves:
  assumes "\<forall>h. wn_release_mmap os h" "ivshmem_open os name = (calls, r)"
  shows "case r of
      Ok g \<Rightarrow> ir_mapped g \<and>
        run_calls windows_step calls nothing_held = Some ([ir_dev_handle g], [], [ir_dev_handle g])
    | Err e \<Rightarrow> (\<exists>h. run_calls windows_step calls nothing_held = Some ([], [], if broken_answer r then [h] else []))
    | Panic \<Rightarrow> False"
    and "device_documented os \<Longrightarrow> \<not> broken_answer r"
proof -
  have "(case r of
      Ok g \<Rightarrow> ir_mapped g \<and>
        run_calls windows_step calls nothing_held = Some ([ir_dev_handle g], [], [ir_dev_handle g])
    | Err e \<Rightarrow> (\<exists>h. run_calls windows_step calls nothing_held = Some ([], [], if broken_answer r then [h] else []))
    | Panic \<Rightarrow> False) \<and> (device_documented os \<longrightarrow> \<not> broken_answer r)"
  proof (cases "normalize_target name")
    case (Err e)
    then show ?thesis using assms(2) target_error_whole [OF Err] by (auto simp: ivshmem_open_def)
  next
    case Panic
    then show ?thesis using normalize_target_no_panic by blast
  next
    case (Ok t)
    define h where "h = wn_create_file os (to_utf16 t)"
    let ?calls = "[Create_File (to_utf16 t) h]"
    show ?thesis
    proof (cases "h = INVALID_HANDLE_VALUE \<or> h = 0")
      case True
      then show ?thesis using assms(2) Ok by (auto simp: ivshmem_open_def Let_def broken_answer_def h_def [symmetric])
    next
      case False
      obtain c1 r1 where r1: "request_size os ?calls h = (c1, r1)" by force
      have "run_calls windows_step ?calls nothing_held = Some ([h], [], [])" using False by simp
      from request_size_calls [OF this, of os] have s1: "run_calls windows_step c1 nothing_held = Some ([h], [], [])"
        "r1 \<noteq> Panic" "\<not> broken_answer r1" by (simp_all add: r1)
      obtain c2 r2 where r2: "request_map os c1 h = (c2, r2)" by force
      from request_map_calls [OF s1(1), of os]
      have s2: "run_calls windows_step c2 nothing_held = Some ([h], [], if (\<exists>m. r2 = Ok m) \<or> broken_answer r2 then [h] else [])"
        "r2 \<noteq> Panic" "device_documented os \<longrightarrow> \<not> broken_answer r2" by (simp_all add: r2)
      show ?thesis
        using assms Ok False s1 s2
        by (cases r1; cases r2)
          (auto simp: ivshmem_open_def Let_def h_def [symmetric] r1 r2 run_calls_append ioctl_values broken_answer_def
            split: if_splits)
    qed
  qed
  then show "case r of
      Ok g \<Rightarrow> ir_mapped g \<and>
        run_calls windows_step calls nothing_held = Some ([ir_dev_handle g], [], [ir_dev_handle g])
    | Err e \<Rightarrow> (\<exists>h. run_calls windows_step calls nothing_held = Some ([], [], if broken_answer r then [h] else []))
    | Panic \<Rightarrow> False" "device_documented os \<Longrightarrow> \<not> broken_answer r" by blast+
qed

lemma ivshmem_open_tidy:
  assumes "\<forall>h. wn_release_mmap os h" "\<not> broken_answer (snd (ivshmem_open os name))"
  shows "tidy windows_step nothing_held (ivshmem_drop True) (ivshmem_open os name)"
proof -
  obtain calls r where r: "ivshmem_open os name = (calls, r)" by force
  show ?thesis using ivshmem_open_leaves(1) [OF assms(1) r] assms(2)
    by (auto simp: r tidy_def ivshmem_drop_def run_calls_append ioctl_values split: res.split)
qed

interpretation ivshmem_opening: tidy_backend "\<lambda>(os, name). ivshmem_open os name" "ivshmem_drop True" windows_step
  nothing_held "\<lambda>(os, name). device_documented os"
proof (unfold_locales, clarify)
  fix os name
  assume d: "device_documented os"
  have "\<not> broken_answer (snd (ivshmem_open os name))"
    using ivshmem_open_leaves(2) [of os name "fst (ivshmem_open os name)" "snd (ivshmem_open os name)"] d
    by (simp add: device_documented_def)
  then show "tidy windows_step nothing_held (ivshmem_drop True) (ivshmem_open os name)"
    using d by (intro ivshmem_open_tidy) (auto simp: device_documented_def)
qed

text \<open>
  C33: what the Windows backends hold. The named backend leaks nothing, whatever the API answers: a
  failing \<open>create\<close> or \<open>open\<close> has closed every handle and unmapped every view it got, a region still
  holds them, and dropping the region frees them; nothing is used after it was closed or closed
  twice. The same holds of the ivshmem backend and of the memory the device maps for it: on a device
  that gives a mapping back when that is asked, a failing \<open>open\<close> has closed the device and released the
  mapping, and dropping a region releases the mapping and closes the device. There is one exception:
  if the request for the memory succeeds but its answer is short, null or empty, \<open>open\<close> closes the
  device without releasing the mapping. A consumer that tries again and again and in the end drops its
  region leaves nothing behind, with the ivshmem backend if the device keeps to its protocol.
\<close>

theorem windows_backends_tidy:
  "tidy windows_step nothing_held named_drop (named_create os name sz perms) \<and>
   tidy windows_step nothing_held named_drop (named_open os name) \<and>
   run_calls windows_step (attach_calls (\<lambda>(os, name). named_open os name) named_drop xs) nothing_held = Some nothing_held \<and>
   tidy windows_step nothing_held (ivshmem_drop True) (ivshmem_create name sz perms) \<and>
   ((\<forall>h. wn_release_mmap os h) \<longrightarrow>
      (if broken_answer (snd (ivshmem_open os name))
       then \<exists>h. run_calls windows_step (fst (ivshmem_open os name)) nothing_held = Some ([], [], [h])
       else tidy windows_step nothing_held (ivshmem_drop True) (ivshmem_open os name))) \<and>
   (list_all (\<lambda>(os, name). device_documented os) xs \<longrightarrow>
      run_calls windows_step (attach_calls (\<lambda>(os, name). ivshmem_open os name) (ivshmem_drop True) xs) nothing_held =
        Some nothing_held)"
proof (intro conjI impI)
  show "tidy windows_step nothing_held named_drop (named_create os name sz perms)"
    using named_creating.attempt_tidy [of "(os, name, sz, perms)"] by simp
  show "tidy windows_step nothing_held named_drop (named_open os name)"
    using named_opening.attempt_tidy [of "(os, name)"] by simp
  show "run_calls windows_step (attach_calls (\<lambda>(os, name). named_open os name) named_drop xs) nothing_held = Some nothing_held"
    by (rule named_opening.attach_tidy) simp
  show "tidy windows_step nothing_held (ivshmem_drop True) (ivshmem_create name sz perms)"
    by (simp add: ivshmem_create_def tidy_def)
  show "if broken_answer (snd (ivshmem_open os name))
      then \<exists>h. run_calls windows_step (fst (ivshmem_open os name)) nothing_held = Some ([], [], [h])
      else tidy windows_step nothing_held (ivshmem_drop True) (ivshmem_open os name)"
    if released: "\<forall>h. wn_release_mmap os h"
  proof (cases "broken_answer (snd (ivshmem_open os name))")
    case True
    then obtain calls e where "ivshmem_open os name = (calls, Err e)"
      by (cases "ivshmem_open os name") (auto simp: broken_answer_def)
    then show ?thesis using ivshmem_open_leaves(1) [OF released] True by fastforce
  qed (use released in \<open>simp add: ivshmem_open_tidy\<close>)
  show "run_calls windows_step (attach_calls (\<lambda>(os, name). ivshmem_open os name) (ivshmem_drop True) xs) nothing_held =
      Some nothing_held" if "list_all (\<lambda>(os, name). device_documented os) xs"
    using that by (intro ivshmem_opening.attach_tidy) (simp add: list_all_iff)
qed

section \<open>Sizes\<close>

lemma unat_to_u32: "unat (ucast (x :: usize) :: u32) = unat x mod 2 ^ 32"
  by (simp add: unsigned_ucast_eq take_bit_eq_mod)

lemma size_split:
  fixes sz :: usize
  shows "unat (ucast (drop_bit 32 sz) :: u32) * 2 ^ 32 + unat (ucast (sz AND 0xFFFFFFFF) :: u32) = unat sz"
proof -
  have "unat sz < 2 ^ 32 * 2 ^ 32" using unat_u64_less [of sz] by simp
  then have "unat sz div 2 ^ 32 < 2 ^ 32" by (rule less_mult_imp_div_less)
  moreover have "unat (drop_bit 32 sz) = unat sz div 2 ^ 32"
    by (rule trans [OF unat_drop_bit_eq drop_bit_eq_div])
  ultimately have hi: "unat (ucast (drop_bit 32 sz) :: u32) = unat sz div 2 ^ 32"
    by (simp only: unat_to_u32 mod_less)
  have "(0xFFFFFFFF :: usize) = mask 32" by (simp add: mask_eq_exp_minus_1)
  then have "unat (sz AND 0xFFFFFFFF) = unat sz mod 2 ^ 32"
    by (simp only: take_bit_eq_mask [symmetric] unsigned_take_bit_eq) (simp only: take_bit_eq_mod)
  then have lo: "unat (ucast (sz AND 0xFFFFFFFF) :: u32) = unat sz mod 2 ^ 32"
    by (simp only: unat_to_u32 mod_mod_trivial)
  show ?thesis unfolding hi lo by (rule div_mult_mod_eq)
qed

definition named_as_region :: "named_region \<Rightarrow> region" where
  "named_as_region r = \<lparr>rg_ptr = nr_ptr r, rg_len = nr_len r\<rparr>"

text \<open>
  What Windows documents: a new mapping object of a given size, and the same object opened by
  name, can be mapped whole, and the view is a region of whole pages.
\<close>

definition whole_view :: "windows \<Rightarrow> usize \<Rightarrow> usize \<Rightarrow> bool" where
  "whole_view os sz mapping \<longleftrightarrow> mapping \<noteq> 0 \<and> wn_map_view os mapping \<noteq> 0 \<and>
     fst (wn_virtual_query os (wn_map_view os mapping)) \<noteq> 0 \<and>
     unat (snd (wn_virtual_query os (wn_map_view os mapping))) = align_up_nat (unat sz) 4096"

definition mapping_documented :: "windows \<Rightarrow> string \<Rightarrow> usize \<Rightarrow> bool" where
  "mapping_documented os name sz \<longleftrightarrow> whole_view os sz (wn_open_mapping os (to_utf16 name)) \<and>
     (\<forall>hi lo. unat hi * 2 ^ 32 + unat lo = unat sz \<longrightarrow> whole_view os sz (wn_create_mapping os hi lo (to_utf16 name)))"

lemma map_and_wrap_whole:
  assumes "whole_view os sz mapping" "sz \<noteq> 0"
  shows "\<exists>r. snd (map_and_wrap os calls mapping) = Ok r \<and> unat (nr_len r) = align_up_nat (unat sz) 4096"
proof -
  have "0 < unat sz" using assms(2) by (simp add: unat_gt_0)
  then have "align_up_nat (unat sz) 4096 \<noteq> 0" using align_up_nat_ge [of "unat sz" 4096] by linarith
  then have "snd (wn_virtual_query os (wn_map_view os mapping)) \<noteq> 0" using assms(1) by (auto simp: whole_view_def)
  then show ?thesis using assms(1) by (auto simp: whole_view_def map_and_wrap_def Let_def split: prod.splits)
qed

text \<open>
  C34: the named backend works for whole pages only. With documented answers, \<open>create\<close> passes the
  size on exactly, in two halves, and the writer's region has the size rounded up to a page; a
  reader then opens the region exactly when the configured size is a multiple of the page, and
  otherwise reports \<open>mapped size mismatch\<close>, although the writer was created without an error.
\<close>

theorem named_whole_pages:
  assumes "mapping_documented os name (cfg_total_size cfg)" "cfg_total_size cfg \<noteq> 0" "name \<noteq> []"
    and "writer_create (\<lambda>path sz perms. res_bind (snd (named_create os path sz perms)) (\<lambda>r. Ok (named_as_region r)))
           pid name cfg = Ok w"
  shows "unat (rg_len (w_region w)) = align_up_nat (unat (cfg_total_size cfg)) 4096 \<and>
    reader_open (\<lambda>path. res_bind (snd (named_open os path)) (\<lambda>r. Ok (named_as_region r, w))) name =
      (if unat (cfg_total_size cfg) mod 4096 = 0 then Ok (w_layout w, w) else Err (Protocol ''mapped size mismatch''))"
proof -
  let ?sz = "cfg_total_size cfg"
  let ?m = "wn_create_mapping os (ucast (drop_bit 32 ?sz)) (ucast (?sz AND 0xFFFFFFFF)) (to_utf16 name)"
  have "whole_view os ?sz ?m" using assms(1) size_split unfolding mapping_documented_def by blast
  then obtain r where r: "snd (named_create os name ?sz (cfg_perms cfg)) = Ok r" "unat (nr_len r) = align_up_nat (unat ?sz) 4096"
    using map_and_wrap_whole [of os ?sz ?m] assms(2,3) by (auto simp: named_create_def Let_def whole_view_def)
  have o1: "whole_view os ?sz (wn_open_mapping os (to_utf16 name))" using assms(1) unfolding mapping_documented_def by blast
  then obtain r' where r': "snd (named_open os name) = Ok r'" "unat (nr_len r') = align_up_nat (unat ?sz) 4096"
    using map_and_wrap_whole [OF o1 assms(2)] assms(3) by (auto simp: named_open_def Let_def whole_view_def)
  have w: "w_region w = named_as_region r"
    by (rule writer_create_OkD [OF assms(4)]) (use r(1) in \<open>simp add: shm.defs\<close>)
  have "nr_len r' = ?sz \<longleftrightarrow> unat ?sz mod 4096 = 0"
  proof -
    have "nr_len r' = ?sz \<longleftrightarrow> align_up_nat (unat ?sz) 4096 = unat ?sz" using r'(2) by (metis word_unat_eq_iff)
    also have "\<dots> \<longleftrightarrow> unat ?sz mod 4096 = 0"
    proof -
      have "unat ?sz mod 4096 < 4096" by simp
      then show ?thesis by (auto simp: align_up_nat_def)
    qed
    finally show ?thesis .
  qed
  moreover have "reader_open (\<lambda>path. res_bind (snd (named_open os path)) (\<lambda>r. Ok (named_as_region r, w))) name =
      reader_open (\<lambda>_. Ok (named_as_region r', w)) name"
    by (simp add: reader_open_def r'(1))
  ultimately show ?thesis
    using reader_open_created [OF assms(4), of "named_as_region r'"] r(2)
    by (simp add: w named_as_region_def)
qed

definition named_demo :: windows where
  "named_demo = \<lparr>wn_create_mapping = (\<lambda>_ _ _. 8), wn_open_mapping = (\<lambda>_. 12), wn_map_view = (\<lambda>_. 0x10000),
     wn_virtual_query = (\<lambda>_. (48, 16384)), wn_create_file = (\<lambda>_. 16), wn_request_size = (\<lambda>_. (True, 8, 65536)),
     wn_request_mmap = (\<lambda>_ _. (True, 32, \<lparr>im_peer_id = 0, im_size = 65536, im_ptr = 0x20000, im_vectors = 1\<rparr>)),
     wn_release_mmap = (\<lambda>_. True), wn_last_error = (\<lambda>_. 5)\<rparr>"

lemma named_demo_documented: "mapping_documented named_demo ''shm'' 12300"
  by (simp add: mapping_documented_def whole_view_def named_demo_def align_up_nat_def)

theorem named_whole_pages_witness:
  "\<exists>w. writer_create (\<lambda>path sz perms. res_bind (snd (named_create named_demo path sz perms)) (\<lambda>r. Ok (named_as_region r)))
        7 ''shm'' (default_config\<lparr>cfg_total_size := 12300, cfg_ready_capacity := 2, cfg_recycle_capacity := 2\<rparr>) = Ok w \<and>
     rg_len (w_region w) = 16384 \<and>
     reader_open (\<lambda>path. res_bind (snd (named_open named_demo path)) (\<lambda>r. Ok (named_as_region r, w))) ''shm'' =
       Err (Protocol ''mapped size mismatch'')"
proof -
  let ?cfg = "default_config\<lparr>cfg_total_size := 12300, cfg_ready_capacity := 2, cfg_recycle_capacity := 2\<rparr>"
  let ?be = "\<lambda>path sz perms. res_bind (snd (named_create named_demo path sz perms)) (\<lambda>r. Ok (named_as_region r))"
  have be: "?be ''shm'' 12300 p = Ok \<lparr>rg_ptr = 0x10000, rg_len = 16384\<rparr>" for p
    by (simp add: named_create_def map_and_wrap_def named_demo_def Let_def named_as_region_def)
  obtain l n where "map_layout 16384 2 2 = Ok (l, n)"
    by (simp add: map_layout_eq arena_start_def align_up_nat_def)
  then obtain w where w: "writer_create ?be 7 ''shm'' ?cfg = Ok w"
    using be by (simp add: writer_create_def default_config_def)
  have "unat (rg_len (w_region w)) = 16384 \<and>
    reader_open (\<lambda>path. res_bind (snd (named_open named_demo path)) (\<lambda>r. Ok (named_as_region r, w))) ''shm'' =
       Err (Protocol ''mapped size mismatch'')"
    using named_whole_pages [of named_demo "''shm''" ?cfg 7 w] named_demo_documented w by (simp add: align_up_nat_def)
  moreover have "rg_len (w_region w) = 16384" if "unat (rg_len (w_region w)) = 16384"
    using that by (simp add: word_unat_eq_iff)
  ultimately show ?thesis using w by blast
qed

theorem windows_backends_tidy_witness:
  "run_calls windows_step (attach_calls (\<lambda>(os, name). ivshmem_open os name) (ivshmem_drop True)
     [(named_demo\<lparr>wn_request_size := \<lambda>_. (True, 8, 4096)\<rparr>, ''pci/x''), (named_demo, ''pci/x'')]) nothing_held = Some nothing_held \<and>
   tidy windows_step nothing_held (ivshmem_drop True) (ivshmem_open named_demo ''pci/x'') \<and>
   ir_len (case snd (ivshmem_open named_demo ''pci/x'') of Ok r \<Rightarrow> r) = 65536"
proof -
  have d: "list_all (\<lambda>(os, name). device_documented os)
      [(named_demo\<lparr>wn_request_size := \<lambda>_. (True, 8, 4096)\<rparr>, ''pci/x''), (named_demo, ''pci/x'')]"
    and r: "\<forall>h. wn_release_mmap named_demo h"
    by (simp_all add: device_documented_def named_demo_def)
  have "case normalize_target ''pci/x'' of Ok t \<Rightarrow> True | _ \<Rightarrow> False" by code_simp
  then have "\<exists>t. normalize_target ''pci/x'' = Ok t" by (simp split: res.splits)
  then obtain c g where o: "ivshmem_open named_demo ''pci/x'' = (c, Ok g)" "ir_len g = 65536"
    by (auto simp: ivshmem_open_def request_size_def request_map_def named_demo_def Let_def INVALID_HANDLE_VALUE_def)
  show ?thesis
    using windows_backends_tidy [of named_demo "''pci/x''" 0 0
        "[(named_demo\<lparr>wn_request_size := \<lambda>_. (True, 8, 4096)\<rparr>, ''pci/x''), (named_demo, ''pci/x'')]"] d r o
    by (simp add: broken_answer_def)
qed

section \<open>Device targets\<close>

lemma normalize_target_cases:
  assumes "normalize_target name = Ok target"
  defines "norm \<equiv> map (\<lambda>c. if c = CHR ''/'' then CHR 0x5C else c) name"
  shows "starts_with (path_prefix CHR ''?'') name \<and> target = name \<or>
    starts_with (path_prefix CHR ''.'') norm \<and> target = norm \<or>
    target = path_prefix CHR ''?'' @ norm \<and> contains_str ''#{'' norm \<or>
    target = path_prefix CHR ''?'' @ map (\<lambda>c. if c = CHR 0x5C then CHR ''#'' else c) norm @ ''#'' @ IVSHMEM_IFACE_GUID_STR"
proof -
  have "normalize_target name = Ok target" by (rule assms(1))
  then show ?thesis
    unfolding normalize_target_def norm_def [symmetric] Let_def
    by (cases "name = []"; cases "starts_with (path_prefix CHR ''?'') name"; cases "starts_with (path_prefix CHR ''.'') norm";
        cases "contains_str ''#{'' norm"; cases "starts_with [CHR ''P'', CHR ''C'', CHR ''I'', CHR 0x5C] (to_ascii_uppercase norm)")
      simp_all
qed

text \<open>
  Device targets. An accepted target is a path with a device prefix that is accepted unchanged
  again. Unless it was given with the prefix for literal paths it contains no forward slash. A
  PCI instance id, in any mix of cases and slashes, becomes the interface path with the driver's
  interface class at its end.
\<close>

lemma normalize_target_stable:
  assumes "normalize_target name = Ok target"
  shows "normalize_target target = Ok target \<and>
    (starts_with (path_prefix CHR ''?'') target \<or> starts_with (path_prefix CHR ''.'') target) \<and>
    (starts_with (path_prefix CHR ''?'') name \<or> CHR ''/'' \<notin> set target) \<and>
    (\<forall>rest. name = ''pci/'' @ rest \<and> \<not> contains_str ''#{'' (map (\<lambda>c. if c = CHR ''/'' then CHR 0x5C else c) name) \<longrightarrow>
       target = path_prefix CHR ''?'' @ ''pci#'' @
         map (\<lambda>c. if c = CHR ''/'' \<or> c = CHR 0x5C then CHR ''#'' else c) rest @ ''#'' @ IVSHMEM_IFACE_GUID_STR)"
proof -
  let ?norm = "map (\<lambda>c. if c = CHR ''/'' then CHR 0x5C else c) name"
  have q: "normalize_target (path_prefix CHR ''?'' @ t) = Ok (path_prefix CHR ''?'' @ t)" for t
    by (simp add: normalize_target_def) (simp add: path_prefix_def)
  have no_slash: "CHR ''/'' \<notin> set ?norm" by auto
  have guid: "CHR ''/'' \<notin> set IVSHMEM_IFACE_GUID_STR" by (simp add: IVSHMEM_IFACE_GUID_STR_def)
  have same: "map (\<lambda>c. if c = CHR ''/'' then CHR 0x5C else c) t = t" if "CHR ''/'' \<notin> set t" for t :: string
    using that by (induction t) auto
  consider (literal) "starts_with (path_prefix CHR ''?'') name" "target = name"
    | (device) "starts_with (path_prefix CHR ''.'') ?norm" "target = ?norm"
    | (iface) "target = path_prefix CHR ''?'' @ ?norm" "contains_str ''#{'' ?norm"
    | (pci) "target = path_prefix CHR ''?'' @ map (\<lambda>c. if c = CHR 0x5C then CHR ''#'' else c) ?norm @ ''#'' @ IVSHMEM_IFACE_GUID_STR"
    using normalize_target_cases [OF assms] by blast
  then show ?thesis
  proof cases
    case literal
    then obtain t where "name = path_prefix CHR ''?'' @ t" by (auto simp: starts_with_iff)
    then show ?thesis using literal assms by (simp add: path_prefix_def)
  next
    case device
    then obtain t where t: "?norm = path_prefix CHR ''.'' @ t" by (auto simp: starts_with_iff)
    have "normalize_target ?norm = Ok ?norm"
      using same [OF no_slash] device(1) t unfolding normalize_target_def by (simp add: path_prefix_def starts_with_def)
    moreover have "hd ?norm = CHR 0x5C" unfolding t by (simp add: path_prefix_def)
    then have "name \<noteq> ''pci/'' @ rest" for rest by auto
    ultimately show ?thesis using device no_slash by auto
  next
    case iface
    then show ?thesis using q no_slash by (auto simp: path_prefix_def starts_with_def)
  next
    case pci
    then show ?thesis using q no_slash guid by (auto simp: path_prefix_def starts_with_def)
  qed
qed

end
