(* ===== verification/Spec2Isabelle.thy ===== *)
theory Spec2Isabelle
  imports Upstream Playback Soundness Demo Races Daemon Elements Windows_Backends
begin

text \<open>
  A verification development of shm2, a shared-memory transport between GStreamer pipelines
  (\<open>src/src/\<close>).  A producer, \<open>Writer\<close>, and a consumer, \<open>Reader\<close>, map one region.  It holds a
  header with atomic counters, a ready ring of descriptors of published frames, a recycle ring of
  descriptors of buffers given back, and an arena of bytes.  The producer allocates a block of the
  arena for a frame (\<open>FreeListAllocator\<close>), writes the payload, and publishes a descriptor.  The
  consumer takes descriptors off the ready ring, reads the payload in place, and gives the buffer
  back through the recycle ring, which the producer drains into its allocator.  When a block does
  not fit, the producer drops the oldest queued frames, and then resets the region.  The source
  element \<open>shm2src\<close> wraps the reader and maps the producer's time stamps to its own clock with
  snapshots that the producer leaves in the header.  The sink element \<open>shm2sink\<close> wraps the writer;
  it offers blocks of the arena to upstream elements as memories, so that their buffers are published
  without a copy.  The relay daemon \<open>shm2_relayd\<close> switches between two input pipelines as
  clients connect and disconnect.

  Theories, in the order of their imports:

  \<^item> \<open>Prelude\<close>: machine integers at their width with the operations of the Rust standard library
    the code uses, vectors, bytes in memory, \<open>ShmError\<close> (\<open>platform/mod.rs\<close>) and the result type
    with its third case for panics.
  \<^item> \<open>Allocator\<close> (\<open>allocator.rs\<close>): the first-fit allocator with its free list (\<open>fl_free\<close>), its map
    of used blocks (\<open>fl_used\<close>, an association list for the \<open>BTreeMap\<close>) and \<open>fl_next_id\<close>.  Lemmas:
    the invariant \<open>alloc_wf\<close> (ranges in bounds and disjoint), first fit, coalescing, accounting of
    every byte (\<open>alloc_complete\<close>).  The locales \<open>lease_provider\<close> and \<open>counting_provider\<close> state what
    a user of the allocator relies on, and are interpreted on the code's operations.
  \<^item> \<open>Layout\<close> (\<open>transport.rs\<close>): the descriptors and the header as records in field order, their C
    layout, \<open>map_layout\<close>, \<open>init_header\<close>, \<open>validate_header\<close>.  Lemmas: parts of the region do not
    overlap and are aligned, when a layout exists.
  \<^item> \<open>Ring\<close>: slots and contents of a ring without its element type; the locale \<open>bounded_queue\<close>
    with the first-in-first-out theorem for every schedule of pushes and pops.
  \<^item> \<open>Polling\<close>: \<open>poll_yield_sleep\<close> (three identical copies in the crate) and the loops that use it.
  \<^item> \<open>Transport\<close>, \<open>Writer\<close>, \<open>Reader\<close> (\<open>transport.rs\<close>): \<open>Writer::create\<close>, \<open>Reader::open\<close> and one
    definition per method.  The writer is a record that extends the region (\<open>shm\<close>) by the
    producer's private fields; the reader's methods are defined on every extension of \<open>shm\<close>, so
    both act on one region and the reader cannot touch the producer's fields.
  \<^item> \<open>Queues\<close>: the two rings are \<open>bounded_queue\<close>s: \<open>ready_queue\<close>, filled by \<open>publish_lease\<close> and
    emptied by \<open>try_recv_desc\<close>; \<open>rec_queue\<close>, filled by \<open>try_recycle_desc\<close> and emptied by
    \<open>drain_recycles\<close>.
  \<^item> \<open>Leases\<close>: the writer's invariant \<open>writer_ok\<close>, creating and opening a region, the outcomes of
    \<open>alloc_lease\<close>.
  \<^item> \<open>Reception\<close>: the bounds check, the live policy of \<open>try_recv_latest_desc\<close>, attaching.
  \<^item> \<open>Ownership\<close>: producer and consumer together, as steps (\<open>sys_exec\<close>) on a state with the leases
    not yet published and the frames held by the consumer; reachability, single ownership of every
    buffer and stability of payloads.
  \<^item> \<open>Interleaving\<close> (\<open>transport.rs\<close> again, at the grain of single accesses): each side is a program
    counter with its locals, one step is one load or store of a shared field or one field of a
    descriptor copied, in the source's order.  The locale \<open>field_copy\<close> states what copying a
    descriptor field by field amounts to, and is interpreted on both descriptors.
  \<^item> \<open>Access_Invariants\<close>, \<open>Producer_Steps\<close>, \<open>Consumer_Steps\<close>, \<open>Latest_Steps\<close>: what each side relies on
    between its accesses and what it leaves alone, and that each access is invisible to the model of
    whole calls or is the moment at which a call takes effect.
  \<^item> \<open>Linearization\<close>: for every schedule without dropping the calls completed are a run of whole
    calls, and ownership holds at every access in between.
  \<^item> \<open>Races\<close>: schedules for which this fails: a drop under a \<open>try_recv_desc\<close>, and a timeline snapshot loaded while the next is stored.
  \<^item> \<open>Delivery\<close>: \<open>publish\<close> to \<open>recv_blocking\<close>, waiting on a full ring, oversize payloads, what a
    reset breaks, timeline snapshots.
  \<^item> \<open>Soundness\<close>: producer and consumer under every sequence of calls, resets included: everything
    stays well formed and inside the arena, and no call panics (\<open>system_well_typed\<close>).
  \<^item> \<open>Text\<close>: the string functions of the Rust standard library that the crate calls (searching,
    splitting, trimming, decimal numbers), with their round trips.
  \<^item> \<open>Platform\<close> (\<open>platform/mod.rs\<close>, \<open>platform/posix_file.rs\<close>): backend specifications and the POSIX
    backend with its system calls recorded.  The locale \<open>tidy_backend\<close> states what a user of a backend
    relies on about handles and mappings; it is interpreted on the POSIX and both Windows backends.
  \<^item> \<open>Windows_Backends\<close> (\<open>platform/windows_named.rs\<close>, \<open>platform/windows_ivshmem.rs\<close>): the calls of the
    Windows API recorded with their results, so that open handles, mapped views and the memory mapped by
    the ivshmem device can be counted.
  \<^item> \<open>Gst\<close>: values of GStreamer properties and flow results; the locale \<open>element_property\<close> states
    what writing a property promises, and is interpreted on the properties of both elements.
  \<^item> \<open>Source\<close> (\<open>shm2src.rs\<close>): the source element's properties and state, clock correction, \<open>start\<close>,
    \<open>stop\<close>, \<open>create\<close>.
  \<^item> \<open>Sink\<close> (\<open>shm2sink.rs\<close>): the sink element's properties and state, the tracker of upstream
    leases and its allocator, \<open>start\<close>, \<open>stop\<close>, \<open>render\<close> and the thread that drains the recycle ring.
  \<^item> \<open>Rendering\<close>: what \<open>render\<close> does: its two paths agree; a full ring, a buffer that is too big, an
    upstream memory dropped after \<open>render\<close> has reset the region.
  \<^item> \<open>Playback\<close>: the way of a buffer from the sink element's \<open>render\<close> to the source element's \<open>create\<close>,
    bytes and time stamp.
  \<^item> \<open>Upstream\<close>: the sink element with upstream and a consumer (\<open>sink_exec\<close>), a simulation of its
    calm runs by runs of \<open>Ownership\<close>, and with it exclusive ownership of the memories that live at
    upstream and have not been published (\<open>up_reachable\<close>).
  \<^item> \<open>Demo\<close> (\<open>bin/shm2_producer.rs\<close>, \<open>bin/shm2_consumer.rs\<close>): the two loops, run in turn: every frame
    arrives and no byte stays allocated.
  \<^item> \<open>Relay\<close> (\<open>bin/shm2_relayd.rs\<close>, up to its start): arguments, listen addresses, pipeline strings.
  \<^item> \<open>Utf8\<close>: the library's lossy conversion of bytes to text, which keeps well-formed text.
  \<^item> \<open>Clients\<close> (\<open>bin/shm2_relayd.rs\<close>, at run time): the lines of a client, sample forwarding, and the
    client counter as steps of threads and main loop (\<open>relay_exec\<close>); every \<open>set_state\<close> is a step of its
    own with its answer.
  \<^item> \<open>Daemon\<close> (\<open>bin/shm2_relayd.rs\<close>, the rest): building the pipelines, the listeners and \<open>main\<close>, with
    GStreamer's answers given and the calls made on it recorded.
  \<^item> \<open>Elements\<close> (\<open>shm2src.rs\<close>, \<open>shm2sink.rs\<close>, \<open>lib.rs\<close>): the declared properties, classes and
    registration; the locale \<open>declared_properties\<close> ties a declaration to the code behind it and is
    interpreted on both elements.

  Correspondence.  A struct is a record with the source's fields under a short prefix.  A method
  takes the record and returns the new one with its result: \<open>Ok\<close>, \<open>Err\<close> of the source's error, or
  \<open>Panic\<close> where the source indexes out of range or divides by zero.  Integers are words of the
  source's width and wrap as in a release build; \<open>usize\<close> has 64 bits.  Readings of the system clock
  are arguments.  From \<open>Transport\<close> to \<open>Soundness\<close> each method is one atomic step.  That this is
  right where both sides run at once is the subject of \<open>Interleaving\<close> to \<open>Linearization\<close>, for the
  methods that read or write the rings and the timeline fields while frames flow, with sequentially
  consistent memory: \<open>publish_lease\<close>, \<open>try_recv_desc\<close> and \<open>recycle_desc\<close> take effect with the store of
  their counter, each round of \<open>drain_recycles\<close> when its entry has been read, \<open>try_recv_latest_desc\<close>
  with one step for each frame it gives back and one for the frame it takes.  Schedules in which the
  producer drops frames or resets are outside this refinement; \<open>Races\<close> shows that dropping is not
  atomic in this sense.

  Loops.  The retry loop of \<open>alloc_lease\<close>, the loop of \<open>drain_recycles\<close> and the loop of
  \<open>try_recv_latest_desc\<close> are total functions with a termination proof (the distance of two ring
  counters, which wrap, decreases).  Loops that wait for the other side (\<open>publish_lease\<close>,
  \<open>recycle_desc\<close>, \<open>recv_blocking\<close>, \<open>create\<close>) may run forever.  They take the list of what the other
  side does during each sleep, and return \<open>None\<close> when they are still waiting after the whole list:
  the list is the fuel, any length is allowed, and the theorems say for which lists the loop returns
  (at once, for every list, when it can proceed) and for which it never does.  \<open>render\<close> takes such a
  list for each of its rounds, since it gives up its locks between rounds.

  Bounds.  Statements on allocation assume \<open>roomy\<close>: arena size, alignment and \<open>2 ^ 32\<close> together stay
  below \<open>2 ^ 64\<close>, so that the allocator's sums do not wrap.  Statements on the rings assume that the
  64-bit counters have not wrapped.  The id counter of the allocator does wrap at 32 bits;
  where this matters it is a hypothesis or the subject (\<open>alloc_id_reuse_loses_block\<close>).

  Not modelled: attaching (\<open>sync_startup_state\<close>) and the startup handshake access by access, which a
  consumer runs before it takes its first frame and which are atomic steps here; the reordering of
  accesses that weak memory allows between the \<open>Acquire\<close> and \<open>Release\<close> operations of the source (the
  pairs are there for every counter of the rings, not for the timeline fields); what the programs print besides the lines of clients; the texts with which the elements
  wrap an error for GStreamer's bus; tests; type declarations that carry no behaviour (\<open>Send\<close>, wrapper
  types, traits).  Whether a memory reports the sink's allocator as its own is GStreamer's behaviour
  and a parameter of the model (the two constructors of \<open>gst_memory\<close>).
\<close>

end
